(* ===== verification/Prelude.thy ===== *)
theory Prelude
  imports Complex_Main
begin

text \<open>
  Vocabulary shared by every component of the order saga: actions that may throw and that
  thread a state, and SQL statements on tables. A table is the list of its rows in insertion
  order; a statement is a function from the table to the new table and the number of affected
  rows. The mysql2 driver connects with FOUND_ROWS, so the rows an UPDATE affects are the rows
  its WHERE clause matches.
\<close>

named_theorems sql_key "how a statement acts on the row of one key"
named_theorems sql_simps "row-wise form of the SQL statements of a component"
named_theorems act_simps "unfolding of the action combinators"
named_theorems preserves_intro "an action keeps a predicate of the state"

section \<open>Actions: state passing with exceptions\<close>

type_synonym ('s, 'e, 'a) act = "'s \<Rightarrow> ('e + 'a) \<times> 's"

definition ret_act :: "'a \<Rightarrow> ('s, 'e, 'a) act" where
  "ret_act a = (\<lambda>s. (Inr a, s))"

definition throw_act :: "'e \<Rightarrow> ('s, 'e, 'a) act" where
  "throw_act e = (\<lambda>s. (Inl e, s))"

definition bind_act :: "('s, 'e, 'a) act \<Rightarrow> ('a \<Rightarrow> ('s, 'e, 'b) act) \<Rightarrow> ('s, 'e, 'b) act" where
  "bind_act m k = (\<lambda>s. case m s of (Inl e, s') \<Rightarrow> (Inl e, s') | (Inr a, s') \<Rightarrow> k a s')"

definition seq_act :: "('s, 'e, unit) act \<Rightarrow> ('s, 'e, 'b) act \<Rightarrow> ('s, 'e, 'b) act" where
  "seq_act m k = bind_act m (\<lambda>_. k)"

text \<open>\<open>try m catch h\<close>: what the body did to the state before it threw stays done.\<close>

definition catch_act :: "('s, 'e, 'a) act \<Rightarrow> ('e \<Rightarrow> ('s, 'e, 'a) act) \<Rightarrow> ('s, 'e, 'a) act" where
  "catch_act m h = (\<lambda>s. case m s of (Inl e, s') \<Rightarrow> h e s' | (Inr a, s') \<Rightarrow> (Inr a, s'))"

lemmas act_defs = ret_act_def throw_act_def bind_act_def seq_act_def catch_act_def

lemma ret_act_apply [act_simps]: "ret_act a s = (Inr a, s)"
  by (simp add: ret_act_def)

lemma throw_act_apply [act_simps]: "throw_act e s = (Inl e, s)"
  by (simp add: throw_act_def)

lemma bind_act_Inr [act_simps]: "m s = (Inr a, s') \<Longrightarrow> bind_act m k s = k a s'"
  by (simp add: bind_act_def)

lemma bind_act_Inl [act_simps]: "m s = (Inl e, s') \<Longrightarrow> bind_act m k s = (Inl e, s')"
  by (simp add: bind_act_def)

lemma seq_act_Inr [act_simps]: "m s = (Inr u, s') \<Longrightarrow> seq_act m k s = k s'"
  by (simp add: seq_act_def bind_act_def)

lemma seq_act_Inl [act_simps]: "m s = (Inl e, s') \<Longrightarrow> seq_act m k s = (Inl e, s')"
  by (simp add: seq_act_def bind_act_def)

lemma catch_act_Inr [act_simps]: "m s = (Inr a, s') \<Longrightarrow> catch_act m h s = (Inr a, s')"
  by (simp add: catch_act_def)

lemma catch_act_Inl [act_simps]: "m s = (Inl e, s') \<Longrightarrow> catch_act m h s = h e s'"
  by (simp add: catch_act_def)

lemma bind_act_assoc: "bind_act (bind_act m k) h = bind_act m (\<lambda>a. bind_act (k a) h)"
  by (auto simp: bind_act_def fun_eq_iff split: prod.splits sum.splits)

lemma bind_ret_act [simp]: "bind_act (ret_act a) k = k a"
  by (simp add: bind_act_def ret_act_def)

lemma bind_act_ret [simp]: "bind_act m ret_act = m"
  by (auto simp: bind_act_def ret_act_def fun_eq_iff split: prod.splits sum.splits)

lemma bind_throw_act [simp]: "bind_act (throw_act e) k = throw_act e"
  by (simp add: bind_act_def throw_act_def)

text \<open>
  An action keeps a predicate of the state whether it returns or throws. The rules follow the
  combinators, so a component proves it once per statement and composes.
\<close>

definition preserves :: "('s \<Rightarrow> bool) \<Rightarrow> ('s, 'e, 'a) act \<Rightarrow> bool" where
  "preserves P m \<longleftrightarrow> (\<forall>s. P s \<longrightarrow> P (snd (m s)))"

lemma preservesI: "(\<And>s. P s \<Longrightarrow> P (snd (m s))) \<Longrightarrow> preserves P m"
  by (simp add: preserves_def)

lemma preservesD: "preserves P m \<Longrightarrow> P s \<Longrightarrow> m s = (r, s') \<Longrightarrow> P s'"
  by (metis preserves_def snd_conv)

lemma preserves_ret [preserves_intro]: "preserves P (ret_act a)"
  by (simp add: preserves_def ret_act_def)

lemma preserves_throw [preserves_intro]: "preserves P (throw_act e)"
  by (simp add: preserves_def throw_act_def)

lemma preserves_bind [preserves_intro]:
  assumes "preserves P m" and "\<And>a. preserves P (k a)"
  shows "preserves P (bind_act m k)"
proof (rule preservesI)
  fix s assume "P s"
  obtain r s' where m: "m s = (r, s')" by fastforce
  with assms(1) \<open>P s\<close> have "P s'" by (auto dest: preservesD)
  with m assms(2) show "P (snd (bind_act m k s))"
    by (cases r) (auto simp: bind_act_def preserves_def)
qed

lemma preserves_seq [preserves_intro]:
  "preserves P m \<Longrightarrow> preserves P k \<Longrightarrow> preserves P (seq_act m k)"
  unfolding seq_act_def by (rule preserves_bind)

lemma preserves_catch [preserves_intro]:
  assumes "preserves P m" and "\<And>e. preserves P (h e)"
  shows "preserves P (catch_act m h)"
proof (rule preservesI)
  fix s assume "P s"
  obtain r s' where m: "m s = (r, s')" by fastforce
  with assms(1) \<open>P s\<close> have "P s'" by (auto dest: preservesD)
  with m assms(2) show "P (snd (catch_act m h s))"
    by (cases r) (auto simp: catch_act_def preserves_def)
qed

section \<open>SQL statements on tables\<close>

text \<open>\<open>UPDATE t SET f WHERE p\<close>; the second component is affectedRows.\<close>

definition sql_update :: "('r \<Rightarrow> bool) \<Rightarrow> ('r \<Rightarrow> 'r) \<Rightarrow> 'r list \<Rightarrow> 'r list \<times> nat" where
  "sql_update p f rs = (map (\<lambda>r. if p r then f r else r) rs, length (filter p rs))"

text \<open>\<open>DELETE FROM t WHERE p\<close>\<close>

definition sql_delete :: "('r \<Rightarrow> bool) \<Rightarrow> 'r list \<Rightarrow> 'r list \<times> nat" where
  "sql_delete p rs = (filter (\<lambda>r. \<not> p r) rs, length (filter p rs))"

text \<open>The row of a key in a table whose column \<open>k\<close> is UNIQUE.\<close>

definition row_at :: "('r \<Rightarrow> 'k) \<Rightarrow> 'k \<Rightarrow> 'r list \<Rightarrow> 'r option" where
  "row_at k x rs = find (\<lambda>r. k r = x) rs"

definition unique_key :: "('r \<Rightarrow> 'k) \<Rightarrow> 'r list \<Rightarrow> bool" where
  "unique_key k rs \<longleftrightarrow> distinct (map k rs)"

text \<open>\<open>INSERT\<close> into a table with a UNIQUE column \<open>k\<close>: None is the duplicate-key error.\<close>

definition sql_insert :: "('r \<Rightarrow> 'k) \<Rightarrow> 'r \<Rightarrow> 'r list \<Rightarrow> 'r list option" where
  "sql_insert k r rs = (if k r \<in> k ` set rs then None else Some (rs @ [r]))"

text \<open>\<open>INSERT IGNORE\<close> of one row: a duplicate is skipped and counts zero rows.\<close>

definition sql_insert_ignore :: "('r \<Rightarrow> 'k) \<Rightarrow> 'r \<Rightarrow> 'r list \<Rightarrow> 'r list \<times> nat" where
  "sql_insert_ignore k r rs = (if k r \<in> k ` set rs then (rs, 0) else (rs @ [r], 1))"

text \<open>\<open>INSERT ... ON DUPLICATE KEY UPDATE\<close> of one row.\<close>

definition sql_upsert :: "('r \<Rightarrow> 'k) \<Rightarrow> 'r \<Rightarrow> ('r \<Rightarrow> 'r) \<Rightarrow> 'r list \<Rightarrow> 'r list" where
  "sql_upsert k r f rs =
     (if k r \<in> k ` set rs then map (\<lambda>q. if k q = k r then f q else q) rs else rs @ [r])"

lemma row_at_None: "row_at k x rs = None \<longleftrightarrow> x \<notin> k ` set rs"
  by (auto simp: row_at_def find_None_iff)

lemma row_at_Some_key: "row_at k x rs = Some r \<Longrightarrow> k r = x"
  by (auto simp: row_at_def find_Some_iff)

lemma row_at_Some_in: "row_at k x rs = Some r \<Longrightarrow> r \<in> set rs"
  by (auto simp: row_at_def find_Some_iff)

lemma row_at_Nil [simp]: "row_at k x [] = None"
  by (simp add: row_at_def)

lemma row_at_Cons [simp]: "row_at k x (r # rs) = (if k r = x then Some r else row_at k x rs)"
  by (simp add: row_at_def)

lemma row_at_append: "row_at k x (rs @ qs) =
  (case row_at k x rs of None \<Rightarrow> row_at k x qs | Some r \<Rightarrow> Some r)"
  by (induction rs) auto

lemma unique_key_Nil [simp]: "unique_key k []"
  by (simp add: unique_key_def)

lemma unique_key_row_at: "unique_key k rs \<Longrightarrow> r \<in> set rs \<Longrightarrow> row_at k (k r) rs = Some r"
  by (induction rs) (auto simp: unique_key_def)

lemma unique_key_eq: "unique_key k rs \<Longrightarrow> r \<in> set rs \<Longrightarrow> q \<in> set rs \<Longrightarrow> k r = k q \<Longrightarrow> r = q"
  by (metis option.inject unique_key_row_at)

subsection \<open>The statements seen from one key\<close>

lemma row_at_update [sql_key]:
  assumes "\<And>r. k (f r) = k r"
  shows "row_at k x (fst (sql_update p f rs)) =
    map_option (\<lambda>r. if p r then f r else r) (row_at k x rs)"
  using assms by (induction rs) (auto simp: sql_update_def)

lemma unique_key_update [sql_key]:
  assumes "\<And>r. k (f r) = k r"
  shows "unique_key k (fst (sql_update p f rs)) = unique_key k rs"
proof -
  have "map k (fst (sql_update p f rs)) = map k rs"
    using assms by (simp add: sql_update_def)
  then show ?thesis by (simp only: unique_key_def)
qed

lemma affected_at_key [sql_key]:
  assumes "unique_key k rs" and "\<And>r. p r \<Longrightarrow> k r = x"
  shows "snd (sql_update p f rs) =
    (case row_at k x rs of None \<Rightarrow> 0 | Some r \<Rightarrow> if p r then 1 else 0)"
  using assms(1)
proof (induction rs)
  case Nil
  then show ?case by (simp add: sql_update_def)
next
  case (Cons r rs)
  then have IH: "snd (sql_update p f rs) =
      (case row_at k x rs of None \<Rightarrow> 0 | Some r \<Rightarrow> if p r then 1 else 0)"
    by (simp add: unique_key_def)
  show ?case
  proof (cases "k r = x")
    case True
    with Cons.prems have "row_at k x rs = None"
      by (auto simp: unique_key_def row_at_None)
    with True IH show ?thesis by (simp add: sql_update_def)
  next
    case False
    then have "\<not> p r" using assms(2) by blast
    with False IH show ?thesis by (simp add: sql_update_def)
  qed
qed

lemma affected_zero: "snd (sql_update p f rs) = 0 \<longleftrightarrow> (\<forall>r \<in> set rs. \<not> p r)"
  by (auto simp: sql_update_def filter_empty_conv)

lemma update_zero: "snd (sql_update p f rs) = 0 \<Longrightarrow> fst (sql_update p f rs) = rs"
  unfolding affected_zero by (simp add: sql_update_def map_idI)

lemma set_update: "set (fst (sql_update p f rs)) = (\<lambda>r. if p r then f r else r) ` set rs"
  by (simp add: sql_update_def)

lemma length_update [simp]: "length (fst (sql_update p f rs)) = length rs"
  by (simp add: sql_update_def)

lemma row_at_delete [sql_key]:
  assumes "unique_key k rs"
  shows "row_at k x (fst (sql_delete p rs)) =
    (case row_at k x rs of None \<Rightarrow> None | Some r \<Rightarrow> if p r then None else Some r)"
  using assms
proof (induction rs)
  case Nil
  then show ?case by (simp add: sql_delete_def)
next
  case (Cons r rs)
  then have "k r = x \<Longrightarrow> row_at k x (filter (\<lambda>r. \<not> p r) rs) = None"
    by (auto simp: unique_key_def row_at_None)
  with Cons show ?case by (auto simp: sql_delete_def unique_key_def)
qed

lemma unique_key_delete [sql_key]: "unique_key k rs \<Longrightarrow> unique_key k (fst (sql_delete p rs))"
  by (simp add: sql_delete_def unique_key_def distinct_map_filter)

lemma sql_insert_None [sql_key]: "sql_insert k r rs = None \<longleftrightarrow> row_at k (k r) rs \<noteq> None"
  by (auto simp: sql_insert_def row_at_None)

lemma sql_insert_Some [sql_key]:
  "sql_insert k r rs = Some rs' \<longleftrightarrow> row_at k (k r) rs = None \<and> rs' = rs @ [r]"
  by (auto simp: sql_insert_def row_at_None)

lemma row_at_snoc [sql_key]:
  "row_at k (k r) rs = None \<Longrightarrow> row_at k x (rs @ [r]) = (if k r = x then Some r else row_at k x rs)"
  by (auto simp: row_at_append split: option.splits)

lemma unique_key_snoc [sql_key]:
  "row_at k (k r) rs = None \<Longrightarrow> unique_key k (rs @ [r]) = unique_key k rs"
  by (auto simp: unique_key_def row_at_None)

lemma insert_ignore_eq:
  "sql_insert_ignore k r rs = (if row_at k (k r) rs = None then (rs @ [r], 1) else (rs, 0))"
  by (simp add: sql_insert_ignore_def row_at_None)

lemma row_at_insert_ignore [sql_key]:
  "row_at k x (fst (sql_insert_ignore k r rs)) =
    (case row_at k x rs of None \<Rightarrow> if k r = x then Some r else None | Some q \<Rightarrow> Some q)"
  by (cases "row_at k (k r) rs") (auto simp: insert_ignore_eq row_at_append split: option.splits)

lemma unique_key_insert_ignore [sql_key]:
  "unique_key k rs \<Longrightarrow> unique_key k (fst (sql_insert_ignore k r rs))"
  by (auto simp: sql_insert_ignore_def unique_key_def)

lemma insert_ignore_affected [sql_key]:
  "snd (sql_insert_ignore k r rs) = (if row_at k (k r) rs = None then 1 else 0)"
  by (simp add: sql_insert_ignore_def row_at_None)

lemma row_at_upsert [sql_key]:
  assumes "\<And>q. k (f q) = k q"
  shows "row_at k x (sql_upsert k r f rs) =
    (if k r = x then Some (case row_at k x rs of None \<Rightarrow> r | Some q \<Rightarrow> f q) else row_at k x rs)"
proof -
  have "row_at k x (map (\<lambda>q. if k q = k r then f q else q) rs) =
      (if k r = x then map_option f (row_at k x rs) else row_at k x rs)"
    using assms by (induction rs) auto
  then show ?thesis
    using row_at_None [of k "k r" rs]
    by (auto simp: sql_upsert_def row_at_append split: option.splits)
qed

lemma unique_key_upsert [sql_key]:
  assumes "\<And>q. k (f q) = k q"
  shows "unique_key k rs \<Longrightarrow> unique_key k (sql_upsert k r f rs)"
proof -
  have "map k (map (\<lambda>q. if k q = k r then f q else q) rs) = map k rs"
    using assms by simp
  then show "unique_key k rs \<Longrightarrow> ?thesis"
    by (auto simp: sql_upsert_def unique_key_def simp del: map_map)
qed

subsection \<open>Tables whose rows are switched off\<close>

text \<open>
  A row of a key is live while its status is the first one. Inserting makes the key live, the
  guarded UPDATE switches it off, and does nothing when it is not live.
\<close>

definition live :: "('r \<Rightarrow> 'k) \<Rightarrow> ('r \<Rightarrow> bool) \<Rightarrow> 'r list \<Rightarrow> 'k \<Rightarrow> bool" where
  "live k alive rs x = (case row_at k x rs of None \<Rightarrow> False | Some r \<Rightarrow> alive r)"

lemma live_Nil [simp]: "live k alive [] x = False"
  by (simp add: live_def)

lemma live_insert:
  assumes "sql_insert k r rs = Some rs'" and "alive r" and "unique_key k rs"
  shows "unique_key k rs' \<and> \<not> live k alive rs (k r) \<and> live k alive rs' = (live k alive rs)(k r := True)"
  using assms by (auto simp: sql_key live_def fun_eq_iff)

lemma live_switch_off:
  assumes "unique_key k rs" and "\<And>r. k (f r) = k r" and "\<And>r. \<not> alive (f r)"
  shows "unique_key k (fst (sql_update (\<lambda>r. k r = x \<and> alive r) f rs)) \<and>
    live k alive (fst (sql_update (\<lambda>r. k r = x \<and> alive r) f rs)) = (live k alive rs)(x := False)"
proof -
  have "live k alive (fst (sql_update (\<lambda>r. k r = x \<and> alive r) f rs)) y =
      ((live k alive rs)(x := False)) y" for y
    using assms(3) by (auto simp: live_def row_at_update [where k = k, OF assms(2)]
        split: option.splits dest: row_at_Some_key)
  with assms show ?thesis by (simp add: unique_key_update fun_eq_iff)
qed

lemma live_switch_affected:
  assumes "unique_key k rs"
  shows "snd (sql_update (\<lambda>r. k r = x \<and> alive r) f rs) = (if live k alive rs x then 1 else 0)"
  using affected_at_key [OF assms, where x = x, of "\<lambda>r. k r = x \<and> alive r" f]
  by (auto simp: live_def dest: row_at_Some_key split: option.splits)

lemma live_switch_idle:
  assumes "unique_key k rs" and "\<not> live k alive rs x"
  shows "sql_update (\<lambda>r. k r = x \<and> alive r) f rs = (rs, 0)"
proof -
  have z: "snd (sql_update (\<lambda>r. k r = x \<and> alive r) f rs) = 0"
    using assms by (simp add: live_switch_affected)
  from update_zero [OF z] z show ?thesis by (metis prod.collapse)
qed

lemma live_row: "live k alive rs x \<longleftrightarrow> (\<exists>r. row_at k x rs = Some r \<and> alive r)"
  by (auto simp: live_def split: option.splits)

subsection \<open>A table as a map\<close>

definition row_view :: "('r \<Rightarrow> 'k) \<Rightarrow> ('r \<Rightarrow> 'v) \<Rightarrow> 'r list \<Rightarrow> 'k \<rightharpoonup> 'v" where
  "row_view k g rs x = map_option g (row_at k x rs)"

lemma row_view_Nil [simp]: "row_view k g [] x = None"
  by (simp add: row_view_def)

lemma row_view_insert:
  assumes "sql_insert k r rs = Some rs'"
  shows "row_view k g rs (k r) = None \<and> row_view k g rs' = (row_view k g rs)(k r \<mapsto> g r) \<and>
    unique_key k rs' = unique_key k rs"
  using assms by (auto simp: sql_key row_view_def fun_eq_iff)

lemma row_view_update:
  assumes "\<And>r. k (f r) = k r" and "\<And>r. p r \<Longrightarrow> k r = x"
    and "\<And>r. k r = x \<Longrightarrow> g (if p r then f r else r) = h (g r)"
  shows "row_view k g (fst (sql_update p f rs)) =
    (row_view k g rs)(x := map_option h (row_view k g rs x))"
proof
  fix y
  have upd: "row_view k g (fst (sql_update p f rs)) y =
      map_option (\<lambda>r. g (if p r then f r else r)) (row_at k y rs)"
    by (simp add: row_view_def row_at_update [where k = k, OF assms(1)] option.map_comp comp_def)
  show "row_view k g (fst (sql_update p f rs)) y =
      ((row_view k g rs)(x := map_option h (row_view k g rs x))) y"
  proof (cases "row_at k y rs")
    case None
    then show ?thesis unfolding upd by (auto simp: row_view_def)
  next
    case (Some r)
    then have key: "k r = y" by (rule row_at_Some_key)
    show ?thesis
    proof (cases "y = x")
      case True
      with Some key assms(3) [of r] show ?thesis unfolding upd by (simp add: row_view_def)
    next
      case False
      with key assms(2) [of r] have "\<not> p r" by blast
      with Some False show ?thesis unfolding upd by (simp add: row_view_def)
    qed
  qed
qed

end
