(* ===== verification/Types.thy ===== *)
theory Types
  imports Prelude
begin

text \<open>
  The vocabulary of packages/shared/src/types.ts: the eight steps with their services, paths and
  idempotency keys, the status unions, and the wire records. The literal unions of the source are
  datatypes whose constructors are the literals; \<open>step_name\<close> gives back the string. Status
  constructors that two unions share carry the union's initial.
\<close>

section \<open>Steps\<close>

datatype forward_step = CREATE_ORDER | RESERVE_INVENTORY | CHARGE_PAYMENT | CREATE_SHIPMENT

datatype compensation_step = CANCEL_ORDER | RELEASE_INVENTORY | REFUND_PAYMENT | CANCEL_SHIPMENT

datatype step = Fwd forward_step | Comp compensation_step

definition FORWARD_STEPS :: "forward_step list" where
  "FORWARD_STEPS = [CREATE_ORDER, RESERVE_INVENTORY, CHARGE_PAYMENT, CREATE_SHIPMENT]"

definition COMPENSATION_STEPS :: "compensation_step list" where
  "COMPENSATION_STEPS = [CANCEL_ORDER, RELEASE_INVENTORY, REFUND_PAYMENT, CANCEL_SHIPMENT]"

datatype step_kind = FORWARD | COMPENSATION

fun COMPENSATION_OF :: "forward_step \<Rightarrow> compensation_step" where
  "COMPENSATION_OF CREATE_ORDER = CANCEL_ORDER"
| "COMPENSATION_OF RESERVE_INVENTORY = RELEASE_INVENTORY"
| "COMPENSATION_OF CHARGE_PAYMENT = REFUND_PAYMENT"
| "COMPENSATION_OF CREATE_SHIPMENT = CANCEL_SHIPMENT"

datatype service_name = order_svc | inventory_svc | payment_svc | shipping_svc

fun STEP_SERVICE :: "step \<Rightarrow> service_name" where
  "STEP_SERVICE (Fwd CREATE_ORDER) = order_svc"
| "STEP_SERVICE (Comp CANCEL_ORDER) = order_svc"
| "STEP_SERVICE (Fwd RESERVE_INVENTORY) = inventory_svc"
| "STEP_SERVICE (Comp RELEASE_INVENTORY) = inventory_svc"
| "STEP_SERVICE (Fwd CHARGE_PAYMENT) = payment_svc"
| "STEP_SERVICE (Comp REFUND_PAYMENT) = payment_svc"
| "STEP_SERVICE (Fwd CREATE_SHIPMENT) = shipping_svc"
| "STEP_SERVICE (Comp CANCEL_SHIPMENT) = shipping_svc"

fun forward_name :: "forward_step \<Rightarrow> string" where
  "forward_name CREATE_ORDER = ''CREATE_ORDER''"
| "forward_name RESERVE_INVENTORY = ''RESERVE_INVENTORY''"
| "forward_name CHARGE_PAYMENT = ''CHARGE_PAYMENT''"
| "forward_name CREATE_SHIPMENT = ''CREATE_SHIPMENT''"

fun compensation_name :: "compensation_step \<Rightarrow> string" where
  "compensation_name CANCEL_ORDER = ''CANCEL_ORDER''"
| "compensation_name RELEASE_INVENTORY = ''RELEASE_INVENTORY''"
| "compensation_name REFUND_PAYMENT = ''REFUND_PAYMENT''"
| "compensation_name CANCEL_SHIPMENT = ''CANCEL_SHIPMENT''"

fun step_name :: "step \<Rightarrow> string" where
  "step_name (Fwd f) = forward_name f"
| "step_name (Comp c) = compensation_name c"

text \<open>\<open>'/' + step.toLowerCase().replace(/_/g, '-')\<close>, on the ASCII letters the names use.\<close>

definition to_lower :: "char \<Rightarrow> char" where
  "to_lower c = (let n = of_char c :: nat in if 65 \<le> n \<and> n \<le> 90 then char_of (n + 32) else c)"

definition stepPath :: "step \<Rightarrow> string" where
  "stepPath s = CHR ''/'' #
     map (\<lambda>c. if c = CHR ''_'' then CHR ''-'' else c) (map to_lower (step_name s))"

definition isForwardStep :: "step \<Rightarrow> bool" where
  "isForwardStep s \<longleftrightarrow> List.member (map forward_name FORWARD_STEPS) (step_name s)"

definition stepKind :: "step \<Rightarrow> step_kind" where
  "stepKind s = (if isForwardStep s then FORWARD else COMPENSATION)"

definition idempotencyKey :: "string \<Rightarrow> step \<Rightarrow> string" where
  "idempotencyKey orderId s = orderId @ '':'' @ step_name s"

section \<open>Statuses and wire records\<close>

datatype order_status =
  PENDING | IN_PROGRESS | PLACED | COMPENSATING | CANCELLED | NEEDS_ATTENTION | SHIPPED

datatype step_status = S_PENDING | S_RUNNING | S_SUCCEEDED | S_FAILED | S_SKIPPED

datatype attempt_outcome = A_SUCCEEDED | A_FAILED | A_TIMEOUT

text \<open>
  StepRequestBody and the coordinator's ClaimedOrder share the six columns of the order; they
  extend one record. \<open>force\<close> is False where the source leaves the property out.
\<close>

record order_data =
  orderId :: string
  sku :: string
  qty :: int
  amount :: string
  failAt :: "string option"
  compFailAt :: "string option"

record StepRequestBody = order_data +
  force :: bool

text \<open>The plain JSON objects the handlers return, as property lists.\<close>

datatype jval = JStr string | JNum int | JBool bool

type_synonym jobject = "(string \<times> jval) list"

record StepResponseBody =
  resp_operation :: step
  resp_orderId :: string
  resp_replayed :: bool
  resp_data :: jobject

record ErrorResponseBody =
  err_error :: string
  err_code :: string

section \<open>The step order of the MySQL ENUM column\<close>

fun forward_index :: "forward_step \<Rightarrow> nat" where
  "forward_index CREATE_ORDER = 1"
| "forward_index RESERVE_INVENTORY = 2"
| "forward_index CHARGE_PAYMENT = 3"
| "forward_index CREATE_SHIPMENT = 4"

fun step_index :: "step \<Rightarrow> nat" where
  "step_index (Fwd f) = forward_index f"
| "step_index (Comp CANCEL_ORDER) = 5"
| "step_index (Comp RELEASE_INVENTORY) = 6"
| "step_index (Comp REFUND_PAYMENT) = 7"
| "step_index (Comp CANCEL_SHIPMENT) = 8"

lemma step_index_inj: "step_index s = step_index t \<Longrightarrow> s = t"
  by (induction s rule: step_index.induct; induction t rule: step_index.induct)
     (auto elim!: forward_index.elims)

instantiation step :: linorder
begin

definition less_eq_step :: "step \<Rightarrow> step \<Rightarrow> bool" where
  "less_eq_step s t \<longleftrightarrow> step_index s \<le> step_index t"

definition less_step :: "step \<Rightarrow> step \<Rightarrow> bool" where
  "less_step s t \<longleftrightarrow> step_index s < step_index t"

instance
  by standard (auto simp: less_eq_step_def less_step_def intro: step_index_inj)

end

section \<open>Lemmas\<close>

lemma forward_step_cases: "f \<in> set FORWARD_STEPS"
  by (cases f) (simp_all add: FORWARD_STEPS_def)

lemma compensation_step_cases: "c \<in> set COMPENSATION_STEPS"
  by (cases c) (simp_all add: COMPENSATION_STEPS_def)

lemma distinct_FORWARD_STEPS: "distinct FORWARD_STEPS"
  by (simp add: FORWARD_STEPS_def)

lemma distinct_COMPENSATION_STEPS: "distinct COMPENSATION_STEPS"
  by (simp add: COMPENSATION_STEPS_def)

lemma COMPENSATION_OF_inj: "COMPENSATION_OF f = COMPENSATION_OF g \<longleftrightarrow> f = g"
  by (cases f; cases g) simp_all

lemma COMPENSATION_OF_surj: "\<exists>f. COMPENSATION_OF f = c"
  by (cases c) (metis COMPENSATION_OF.simps)+

lemma COMPENSATION_STEPS_map: "COMPENSATION_STEPS = map COMPENSATION_OF FORWARD_STEPS"
  by (simp add: COMPENSATION_STEPS_def FORWARD_STEPS_def)

lemma STEP_SERVICE_undo: "STEP_SERVICE (Comp (COMPENSATION_OF f)) = STEP_SERVICE (Fwd f)"
  by (cases f) simp_all

lemma STEP_SERVICE_forward_inj: "STEP_SERVICE (Fwd f) = STEP_SERVICE (Fwd g) \<longleftrightarrow> f = g"
  by (cases f; cases g) simp_all

lemma step_name_inj: "step_name s = step_name t \<longleftrightarrow> s = t"
proof -
  have "forward_name f = forward_name g \<longleftrightarrow> f = g" for f g
    by (cases f; cases g) simp_all
  moreover have "compensation_name c = compensation_name d \<longleftrightarrow> c = d" for c d
    by (cases c; cases d) simp_all
  moreover have "forward_name f \<noteq> compensation_name c" for f c
    by (cases f; cases c) simp_all
  ultimately show ?thesis by (cases s; cases t) (simp_all, metis)
qed

lemma step_name_no_colon: "CHR '':'' \<notin> set (step_name s)"
proof (cases s)
  case (Fwd f)
  then show ?thesis by (cases f) simp_all
next
  case (Comp c)
  then show ?thesis by (cases c) simp_all
qed

lemma isForwardStep_Fwd [simp]: "isForwardStep (Fwd f)"
  by (cases f) (simp_all add: isForwardStep_def FORWARD_STEPS_def)

lemma isForwardStep_Comp [simp]: "\<not> isForwardStep (Comp c)"
  by (cases c) (simp_all add: isForwardStep_def FORWARD_STEPS_def)

lemma stepKind_simps [simp]: "stepKind (Fwd f) = FORWARD" "stepKind (Comp c) = COMPENSATION"
  by (simp_all add: stepKind_def)

text \<open>Splitting at the last separator is unique.\<close>

lemma append_sep_inj:
  assumes "c \<notin> set v" and "c \<notin> set v'"
  shows "u @ c # v = u' @ c # v' \<longleftrightarrow> u = u' \<and> v = v'"
  using assms by (auto simp: append_eq_append_conv2 Cons_eq_append_conv append_eq_Cons_conv)

text \<open>
  The idempotency key of a call determines the order and the step: two different operations
  never share a key, whatever characters the order ids contain (a separator included), so a
  stored response is only ever replayed to the operation that produced it.
\<close>

theorem idempotencyKey_inj:
  "idempotencyKey o1 s1 = idempotencyKey o2 s2 \<longleftrightarrow> o1 = o2 \<and> s1 = s2"
  using append_sep_inj [OF step_name_no_colon step_name_no_colon, of o1 s1 o2 s2]
  by (simp add: idempotencyKey_def step_name_inj)

lemma stepPath_simps [simp]:
  "stepPath (Fwd CREATE_ORDER) = ''/create-order''"
  "stepPath (Fwd RESERVE_INVENTORY) = ''/reserve-inventory''"
  "stepPath (Fwd CHARGE_PAYMENT) = ''/charge-payment''"
  "stepPath (Fwd CREATE_SHIPMENT) = ''/create-shipment''"
  "stepPath (Comp CANCEL_ORDER) = ''/cancel-order''"
  "stepPath (Comp RELEASE_INVENTORY) = ''/release-inventory''"
  "stepPath (Comp REFUND_PAYMENT) = ''/refund-payment''"
  "stepPath (Comp CANCEL_SHIPMENT) = ''/cancel-shipment''"
  by (simp_all add: stepPath_def to_lower_def char_of_def bit_iff_odd)

lemma stepPath_inj: "stepPath s = stepPath t \<longleftrightarrow> s = t"
proof -
  have F: "stepPath (Fwd f) = stepPath (Fwd g) \<longleftrightarrow> f = g" for f g
    by (cases f; cases g) simp_all
  have C: "stepPath (Comp c) = stepPath (Comp d) \<longleftrightarrow> c = d" for c d
    by (cases c; cases d) simp_all
  have FC: "stepPath (Fwd f) \<noteq> stepPath (Comp c)" for f c
    by (cases f; cases c) simp_all
  show ?thesis using F C FC FC [symmetric] by (cases s; cases t) simp_all
qed

end
