(* ===== verification/Errors.thy ===== *)
theory Errors
  imports Types
begin

text \<open>
  packages/shared/src/errors.ts: the values the code throws and the retry classification, with
  the two error classes of service.ts and the database error tests of db.ts. A thrown value is a
  \<open>js_value\<close>: the classes of the source by name, any other Error object by the properties the
  code reads (name, message, errno, code, cause), an object that is no Error, or a primitive with
  its String() form. HttpError's body is left out, since nothing reads it.
\<close>

section \<open>Numbers in messages\<close>

fun show_digits :: "nat \<Rightarrow> string \<Rightarrow> string" where
  "show_digits n acc =
    (let acc' = char_of (48 + n mod 10) # acc in if n < 10 then acc' else show_digits (n div 10) acc')"

declare show_digits.simps [simp del]

definition show_int :: "int \<Rightarrow> string" where
  "show_int i = (if i < 0 then CHR ''-'' # show_digits (nat (- i)) [] else show_digits (nat i) [])"

section \<open>Thrown values\<close>

datatype js_value =
    HttpError int string
  | StepTimeoutError int
  | OperationInProgressError string
  | InjectedFailureError step
  | BusinessRuleError string
  | ErrorObject string string "int option" "string option" "js_value option"
  | PlainObject "int option" "string option"
  | Primitive string

fun is_Error :: "js_value \<Rightarrow> bool" where
  "is_Error (PlainObject _ _) = False"
| "is_Error (Primitive _) = False"
| "is_Error _ = True"

fun error_name :: "js_value \<Rightarrow> string" where
  "error_name (HttpError _ _) = ''HttpError''"
| "error_name (StepTimeoutError _) = ''StepTimeoutError''"
| "error_name (OperationInProgressError _) = ''OperationInProgressError''"
| "error_name (InjectedFailureError _) = ''InjectedFailureError''"
| "error_name (BusinessRuleError _) = ''BusinessRuleError''"
| "error_name (ErrorObject n _ _ _ _) = n"
| "error_name _ = []"

text \<open>\<open>err instanceof Error ? err.message : String(err)\<close>\<close>

fun error_message :: "js_value \<Rightarrow> string" where
  "error_message (HttpError _ m) = m"
| "error_message (StepTimeoutError t) = ''Step timed out after '' @ show_int t @ ''ms''"
| "error_message (OperationInProgressError k) = ''Operation already in progress for key '' @ k"
| "error_message (InjectedFailureError s) = ''Injected failure at '' @ step_name s"
| "error_message (BusinessRuleError m) = m"
| "error_message (ErrorObject _ m _ _ _) = m"
| "error_message (PlainObject _ _) = ''[object Object]''"
| "error_message (Primitive d) = d"

fun error_errno :: "js_value \<Rightarrow> int option" where
  "error_errno (ErrorObject _ _ n _ _) = n"
| "error_errno (PlainObject n _) = n"
| "error_errno _ = None"

text \<open>\<open>errorCode\<close>: the code property of an object, when it is a string.\<close>

fun errorCode :: "js_value \<Rightarrow> string option" where
  "errorCode (ErrorObject _ _ _ c _) = c"
| "errorCode (PlainObject _ c) = c"
| "errorCode _ = None"

fun error_cause :: "js_value \<Rightarrow> js_value option" where
  "error_cause (ErrorObject _ _ _ _ c) = c"
| "error_cause _ = None"

definition RETRYABLE_NETWORK_CODES :: "string list" where
  "RETRYABLE_NETWORK_CODES =
    [''ECONNREFUSED'', ''ECONNRESET'', ''ETIMEDOUT'', ''EPIPE'', ''EAI_AGAIN'', ''UND_ERR_SOCKET'',
     ''UND_ERR_CONNECT_TIMEOUT'']"

definition network_code :: "string option \<Rightarrow> bool" where
  "network_code c = (case c of None \<Rightarrow> False | Some x \<Rightarrow> List.member RETRYABLE_NETWORK_CODES x)"

text \<open>\<open>err instanceof Error && (err.name === 'TimeoutError' || err.name === 'AbortError')\<close>\<close>

definition is_abort :: "js_value \<Rightarrow> bool" where
  "is_abort e \<longleftrightarrow> is_Error e \<and> (error_name e = ''TimeoutError'' \<or> error_name e = ''AbortError'')"

fun isRetryableError :: "js_value \<Rightarrow> bool" where
  "isRetryableError (StepTimeoutError _) = True"
| "isRetryableError (OperationInProgressError _) = True"
| "isRetryableError (HttpError status _) =
    (if status \<ge> 500 then True else if status = 429 then True else status = 409)"
| "isRetryableError e =
    (if is_abort e then True
     else if network_code (errorCode e) then True
     else is_Error e \<and>
       (case error_cause e of None \<Rightarrow> False | Some c \<Rightarrow> network_code (errorCode c)))"

section \<open>Database errors (db.ts)\<close>

definition isDuplicateKeyError :: "js_value \<Rightarrow> bool" where
  "isDuplicateKeyError e \<longleftrightarrow> error_errno e = Some 1062 \<or> errorCode e = Some ''ER_DUP_ENTRY''"

definition isDeadlockError :: "js_value \<Rightarrow> bool" where
  "isDeadlockError e \<longleftrightarrow>
     error_errno e = Some 1213 \<or> error_errno e = Some 1205 \<or>
     errorCode e = Some ''ER_LOCK_DEADLOCK'' \<or> errorCode e = Some ''ER_LOCK_WAIT_TIMEOUT''"

text \<open>What mysql2 throws for a duplicate key.\<close>

definition dup_entry :: js_value where
  "dup_entry = ErrorObject ''Error'' ''Duplicate entry'' (Some 1062) (Some ''ER_DUP_ENTRY'') None"

lemma dup_entry_duplicate [simp]: "isDuplicateKeyError dup_entry"
  by (simp add: isDuplicateKeyError_def dup_entry_def)

lemma dup_entry_not_deadlock [simp]: "\<not> isDeadlockError dup_entry"
  by (simp add: isDeadlockError_def dup_entry_def)

lemma dup_entry_not_retryable [simp]: "\<not> isRetryableError dup_entry"
  by (simp add: dup_entry_def is_abort_def network_code_def RETRYABLE_NETWORK_CODES_def)

lemma retryable_timeout_error:
  "is_abort e \<Longrightarrow> isRetryableError e"
  by (cases e) (auto simp: is_abort_def)

text \<open>
  fetch hides a network error one level down, on the cause of a TypeError: the classification
  looks exactly there, and no deeper.
\<close>

lemma retryable_wrapped:
  "isRetryableError (ErrorObject ''TypeError'' m None None (Some c)) \<longleftrightarrow> network_code (errorCode c)"
  by (simp add: is_abort_def network_code_def)

end
