(* ===== verification/Cache.thy ===== *)
theory Cache
  imports Types
begin

text \<open>
  packages/shared/src/cache.ts: the Redis cache in front of the idempotency lookup, the null cache,
  and the contract both keep. The Redis server is the field \<open>entries\<close>, a map from keys to raw
  values with an expiry time in milliseconds; \<open>io_fails\<close> says whether a command rejects now.
  The server may drop entries at any time (\<open>redis_evict\<close>). A raw value is a JSON text of a
  value, the text null, or a text JSON.parse rejects.
\<close>

datatype 'v raw = Json 'v | Json_null | Malformed

datatype cache_log = Cache_connected | Cache_unavailable

record 'v redis_cache =
  ready :: bool
  loggedFailure :: bool
  io_fails :: bool
  entries :: "string \<Rightarrow> ('v raw \<times> int) option"
  cache_logged :: "cache_log list"

definition createCache :: "bool \<Rightarrow> (string \<Rightarrow> ('v raw \<times> int) option) \<Rightarrow> 'v redis_cache" where
  "createCache fails server =
     \<lparr>ready = False, loggedFailure = False, io_fails = fails, entries = server, cache_logged = []\<rparr>"

definition reconnectStrategy :: "nat \<Rightarrow> nat" where
  "reconnectStrategy retries = min (retries * 200) 5000"

text \<open>The client's event handlers.\<close>

definition redis_on_ready :: "'v redis_cache \<Rightarrow> 'v redis_cache" where
  "redis_on_ready c =
     c\<lparr>ready := True, loggedFailure := False, cache_logged := cache_logged c @ [Cache_connected]\<rparr>"

definition redis_on_error :: "'v redis_cache \<Rightarrow> 'v redis_cache" where
  "redis_on_error c =
     (if loggedFailure c then c\<lparr>ready := False\<rparr>
      else c\<lparr>ready := False, loggedFailure := True, cache_logged := cache_logged c @ [Cache_unavailable]\<rparr>)"

text \<open>The operations; \<open>t\<close> is the server's time.\<close>

definition redis_get :: "int \<Rightarrow> string \<Rightarrow> 'v redis_cache \<Rightarrow> 'v option" where
  "redis_get t key c =
     (if \<not> ready c then None
      else if io_fails c then None
      else (case entries c key of
              None \<Rightarrow> None
            | Some (raw, expires) \<Rightarrow>
                if expires \<le> t then None
                else (case raw of Json v \<Rightarrow> Some v | Json_null \<Rightarrow> None | Malformed \<Rightarrow> None)))"

definition redis_set :: "int \<Rightarrow> string \<Rightarrow> 'v \<Rightarrow> nat \<Rightarrow> 'v redis_cache \<Rightarrow> 'v redis_cache" where
  "redis_set t key v ttlSeconds c =
     (if \<not> ready c then c
      else if io_fails c then c
      else c\<lparr>entries := (entries c)(key \<mapsto> (Json v, t + int ttlSeconds * 1000))\<rparr>)"

definition redis_del :: "string \<Rightarrow> 'v redis_cache \<Rightarrow> 'v redis_cache" where
  "redis_del key c =
     (if \<not> ready c then c else if io_fails c then c else c\<lparr>entries := (entries c)(key := None)\<rparr>)"

definition redis_isReady :: "'v redis_cache \<Rightarrow> bool" where
  "redis_isReady c = ready c"

definition redis_evict :: "string \<Rightarrow> 'v redis_cache \<Rightarrow> 'v redis_cache" where
  "redis_evict key c = c\<lparr>entries := (entries c)(key := None)\<rparr>"

text \<open>\<open>createNullCache\<close>\<close>

definition null_get :: "int \<Rightarrow> string \<Rightarrow> unit \<Rightarrow> 'v option" where
  "null_get t key c = None"

definition null_set :: "int \<Rightarrow> string \<Rightarrow> 'v \<Rightarrow> nat \<Rightarrow> unit \<Rightarrow> unit" where
  "null_set t key v ttlSeconds c = c"

definition idempotencyCacheKey :: "string \<Rightarrow> string" where
  "idempotencyCacheKey key = ''idem:'' @ key"

lemma idempotencyCacheKey_inj [simp]: "idempotencyCacheKey k = idempotencyCacheKey l \<longleftrightarrow> k = l"
  by (simp add: idempotencyCacheKey_def)

section \<open>The contract of a cache\<close>

text \<open>
  What the idempotency code relies on. \<open>holds\<close> is what a cache may answer for a key, now or once
  it is reachable again: a hit is what it holds, and a set changes what it holds for its own key
  only, to the value set or not at all. A cache is sound for a store when everything it holds is
  in the store; soundness survives a set of a stored value, and any growth of the store.
\<close>

locale cache_contract =
  fixes get :: "int \<Rightarrow> string \<Rightarrow> 'c \<Rightarrow> 'v option"
    and set_entry :: "int \<Rightarrow> string \<Rightarrow> 'v \<Rightarrow> nat \<Rightarrow> 'c \<Rightarrow> 'c"
    and holds :: "'c \<Rightarrow> string \<Rightarrow> 'v option"
  assumes get_holds: "get t k c = Some v \<Longrightarrow> holds c k = Some v"
    and holds_set_other: "k \<noteq> l \<Longrightarrow> holds (set_entry t k v ttl c) l = holds c l"
    and holds_set_same: "holds (set_entry t k v ttl c) k = Some v \<or>
      holds (set_entry t k v ttl c) k = holds c k"
begin

definition sound :: "(string \<rightharpoonup> 'v) \<Rightarrow> 'c \<Rightarrow> bool" where
  "sound store c \<longleftrightarrow> (\<forall>k v. holds c (idempotencyCacheKey k) = Some v \<longrightarrow> store k = Some v)"

lemma sound_hit: "sound store c \<Longrightarrow> get t (idempotencyCacheKey k) c = Some v \<Longrightarrow> store k = Some v"
  by (auto simp: sound_def dest: get_holds)

lemma sound_miss: "sound store c \<Longrightarrow> store k = None \<Longrightarrow> get t (idempotencyCacheKey k) c = None"
  by (cases "get t (idempotencyCacheKey k) c") (auto dest: sound_hit)

lemma sound_set:
  assumes "sound store c" and "store k = Some v"
  shows "sound store (set_entry t (idempotencyCacheKey k) v ttl c)"
  unfolding sound_def
proof (intro allI impI)
  fix l w
  assume hit: "holds (set_entry t (idempotencyCacheKey k) v ttl c) (idempotencyCacheKey l) = Some w"
  show "store l = Some w"
  proof (cases "l = k")
    case True
    with hit holds_set_same [of t "idempotencyCacheKey k" v ttl c] have
      "w = v \<or> holds c (idempotencyCacheKey k) = Some w" by auto
    with assms True show ?thesis by (auto simp: sound_def)
  next
    case False
    with hit have "holds c (idempotencyCacheKey l) = Some w" by (simp add: holds_set_other)
    with assms(1) show ?thesis by (simp add: sound_def)
  qed
qed

lemma sound_grow: "sound store c \<Longrightarrow> store \<subseteq>\<^sub>m store' \<Longrightarrow> sound store' c"
  by (auto simp: sound_def map_le_def) (metis domI)

end

definition redis_holds :: "'v redis_cache \<Rightarrow> string \<Rightarrow> 'v option" where
  "redis_holds c key = (case entries c key of Some (Json v, _) \<Rightarrow> Some v | _ \<Rightarrow> None)"

definition null_holds :: "unit \<Rightarrow> string \<Rightarrow> 'v option" where
  "null_holds c key = None"

interpretation redis: cache_contract redis_get redis_set redis_holds
  by unfold_locales
     (auto simp: redis_get_def redis_set_def redis_holds_def split: option.splits raw.splits if_splits)

interpretation null_cache: cache_contract null_get null_set null_holds
  by unfold_locales (auto simp: null_get_def null_set_def null_holds_def)

section \<open>Degradation and logging\<close>

lemma redis_down_get: "\<not> ready c \<or> io_fails c \<Longrightarrow> redis_get t k c = None"
  by (auto simp: redis_get_def)

lemma redis_down_set: "\<not> ready c \<or> io_fails c \<Longrightarrow> redis_set t k v ttl c = c"
  by (auto simp: redis_set_def)

lemma redis_evict_sound: "redis.sound store c \<Longrightarrow> redis.sound store (redis_evict k c)"
  by (auto simp: redis.sound_def redis_holds_def redis_evict_def split: if_splits)

text \<open>The events the client emits, folded over the cache.\<close>

datatype cache_event = Ev_ready | Ev_error

fun redis_event :: "cache_event \<Rightarrow> 'v redis_cache \<Rightarrow> 'v redis_cache" where
  "redis_event Ev_ready = redis_on_ready"
| "redis_event Ev_error = redis_on_error"

text \<open>
  Between two connections the log holds one warning at most: no two warnings stand next to each
  other, however many reconnect attempts fail.
\<close>

definition one_warning :: "'v redis_cache \<Rightarrow> bool" where
  "one_warning c \<longleftrightarrow>
     (\<forall>i. Suc i < length (cache_logged c) \<longrightarrow>
        \<not> (cache_logged c ! i = Cache_unavailable \<and> cache_logged c ! Suc i = Cache_unavailable)) \<and>
     (cache_logged c \<noteq> [] \<longrightarrow> loggedFailure c = (last (cache_logged c) = Cache_unavailable)) \<and>
     (cache_logged c = [] \<longrightarrow> \<not> loggedFailure c)"

lemma one_warning_event: "one_warning c \<Longrightarrow> one_warning (redis_event e c)"
  by (cases e) (auto simp: one_warning_def redis_on_ready_def redis_on_error_def nth_append last_conv_nth
      less_Suc_eq, (metis One_nat_def diff_Suc_1)+)

text \<open>
  However the connection to Redis flaps, the service logs the first failure of an outage and
  no further one until the cache was ready again: two warnings never follow each other.
\<close>

theorem cache_logs_first_failure_only:
  "let l = cache_logged (fold redis_event evs (createCache fails server)) in
   \<forall>i. Suc i < length l \<longrightarrow> \<not> (l ! i = Cache_unavailable \<and> l ! Suc i = Cache_unavailable)"
proof -
  have "one_warning c \<Longrightarrow> one_warning (fold redis_event evs c)" for c
    by (induction evs arbitrary: c) (auto intro: one_warning_event)
  moreover have "one_warning (createCache fails server)"
    by (simp add: one_warning_def createCache_def)
  ultimately show ?thesis by (auto simp: one_warning_def Let_def)
qed

theorem cache_logs_first_failure_only_witness:
  "let l = cache_logged (fold redis_event [Ev_error, Ev_error, Ev_ready, Ev_error] (createCache False Map.empty :: nat redis_cache)) in
     length l = 3 \<and> \<not> (l ! 0 = Cache_unavailable \<and> l ! 1 = Cache_unavailable)"
proof -
  let ?l = "cache_logged (fold redis_event [Ev_error, Ev_error, Ev_ready, Ev_error] (createCache False Map.empty :: nat redis_cache))"
  have "length ?l = 3"
    by (simp add: redis_on_error_def redis_on_ready_def createCache_def)
  moreover from this have "\<not> (?l ! 0 = Cache_unavailable \<and> ?l ! Suc 0 = Cache_unavailable)"
    using cache_logs_first_failure_only [of "[Ev_error, Ev_error, Ev_ready, Ev_error]" False "Map.empty :: string \<Rightarrow> (nat raw \<times> int) option",
        unfolded Let_def, rule_format, of 0] by (simp del: fold_simps)
  ultimately show ?thesis by (simp add: Let_def del: fold_simps)
qed

end
