(* ===== verification/Idempotency.thy ===== *)
theory Idempotency
  imports Errors Cache
begin

text \<open>
  runIdempotent of packages/shared/src/idempotency.ts, over one service's database and cache. The
  table idempotency_records is a list of rows; its status and response_json columns are one field,
  since the single statement that completes a record sets both. The work is an action on the
  service's own tables (type 'd). What the database does to a statement (a throw) and to COMMIT is
  an argument. A response survives JSON.stringify and JSON.parse unchanged.
\<close>

section \<open>State\<close>

datatype 'r rec_status = REC_IN_PROGRESS | REC_COMPLETED 'r

record 'r idem_record =
  idempotency_key :: string
  rec_operation :: string
  rec_order_id :: string
  rec_status :: "'r rec_status"
  created_at :: int
  completed_at :: "int option"

record ('d, 'r, 'c) service =
  domain :: 'd
  records :: "'r idem_record list"
  svc_cache :: 'c
  svc_now :: int

record idem_context =
  ctx_key :: string
  ctx_operation :: string
  ctx_orderId :: string

record ('c, 'r) cache_ops =
  cache_get :: "int \<Rightarrow> string \<Rightarrow> 'c \<Rightarrow> 'r option"
  cache_set :: "int \<Rightarrow> string \<Rightarrow> 'r \<Rightarrow> nat \<Rightarrow> 'c \<Rightarrow> 'c"

datatype idem_stmt =
  Q_getConnection | Q_insert | Q_select | Q_takeover | Q_begin | Q_complete | Q_delete

datatype commit_fate = Commit_ok | Commit_failed js_value | Commit_ack_lost js_value

record idem_env =
  stmt_fault :: "idem_stmt \<Rightarrow> js_value option"
  commit_fate :: commit_fate

record idem_options =
  staleMs :: nat
  cacheTtlSeconds :: nat

definition DEFAULT_STALE_MS :: nat where
  "DEFAULT_STALE_MS = 60000"

definition DEFAULT_CACHE_TTL_SECONDS :: nat where
  "DEFAULT_CACHE_TTL_SECONDS = 3600"

definition default_idem_options :: idem_options where
  "default_idem_options = \<lparr>staleMs = DEFAULT_STALE_MS, cacheTtlSeconds = DEFAULT_CACHE_TTL_SECONDS\<rparr>"

text \<open>\<open>Math.max(1, Math.ceil(staleMs / 1000))\<close>\<close>

definition staleSeconds :: "idem_options \<Rightarrow> nat" where
  "staleSeconds opts = max 1 ((staleMs opts + 999) div 1000)"

section \<open>Statements\<close>

definition insert_claim :: "int \<Rightarrow> idem_context \<Rightarrow> 'r idem_record list \<Rightarrow> 'r idem_record list option" where
  "insert_claim t ctx = sql_insert idempotency_key
     \<lparr>idempotency_key = ctx_key ctx, rec_operation = ctx_operation ctx, rec_order_id = ctx_orderId ctx,
      rec_status = REC_IN_PROGRESS, created_at = t, completed_at = None\<rparr>"

definition takeover_claim ::
  "int \<Rightarrow> nat \<Rightarrow> string \<Rightarrow> 'r idem_record list \<Rightarrow> 'r idem_record list \<times> nat" where
  "takeover_claim t stale key = sql_update
     (\<lambda>r. idempotency_key r = key \<and> rec_status r = REC_IN_PROGRESS \<and> created_at r < t - int stale * 1000)
     (\<lambda>r. r\<lparr>created_at := t\<rparr>)"

definition complete_record ::
  "int \<Rightarrow> string \<Rightarrow> 'r \<Rightarrow> 'r idem_record list \<Rightarrow> 'r idem_record list \<times> nat" where
  "complete_record t key result = sql_update
     (\<lambda>r. idempotency_key r = key)
     (\<lambda>r. r\<lparr>rec_status := REC_COMPLETED result, completed_at := Some t\<rparr>)"

definition release_claim :: "string \<Rightarrow> 'r idem_record list \<Rightarrow> 'r idem_record list \<times> nat" where
  "release_claim key = sql_delete (\<lambda>r. idempotency_key r = key \<and> rec_status r = REC_IN_PROGRESS)"

section \<open>The function\<close>

datatype 'r claim = Claim_mine | Claim_replay 'r | Claim_error js_value

text \<open>The catch of the INSERT: replay, take over, or report the twin.\<close>

definition claim_duplicate ::
  "idem_env \<Rightarrow> ('c, 'r) cache_ops \<Rightarrow> idem_context \<Rightarrow> idem_options \<Rightarrow> ('d, 'r, 'c) service \<Rightarrow>
     'r claim \<times> ('d, 'r, 'c) service" where
  "claim_duplicate env C ctx opts s =
    (case stmt_fault env Q_select of
       Some e \<Rightarrow> (Claim_error e, s)
     | None \<Rightarrow>
        (case map_option rec_status (row_at idempotency_key (ctx_key ctx) (records s)) of
           Some (REC_COMPLETED result) \<Rightarrow>
             (Claim_replay result,
              s\<lparr>svc_cache := cache_set C (svc_now s) (idempotencyCacheKey (ctx_key ctx)) result
                  (cacheTtlSeconds opts) (svc_cache s)\<rparr>)
         | _ \<Rightarrow>
             (case stmt_fault env Q_takeover of
                Some e \<Rightarrow> (Claim_error e, s)
              | None \<Rightarrow>
                  (case takeover_claim (svc_now s) (staleSeconds opts) (ctx_key ctx) (records s) of
                     (rs, affected) \<Rightarrow>
                       if affected = 0 then (Claim_error (OperationInProgressError (ctx_key ctx)), s\<lparr>records := rs\<rparr>)
                       else (Claim_mine, s\<lparr>records := rs\<rparr>)))))"

text \<open>Phase 1.\<close>

definition claim_phase ::
  "idem_env \<Rightarrow> ('c, 'r) cache_ops \<Rightarrow> idem_context \<Rightarrow> idem_options \<Rightarrow> ('d, 'r, 'c) service \<Rightarrow>
     'r claim \<times> ('d, 'r, 'c) service" where
  "claim_phase env C ctx opts s =
    (case (case stmt_fault env Q_insert of
             Some e \<Rightarrow> Inl e
           | None \<Rightarrow> (case insert_claim (svc_now s) ctx (records s) of None \<Rightarrow> Inl dup_entry | Some rs \<Rightarrow> Inr rs)) of
       Inr rs \<Rightarrow> (Claim_mine, s\<lparr>records := rs\<rparr>)
     | Inl err \<Rightarrow>
         if \<not> isDuplicateKeyError err then (Claim_error err, s)
         else claim_duplicate env C ctx opts s)"

text \<open>The catch of phase 2: roll back (the caller passes the rolled-back state), release, rethrow.\<close>

definition abandon ::
  "idem_env \<Rightarrow> idem_context \<Rightarrow> js_value \<Rightarrow> ('d, 'r, 'c) service \<Rightarrow> (js_value + 'a) \<times> ('d, 'r, 'c) service" where
  "abandon env ctx err s =
    (Inl err,
     case stmt_fault env Q_delete of
       Some _ \<Rightarrow> s
     | None \<Rightarrow> s\<lparr>records := fst (release_claim (ctx_key ctx) (records s))\<rparr>)"

text \<open>Phase 2: the work and its record in one transaction, then the cache.\<close>

definition work_phase ::
  "idem_env \<Rightarrow> ('c, 'r) cache_ops \<Rightarrow> idem_context \<Rightarrow> (int \<Rightarrow> ('d, js_value, 'r) act) \<Rightarrow> idem_options \<Rightarrow>
     (('d, 'r, 'c) service, js_value, 'r \<times> bool) act" where
  "work_phase env C ctx work opts s =
    (case stmt_fault env Q_begin of
       Some e \<Rightarrow> abandon env ctx e s
     | None \<Rightarrow>
        (case work (svc_now s) (domain s) of
           (Inl e, _) \<Rightarrow> abandon env ctx e s
         | (Inr result, d) \<Rightarrow>
            (case stmt_fault env Q_complete of
               Some e \<Rightarrow> abandon env ctx e s
             | None \<Rightarrow>
                (let s' = s\<lparr>domain := d,
                            records := fst (complete_record (svc_now s) (ctx_key ctx) result (records s))\<rparr>
                 in case commit_fate env of
                      Commit_failed e \<Rightarrow> abandon env ctx e s
                    | Commit_ack_lost e \<Rightarrow> abandon env ctx e s'
                    | Commit_ok \<Rightarrow>
                        (Inr (result, False),
                         s'\<lparr>svc_cache := cache_set C (svc_now s') (idempotencyCacheKey (ctx_key ctx)) result
                              (cacheTtlSeconds opts) (svc_cache s')\<rparr>)))))"

definition runIdempotent ::
  "idem_env \<Rightarrow> ('c, 'r) cache_ops \<Rightarrow> idem_context \<Rightarrow> (int \<Rightarrow> ('d, js_value, 'r) act) \<Rightarrow> idem_options \<Rightarrow>
     (('d, 'r, 'c) service, js_value, 'r \<times> bool) act" where
  "runIdempotent env C ctx work opts s =
    (case cache_get C (svc_now s) (idempotencyCacheKey (ctx_key ctx)) (svc_cache s) of
       Some hit \<Rightarrow> (Inr (hit, True), s)
     | None \<Rightarrow>
        (case stmt_fault env Q_getConnection of
           Some e \<Rightarrow> (Inl e, s)
         | None \<Rightarrow>
            (case claim_phase env C ctx opts s of
               (Claim_error e, s1) \<Rightarrow> (Inl e, s1)
             | (Claim_replay result, s1) \<Rightarrow> (Inr (result, True), s1)
             | (Claim_mine, s1) \<Rightarrow> work_phase env C ctx work opts s1)))"

section \<open>The records as a map\<close>

definition completed :: "'r idem_record list \<Rightarrow> string \<rightharpoonup> 'r" where
  "completed rs k = (case row_at idempotency_key k rs of
     Some r \<Rightarrow> (case rec_status r of REC_COMPLETED v \<Rightarrow> Some v | REC_IN_PROGRESS \<Rightarrow> None)
   | None \<Rightarrow> None)"

definition in_progress :: "'r idem_record list \<Rightarrow> string \<Rightarrow> bool" where
  "in_progress rs k \<longleftrightarrow> map_option rec_status (row_at idempotency_key k rs) = Some REC_IN_PROGRESS"

definition absent :: "'r idem_record list \<Rightarrow> string \<Rightarrow> bool" where
  "absent rs k \<longleftrightarrow> row_at idempotency_key k rs = None"

lemma record_trichotomy: "absent rs k \<or> in_progress rs k \<or> (\<exists>v. completed rs k = Some v)"
  by (auto simp: absent_def in_progress_def completed_def split: option.splits rec_status.splits)

lemma completed_not_in_progress: "completed rs k = Some v \<Longrightarrow> \<not> in_progress rs k \<and> \<not> absent rs k"
  by (auto simp: absent_def in_progress_def completed_def split: option.splits)

lemma in_progress_not_completed: "in_progress rs k \<Longrightarrow> completed rs k = None \<and> \<not> absent rs k"
  by (auto simp: absent_def in_progress_def completed_def)

lemma absent_not_completed: "absent rs k \<Longrightarrow> completed rs k = None \<and> \<not> in_progress rs k"
  by (auto simp: absent_def in_progress_def completed_def)

lemma insert_claim_None: "insert_claim t ctx rs = None \<longleftrightarrow> \<not> absent rs (ctx_key ctx)"
  by (simp add: insert_claim_def sql_insert_None absent_def)

lemma insert_claim_Some:
  assumes "insert_claim t ctx rs = Some rs'"
  shows "absent rs (ctx_key ctx) \<and> in_progress rs' (ctx_key ctx) \<and> completed rs' = completed rs \<and>
    (unique_key idempotency_key rs \<longrightarrow> unique_key idempotency_key rs')"
  using assms row_at_snoc [of idempotency_key "\<lparr>idempotency_key = ctx_key ctx,
      rec_operation = ctx_operation ctx, rec_order_id = ctx_orderId ctx, rec_status = REC_IN_PROGRESS,
      created_at = t, completed_at = None\<rparr>" rs]
  by (auto simp: insert_claim_def sql_insert_Some absent_def in_progress_def completed_def fun_eq_iff
      unique_key_snoc)

lemma completed_takeover [sql_simps]: "completed (fst (takeover_claim t n key rs)) = completed rs"
  by (auto simp: completed_def takeover_claim_def sql_key fun_eq_iff split: option.splits)

lemma unique_takeover [sql_simps]:
  "unique_key idempotency_key (fst (takeover_claim t n key rs)) = unique_key idempotency_key rs"
  by (simp add: takeover_claim_def sql_key)

lemma in_progress_takeover [sql_simps]: "in_progress (fst (takeover_claim t n key rs)) k = in_progress rs k"
  by (cases "row_at idempotency_key k rs") (auto simp: in_progress_def takeover_claim_def sql_key)

lemma completed_complete [sql_simps]:
  "completed (fst (complete_record t key v rs)) =
    (if absent rs key then completed rs else (completed rs)(key \<mapsto> v))"
proof
  fix k
  show "completed (fst (complete_record t key v rs)) k =
    (if absent rs key then completed rs else (completed rs)(key \<mapsto> v)) k"
    by (cases "row_at idempotency_key k rs")
       (auto simp: completed_def complete_record_def sql_key absent_def dest: row_at_Some_key)
qed

lemma unique_complete [sql_simps]:
  "unique_key idempotency_key (fst (complete_record t key v rs)) = unique_key idempotency_key rs"
  by (simp add: complete_record_def sql_key)

lemma completed_release [sql_simps]:
  "unique_key idempotency_key rs \<Longrightarrow> completed (fst (release_claim key rs)) = completed rs"
  by (auto simp: completed_def release_claim_def sql_key fun_eq_iff split: option.splits rec_status.splits)

lemma unique_release [sql_simps]:
  "unique_key idempotency_key rs \<Longrightarrow> unique_key idempotency_key (fst (release_claim key rs))"
  by (simp add: release_claim_def sql_key)

lemma absent_release [sql_simps]:
  "unique_key idempotency_key rs \<Longrightarrow> in_progress rs key \<Longrightarrow> absent (fst (release_claim key rs)) key"
  by (auto simp: release_claim_def sql_key absent_def in_progress_def dest: row_at_Some_key)

lemma takeover_affected:
  assumes "unique_key idempotency_key rs" and "snd (takeover_claim t n key rs) \<noteq> 0"
  shows "in_progress rs key"
  using assms affected_at_key [OF assms(1), where x = key, of "\<lambda>r. idempotency_key r = key \<and>
      rec_status r = REC_IN_PROGRESS \<and> created_at r < t - int n * 1000" "\<lambda>r. r\<lparr>created_at := t\<rparr>"]
  by (auto simp: takeover_claim_def in_progress_def split: option.splits if_splits)

section \<open>Any cache that keeps the contract\<close>

context cache_contract
begin

abbreviation ops :: "('c, 'v) cache_ops" where
  "ops \<equiv> \<lparr>cache_get = get, cache_set = set_entry\<rparr>"

definition svc_ok :: "('d, 'v, 'c) service \<Rightarrow> bool" where
  "svc_ok s \<longleftrightarrow>
     unique_key idempotency_key (records s) \<and> sound (completed (records s)) (svc_cache s)"

text \<open>A claim that is ours finds the record in progress and nothing completed under the key.\<close>

lemma claim_phase_spec:
  assumes "svc_ok s" and "claim_phase env ops ctx opts s = (c, s1)"
  shows "svc_ok s1 \<and> domain s1 = domain s \<and> svc_now s1 = svc_now s \<and>
    completed (records s1) = completed (records s) \<and>
    (c = Claim_mine \<longrightarrow> in_progress (records s1) (ctx_key ctx)) \<and>
    (\<forall>v. c = Claim_replay v \<longrightarrow> completed (records s) (ctx_key ctx) = Some v)"
proof -
  have dup: ?thesis if d: "claim_duplicate env ops ctx opts s = (c, s1)"
  proof (cases "stmt_fault env Q_select")
    case (Some e)
    with d assms(1) show ?thesis by (auto simp: claim_duplicate_def)
  next
    case None
    show ?thesis
    proof (cases "completed (records s) (ctx_key ctx)")
      case (Some v)
      then have "map_option rec_status (row_at idempotency_key (ctx_key ctx) (records s)) =
          Some (REC_COMPLETED v)"
        by (auto simp: completed_def split: option.splits rec_status.splits)
      with d None Some assms(1) show ?thesis
        by (auto simp: claim_duplicate_def svc_ok_def intro!: sound_set)
    next
      case open_: None
      obtain rs n where t: "takeover_claim (svc_now s) (staleSeconds opts) (ctx_key ctx) (records s) = (rs, n)"
        by fastforce
      have rs: "rs = fst (takeover_claim (svc_now s) (staleSeconds opts) (ctx_key ctx) (records s))"
        using t by simp
      have n: "n = snd (takeover_claim (svc_now s) (staleSeconds opts) (ctx_key ctx) (records s))"
        using t by simp
      have keep: "svc_ok (s\<lparr>records := rs\<rparr>)" "completed rs = completed (records s)"
        using assms(1) by (simp_all add: svc_ok_def rs sql_simps)
      have mine: "in_progress rs (ctx_key ctx)" if "n \<noteq> 0"
        using takeover_affected [of "records s" "svc_now s" "staleSeconds opts" "ctx_key ctx"] that n assms(1)
        by (simp add: rs sql_simps svc_ok_def)
      have sel: "map_option rec_status (row_at idempotency_key (ctx_key ctx) (records s)) = None \<or>
          map_option rec_status (row_at idempotency_key (ctx_key ctx) (records s)) = Some REC_IN_PROGRESS"
        using open_ by (auto simp: completed_def split: option.splits rec_status.splits)
      show ?thesis
        using d None sel t keep mine assms(1)
        by (auto simp: claim_duplicate_def split: option.splits if_splits)
    qed
  qed
  show ?thesis
  proof (cases "stmt_fault env Q_insert")
    case (Some e)
    with assms dup show ?thesis by (auto simp: claim_phase_def split: if_splits)
  next
    case None
    show ?thesis
    proof (cases "insert_claim (svc_now s) ctx (records s)")
      case None': None
      with None assms dup show ?thesis by (auto simp: claim_phase_def)
    next
      case (Some rs)
      with None assms insert_claim_Some [OF Some] show ?thesis
        by (auto simp: claim_phase_def svc_ok_def)
    qed
  qed
qed

lemma abandon_spec:
  assumes "svc_ok s" and "abandon env ctx e s = (r, s')"
  shows "r = Inl e \<and> svc_ok s' \<and> domain s' = domain s \<and> completed (records s') = completed (records s)"
  using assms by (auto simp: abandon_def svc_ok_def sql_simps split: option.splits)

lemma svc_ok_complete:
  fixes t :: int and v :: 'v
  assumes "svc_ok s" and "in_progress (records s) (ctx_key ctx)"
  defines "rs \<equiv> fst (complete_record t (ctx_key ctx) v (records s))"
  shows "svc_ok (s\<lparr>domain := d, records := rs\<rparr>) \<and>
    completed rs = (completed (records s))(ctx_key ctx \<mapsto> v)"
proof -
  have c: "completed rs = (completed (records s))(ctx_key ctx \<mapsto> v)"
    using assms(2) by (auto simp: rs_def sql_simps dest: in_progress_not_completed)
  have "completed (records s) \<subseteq>\<^sub>m completed rs"
    using in_progress_not_completed [OF assms(2)] by (simp add: c map_le_def) (auto simp: domIff)
  then show ?thesis
    using assms(1) c by (auto simp: svc_ok_def rs_def sql_simps intro: sound_grow)
qed

lemma work_phase_spec:
  assumes ok: "svc_ok s" and ip: "in_progress (records s) (ctx_key ctx)"
    and run: "work_phase env ops ctx work opts s = (r, s')"
  shows "svc_ok s' \<and>
    (case r of
       Inr (v, replayed) \<Rightarrow> \<not> replayed \<and> work (svc_now s) (domain s) = (Inr v, domain s') \<and>
         completed (records s') = (completed (records s))(ctx_key ctx \<mapsto> v)
     | Inl e \<Rightarrow>
         domain s' = domain s \<and> completed (records s') = completed (records s) \<or>
         (\<exists>v. commit_fate env = Commit_ack_lost e \<and> work (svc_now s) (domain s) = (Inr v, domain s') \<and>
            completed (records s') = (completed (records s))(ctx_key ctx \<mapsto> v)))"
proof -
  have quit: ?thesis if "abandon env ctx e s = (r, s')" for e
    using abandon_spec [OF ok that] by auto
  show ?thesis
  proof (cases "stmt_fault env Q_begin")
    case (Some e)
    with run quit show ?thesis by (simp add: work_phase_def)
  next
    case None
    note begin_ok = this
    obtain w d where w: "work (svc_now s) (domain s) = (w, d)" by fastforce
    show ?thesis
    proof (cases w)
      case (Inl e)
      with run quit w begin_ok show ?thesis by (simp add: work_phase_def)
    next
      case (Inr v)
      show ?thesis
      proof (cases "stmt_fault env Q_complete")
        case (Some e)
        with run quit w begin_ok Inr show ?thesis by (simp add: work_phase_def)
      next
        case None
        let ?rs = "fst (complete_record (svc_now s) (ctx_key ctx) v (records s))"
        let ?s' = "s\<lparr>domain := d, records := ?rs\<rparr>"
        note fin = svc_ok_complete [OF ok ip, where d = d and t = "svc_now s" and v = v]
        show ?thesis
        proof (cases "commit_fate env")
          case (Commit_failed e)
          with run quit w begin_ok Inr None show ?thesis by (simp add: work_phase_def Let_def)
        next
          case (Commit_ack_lost e)
          then have "abandon env ctx e ?s' = (r, s')"
            using run w begin_ok Inr None by (simp add: work_phase_def Let_def)
          from abandon_spec [OF _ this] fin Commit_ack_lost w Inr show ?thesis by auto
        next
          case Commit_ok
          then have r: "r = Inr (v, False)" and s': "s' = ?s'\<lparr>svc_cache := set_entry (svc_now s)
              (idempotencyCacheKey (ctx_key ctx)) v (cacheTtlSeconds opts) (svc_cache s)\<rparr>"
            using run w begin_ok Inr None by (simp_all add: work_phase_def Let_def)
          from fin have "sound (completed ?rs) (set_entry (svc_now s)
              (idempotencyCacheKey (ctx_key ctx)) v (cacheTtlSeconds opts) (svc_cache s))"
            by (intro sound_set) (auto simp: svc_ok_def)
          with fin r s' w Inr show ?thesis by (auto simp: svc_ok_def)
        qed
      qed
    qed
  qed
qed

text \<open>
  The whole function against its specification: a completed key replays and touches nothing, an
  open key runs the work once or leaves the tables alone.
\<close>

lemma runIdempotent_spec:
  assumes ok: "svc_ok s" and run: "runIdempotent env ops ctx work opts s = (r, s')"
  shows "svc_ok s' \<and>
    (case completed (records s) (ctx_key ctx) of
       Some v \<Rightarrow> domain s' = domain s \<and> completed (records s') = completed (records s) \<and>
         (r = Inr (v, True) \<or> (\<exists>e. r = Inl e))
     | None \<Rightarrow>
        (case r of
           Inr (v, replayed) \<Rightarrow> \<not> replayed \<and> work (svc_now s) (domain s) = (Inr v, domain s') \<and>
             completed (records s') = (completed (records s))(ctx_key ctx \<mapsto> v)
         | Inl e \<Rightarrow>
             domain s' = domain s \<and> completed (records s') = completed (records s) \<or>
             (\<exists>v. commit_fate env = Commit_ack_lost e \<and> work (svc_now s) (domain s) = (Inr v, domain s') \<and>
                completed (records s') = (completed (records s))(ctx_key ctx \<mapsto> v))))"
proof (cases "get (svc_now s) (idempotencyCacheKey (ctx_key ctx)) (svc_cache s)")
  case (Some hit)
  with ok have "completed (records s) (ctx_key ctx) = Some hit"
    by (auto simp: svc_ok_def dest: sound_hit)
  with Some run ok show ?thesis by (auto simp: runIdempotent_def)
next
  case None
  show ?thesis
  proof (cases "stmt_fault env Q_getConnection")
    case (Some e)
    with None run ok show ?thesis by (auto simp: runIdempotent_def split: option.splits)
  next
    case conn: None
    obtain c s1 where cl: "claim_phase env ops ctx opts s = (c, s1)" by fastforce
    note P = claim_phase_spec [OF ok cl]
    show ?thesis
    proof (cases c)
      case Claim_mine
      then have w: "work_phase env ops ctx work opts s1 = (r, s')"
        using None conn cl run by (simp add: runIdempotent_def)
      have "completed (records s) (ctx_key ctx) = None"
        using P Claim_mine by (auto dest: in_progress_not_completed)
      with work_phase_spec [OF _ _ w] P Claim_mine show ?thesis by (auto split: sum.splits)
    next
      case (Claim_replay v)
      with None conn cl run P show ?thesis by (auto simp: runIdempotent_def)
    next
      case (Claim_error e)
      with None conn cl run P show ?thesis by (auto simp: runIdempotent_def split: option.splits)
    qed
  qed
qed

text \<open>Without faults the function goes through: it replays, reports a twin, or runs the work.\<close>

lemma runIdempotent_replays:
  assumes "svc_ok s" and "completed (records s) (ctx_key ctx) = Some v"
    and "\<And>q. stmt_fault env q = None"
  shows "fst (runIdempotent env ops ctx work opts s) = Inr (v, True)"
proof -
  have row: "map_option rec_status (row_at idempotency_key (ctx_key ctx) (records s)) = Some (REC_COMPLETED v)"
    using assms(2) by (auto simp: completed_def split: option.splits rec_status.splits)
  have "insert_claim (svc_now s) ctx (records s) = None"
    using assms(2) by (auto simp: insert_claim_None dest: completed_not_in_progress)
  moreover have "get (svc_now s) (idempotencyCacheKey (ctx_key ctx)) (svc_cache s) = Some w \<Longrightarrow> w = v" for w
    using assms(1,2) by (auto simp: svc_ok_def dest: sound_hit)
  ultimately show ?thesis
    using row assms(3)
    by (cases "get (svc_now s) (idempotencyCacheKey (ctx_key ctx)) (svc_cache s)")
       (auto simp: runIdempotent_def claim_phase_def claim_duplicate_def)
qed

lemma runIdempotent_executes:
  assumes "svc_ok s" and "absent (records s) (ctx_key ctx)"
    and "\<And>q. stmt_fault env q = None" and "commit_fate env = Commit_ok"
    and "work (svc_now s) (domain s) = (Inr v, d)"
  shows "\<exists>s'. runIdempotent env ops ctx work opts s = (Inr (v, False), s') \<and> domain s' = d \<and>
    completed (records s') (ctx_key ctx) = Some v \<and> svc_ok s'"
proof -
  obtain rs where ins: "insert_claim (svc_now s) ctx (records s) = Some rs"
    using assms(2) insert_claim_None by (metis not_None_eq)
  have miss: "get (svc_now s) (idempotencyCacheKey (ctx_key ctx)) (svc_cache s) = None"
    using assms(1,2) absent_not_completed by (auto simp: svc_ok_def intro!: sound_miss)
  have "\<exists>s'. runIdempotent env ops ctx work opts s = (Inr (v, False), s')"
    using miss ins assms(3,4,5)
    by (simp add: runIdempotent_def claim_phase_def work_phase_def Let_def)
  then obtain s' where run: "runIdempotent env ops ctx work opts s = (Inr (v, False), s')" by blast
  from runIdempotent_spec [OF assms(1) run] absent_not_completed [OF assms(2)] assms(5) run
  show ?thesis by auto
qed

lemma runIdempotent_work_fails:
  assumes "svc_ok s" and "absent (records s) (ctx_key ctx)"
    and "\<And>q. stmt_fault env q = None" and "work (svc_now s) (domain s) = (Inl e, d)"
  shows "\<exists>s'. runIdempotent env ops ctx work opts s = (Inl e, s') \<and> domain s' = domain s \<and>
    absent (records s') (ctx_key ctx) \<and> svc_ok s'"
proof -
  obtain rs where ins: "insert_claim (svc_now s) ctx (records s) = Some rs"
    using assms(2) insert_claim_None by (metis not_None_eq)
  have miss: "get (svc_now s) (idempotencyCacheKey (ctx_key ctx)) (svc_cache s) = None"
    using assms(1,2) absent_not_completed by (auto simp: svc_ok_def intro!: sound_miss)
  have run: "runIdempotent env ops ctx work opts s =
      (Inl e, s\<lparr>records := fst (release_claim (ctx_key ctx) rs)\<rparr>)"
    using miss ins assms(3,4)
    by (simp add: runIdempotent_def claim_phase_def work_phase_def abandon_def)
  have "absent (fst (release_claim (ctx_key ctx) rs)) (ctx_key ctx)"
    using insert_claim_Some [OF ins] assms(1) by (auto simp: svc_ok_def intro!: absent_release)
  with run runIdempotent_spec [OF assms(1) run] show ?thesis by auto
qed

end

section \<open>Calls of one operation, one after another\<close>

text \<open>
  A retried operation: each call meets its own faults, and before it time passes and the Redis
  side changes (evictions, connection events, failing commands). A process that dies after it
  claimed the key is a call whose BEGIN and DELETE both throw.
\<close>

definition redis_ops :: "('v redis_cache, 'v) cache_ops" where
  "redis_ops = \<lparr>cache_get = redis_get, cache_set = redis_set\<rparr>"

datatype disturbance = Dist_evict string | Dist_conn cache_event | Dist_io bool

fun disturb :: "disturbance \<Rightarrow> 'v redis_cache \<Rightarrow> 'v redis_cache" where
  "disturb (Dist_evict k) c = redis_evict k c"
| "disturb (Dist_conn e) c = redis_event e c"
| "disturb (Dist_io b) c = c\<lparr>io_fails := b\<rparr>"

record idem_call =
  call_env :: idem_env
  call_options :: idem_options
  call_wait :: nat
  call_disturbances :: "disturbance list"

definition before_call ::
  "idem_call \<Rightarrow> ('d, 'r, 'r redis_cache) service \<Rightarrow> ('d, 'r, 'r redis_cache) service" where
  "before_call c s = s\<lparr>svc_now := svc_now s + int (call_wait c),
     svc_cache := fold disturb (call_disturbances c) (svc_cache s)\<rparr>"

definition run_call ::
  "idem_context \<Rightarrow> (int \<Rightarrow> ('d, js_value, 'r) act) \<Rightarrow> idem_call \<Rightarrow>
     (('d, 'r, 'r redis_cache) service, js_value, 'r \<times> bool) act" where
  "run_call ctx work c s =
     runIdempotent (call_env c) redis_ops ctx work (call_options c) (before_call c s)"

fun run_calls ::
  "idem_context \<Rightarrow> (int \<Rightarrow> ('d, js_value, 'r) act) \<Rightarrow> idem_call list \<Rightarrow>
     ('d, 'r, 'r redis_cache) service \<Rightarrow>
     (js_value + 'r \<times> bool) list \<times> ('d, 'r, 'r redis_cache) service" where
  "run_calls ctx work [] s = ([], s)"
| "run_calls ctx work (c # cs) s =
     (case run_call ctx work c s of (r, s1) \<Rightarrow>
       (case run_calls ctx work cs s1 of (rs, s2) \<Rightarrow> (r # rs, s2)))"

text \<open>The abstract view: what the retries of one operation may have answered and done.\<close>

definition replies_only :: "'r \<Rightarrow> (js_value + 'r \<times> bool) list \<Rightarrow> bool" where
  "replies_only v rs \<longleftrightarrow> (\<forall>r \<in> set rs. (\<exists>e. r = Inl e) \<or> r = Inr (v, True))"

definition executed_once :: "'r \<Rightarrow> (js_value + 'r \<times> bool) list \<Rightarrow> bool" where
  "executed_once v rs \<longleftrightarrow>
     (\<exists>es q qs. rs = map Inl es @ q # qs \<and> (q = Inr (v, False) \<or> (\<exists>e. q = Inl e)) \<and> replies_only v qs)"

lemma redis_holds_event [simp]: "redis_holds (redis_event e c) = redis_holds c"
  by (cases e) (auto simp: redis_holds_def redis_on_ready_def redis_on_error_def)

lemma redis_holds_io [simp]: "redis_holds (c\<lparr>io_fails := b\<rparr>) = redis_holds c"
  by (simp add: redis_holds_def fun_eq_iff)

lemma disturb_sound: "redis.sound store c \<Longrightarrow> redis.sound store (disturb x c)"
proof (cases x)
  case (Dist_evict k)
  then show "redis.sound store c \<Longrightarrow> ?thesis" by (simp add: redis_evict_sound)
qed (simp_all add: redis.sound_def)

lemma disturbs_sound: "redis.sound store c \<Longrightarrow> redis.sound store (fold disturb xs c)"
  by (induction xs arbitrary: c) (auto intro: disturb_sound)

lemma before_call_ok: "redis.svc_ok s \<Longrightarrow> redis.svc_ok (before_call c s)"
  by (auto simp: redis.svc_ok_def before_call_def intro: disturbs_sound)

lemma run_call_spec:
  assumes "redis.svc_ok s" and "run_call ctx work c s = (r, s')"
  shows "redis.svc_ok s' \<and>
    (case completed (records s) (ctx_key ctx) of
       Some v \<Rightarrow> domain s' = domain s \<and> completed (records s') (ctx_key ctx) = Some v \<and>
         (r = Inr (v, True) \<or> (\<exists>e. r = Inl e))
     | None \<Rightarrow>
        (\<exists>e. r = Inl e \<and> domain s' = domain s \<and> completed (records s') (ctx_key ctx) = None) \<or>
        (\<exists>v t. (r = Inr (v, False) \<or> (\<exists>e. r = Inl e)) \<and> work t (domain s) = (Inr v, domain s') \<and>
           completed (records s') (ctx_key ctx) = Some v))"
proof -
  have s: "domain (before_call c s) = domain s" "records (before_call c s) = records s"
    by (simp_all add: before_call_def)
  have run: "runIdempotent (call_env c) redis.ops ctx work (call_options c) (before_call c s) = (r, s')"
    using assms(2) by (simp add: run_call_def redis_ops_def)
  from redis.runIdempotent_spec [OF before_call_ok [OF assms(1)] run]
  show ?thesis by (auto simp: s split: option.splits sum.splits)
qed

lemma run_calls_completed:
  assumes "redis.svc_ok s" and "completed (records s) (ctx_key ctx) = Some v"
    and "run_calls ctx work cs s = (rs, s')"
  shows "domain s' = domain s \<and> replies_only v rs"
  using assms
proof (induction cs arbitrary: s rs)
  case Nil
  then show ?case by (simp add: replies_only_def)
next
  case (Cons c cs)
  obtain r s1 where c: "run_call ctx work c s = (r, s1)" by fastforce
  obtain qs s2 where cs: "run_calls ctx work cs s1 = (qs, s2)" by fastforce
  from run_call_spec [OF Cons.prems(1) c] Cons.prems(2)
  have "redis.svc_ok s1" "completed (records s1) (ctx_key ctx) = Some v" "domain s1 = domain s"
    "r = Inr (v, True) \<or> (\<exists>e. r = Inl e)" by auto
  with Cons.IH [of s1 qs] cs c Cons.prems(3) show ?case by (auto simp: replies_only_def)
qed

text \<open>
  C1. However often one operation is retried, and whatever the database and Redis do to each
  call, its work takes effect at most once: either no call got through and the tables are as they
  were, or the tables are those one execution of the work left and every call after it replays
  that execution's response (or throws); a failed call before it left nothing behind.
\<close>

theorem retried_operation_executes_once:
  assumes "redis.svc_ok s" and "completed (records s) (ctx_key ctx) = None"
    and "run_calls ctx work cs s = (rs, s')"
  shows "(domain s' = domain s \<and> (\<forall>r \<in> set rs. \<exists>e. r = Inl e)) \<or>
         (\<exists>t v. work t (domain s) = (Inr v, domain s') \<and> executed_once v rs)"
  using assms
proof (induction cs arbitrary: s rs)
  case Nil
  then show ?case by simp
next
  case (Cons c cs)
  obtain r s1 where c: "run_call ctx work c s = (r, s1)" by fastforce
  obtain qs where cs: "run_calls ctx work cs s1 = (qs, s')" and rs: "rs = r # qs"
    using Cons.prems(3) c by (auto split: prod.splits)
  note P = run_call_spec [OF Cons.prems(1) c, unfolded Cons.prems(2), simplified]
  show ?case
  proof (cases "completed (records s1) (ctx_key ctx)")
    case None
    with P obtain e where r: "r = Inl e" and d: "domain s1 = domain s" and ok: "redis.svc_ok s1" by auto
    from Cons.IH [OF ok None cs] d show ?thesis
    proof (elim disjE)
      assume "\<exists>t v. work t (domain s1) = (Inr v, domain s') \<and> executed_once v qs"
      then obtain t v es q ps where w: "work t (domain s) = (Inr v, domain s')"
        and "qs = map Inl es @ q # ps" "q = Inr (v, False) \<or> (\<exists>e. q = Inl e)" "replies_only v ps"
        using d by (auto simp: executed_once_def)
      then have "executed_once v rs"
        unfolding executed_once_def rs r by (intro exI [of _ "e # es"] exI [of _ q] exI [of _ ps]) simp
      with w show ?thesis by blast
    qed (auto simp: rs r)
  next
    case (Some v)
    with P obtain t where w: "work t (domain s) = (Inr v, domain s1)"
      and r: "r = Inr (v, False) \<or> (\<exists>e. r = Inl e)" and ok: "redis.svc_ok s1" by auto
    from run_calls_completed [OF ok Some cs] have "domain s' = domain s1" "replies_only v qs" by auto
    with w r show ?thesis
      unfolding executed_once_def rs by (metis append_Nil list.simps(8))
  qed
qed

text \<open>Three calls of a counting work: an abandoned claim, a lost acknowledgement, a replay.\<close>

definition no_faults :: idem_env where
  "no_faults = \<lparr>stmt_fault = (\<lambda>_. None), commit_fate = Commit_ok\<rparr>"

definition empty_service :: "'d \<Rightarrow> ('d, 'r, 'r redis_cache) service" where
  "empty_service d = \<lparr>domain = d, records = [], svc_cache = createCache False Map.empty, svc_now = 0\<rparr>"

lemma empty_service_ok [simp]: "redis.svc_ok (empty_service d)"
  by (simp add: redis.svc_ok_def empty_service_def redis.sound_def redis_holds_def createCache_def)

lemma empty_service_absent [simp]: "absent (records (empty_service d)) k"
  by (simp add: empty_service_def absent_def)

lemma empty_service_open [simp]: "completed (records (empty_service d)) k = None"
  by (simp add: empty_service_def completed_def)

lemma empty_service_domain [simp]: "domain (empty_service d) = d"
  by (simp add: empty_service_def)

definition count_work :: "int \<Rightarrow> (nat, js_value, nat) act" where
  "count_work t d = (Inr (Suc d), Suc d)"

definition sample_calls :: "idem_call list" where
  "sample_calls =
     [\<lparr>call_env = no_faults\<lparr>commit_fate := Commit_ack_lost (Primitive ''socket'')\<rparr>,
       call_options = default_idem_options, call_wait = 0, call_disturbances = []\<rparr>,
      \<lparr>call_env = no_faults, call_options = default_idem_options, call_wait = 3000,
       call_disturbances = [Dist_conn Ev_ready]\<rparr>]"

definition sample_context :: idem_context where
  "sample_context = \<lparr>ctx_key = ''A:CHARGE_PAYMENT'', ctx_operation = ''CHARGE_PAYMENT'', ctx_orderId = ''A''\<rparr>"

lemma sample_run:
  "fst (run_calls sample_context count_work sample_calls (empty_service 0)) =
     [Inl (Primitive ''socket''), Inr (1, True)]"
  by (simp add: sample_calls_def run_call_def runIdempotent_def redis_ops_def redis_get_def redis_set_def
      before_call_def empty_service_def createCache_def no_faults_def claim_phase_def insert_claim_def
      sql_insert_def work_phase_def count_work_def Let_def abandon_def release_claim_def sql_delete_def
      complete_record_def sql_update_def claim_duplicate_def sample_context_def redis_on_ready_def
      default_idem_options_def)

theorem retried_operation_executes_once_witness:
  "domain (snd (run_calls sample_context count_work sample_calls (empty_service 0))) = 1"
proof -
  let ?run = "run_calls sample_context count_work sample_calls (empty_service 0)"
  have run: "?run = (fst ?run, snd ?run)" by simp
  from retried_operation_executes_once [OF empty_service_ok empty_service_open run]
  show ?thesis by (auto simp: sample_run count_work_def)
qed

end
