(* ===== verification/IdemRace.thy ===== *)
theory IdemRace
  imports Idempotency
begin

text \<open>
  runIdempotent under concurrency: any number of requests for one operation, in any number of
  service instances, against one database and one cache. Each process is the function's control
  point; a step is one statement of one process (the transaction of phase 2 is one step, at its
  COMMIT), a crash, or the passing of time. The statements are those of the theory Idempotency.
  \<open>commits\<close> is a history variable: the responses of the executions that committed.
\<close>

datatype 'r pc =
    P_start
  | P_claiming
  | P_duplicate
  | P_takeover
  | P_working
  | P_abandoning js_value
  | P_caching 'r
  | P_replaying 'r
  | P_done 'r bool
  | P_failed js_value
  | P_dead

record ('d, 'r, 'c) race =
  svc :: "('d, 'r, 'c) service"
  procs :: "nat \<Rightarrow> 'r pc"
  commits :: "'r list"

definition goto :: "nat \<Rightarrow> 'r pc \<Rightarrow> ('d, 'r, 'c) race \<Rightarrow> ('d, 'r, 'c) race" where
  "goto i p s = s\<lparr>procs := (procs s)(i := p)\<rparr>"

definition set_records ::
  "'r idem_record list \<Rightarrow> ('d, 'r, 'c) race \<Rightarrow> ('d, 'r, 'c) race" where
  "set_records rs s = s\<lparr>svc := (svc s)\<lparr>records := rs\<rparr>\<rparr>"

definition warm ::
  "('c, 'r) cache_ops \<Rightarrow> idem_context \<Rightarrow> idem_options \<Rightarrow> 'r \<Rightarrow> ('d, 'r, 'c) race \<Rightarrow> ('d, 'r, 'c) race" where
  "warm C ctx opts v s = s\<lparr>svc := (svc s)\<lparr>svc_cache :=
     cache_set C (svc_now (svc s)) (idempotencyCacheKey (ctx_key ctx)) v (cacheTtlSeconds opts) (svc_cache (svc s))\<rparr>\<rparr>"

definition commit_work ::
  "idem_context \<Rightarrow> 'r \<Rightarrow> 'd \<Rightarrow> ('d, 'r, 'c) race \<Rightarrow> ('d, 'r, 'c) race" where
  "commit_work ctx v d s = s\<lparr>
     svc := (svc s)\<lparr>domain := d,
       records := fst (complete_record (svc_now (svc s)) (ctx_key ctx) v (records (svc s)))\<rparr>,
     commits := commits s @ [v]\<rparr>"

definition tick :: "nat \<Rightarrow> ('d, 'r, 'c) race \<Rightarrow> ('d, 'r, 'c) race" where
  "tick n s = s\<lparr>svc := (svc s)\<lparr>svc_now := svc_now (svc s) + int n\<rparr>\<rparr>"

definition race_takeover ::
  "idem_context \<Rightarrow> idem_options \<Rightarrow> ('d, 'r, 'c) race \<Rightarrow> 'r idem_record list \<times> nat" where
  "race_takeover ctx opts s =
     takeover_claim (svc_now (svc s)) (staleSeconds opts) (ctx_key ctx) (records (svc s))"

inductive race_step ::
  "('c, 'r) cache_ops \<Rightarrow> idem_context \<Rightarrow> (int \<Rightarrow> ('d, js_value, 'r) act) \<Rightarrow> idem_options \<Rightarrow>
     ('d, 'r, 'c) race \<Rightarrow> ('d, 'r, 'c) race \<Rightarrow> bool"
  for C ctx work opts where
  cache_hit: "procs s i = P_start \<Longrightarrow>
     cache_get C (svc_now (svc s)) (idempotencyCacheKey (ctx_key ctx)) (svc_cache (svc s)) = Some v \<Longrightarrow>
     race_step C ctx work opts s (goto i (P_done v True) s)"
| cache_miss: "procs s i = P_start \<Longrightarrow>
     cache_get C (svc_now (svc s)) (idempotencyCacheKey (ctx_key ctx)) (svc_cache (svc s)) = None \<Longrightarrow>
     race_step C ctx work opts s (goto i P_claiming s)"
| insert_ok: "procs s i = P_claiming \<Longrightarrow>
     insert_claim (svc_now (svc s)) ctx (records (svc s)) = Some rs \<Longrightarrow>
     race_step C ctx work opts s (goto i P_working (set_records rs s))"
| insert_dup: "procs s i = P_claiming \<Longrightarrow>
     insert_claim (svc_now (svc s)) ctx (records (svc s)) = None \<Longrightarrow>
     race_step C ctx work opts s (goto i P_duplicate s)"
| select_completed: "procs s i = P_duplicate \<Longrightarrow>
     completed (records (svc s)) (ctx_key ctx) = Some v \<Longrightarrow>
     race_step C ctx work opts s (goto i (P_replaying v) s)"
| select_open: "procs s i = P_duplicate \<Longrightarrow>
     completed (records (svc s)) (ctx_key ctx) = None \<Longrightarrow>
     race_step C ctx work opts s (goto i P_takeover s)"
| takeover_ok: "procs s i = P_takeover \<Longrightarrow>
     race_takeover ctx opts s = (rs, n) \<Longrightarrow> n \<noteq> 0 \<Longrightarrow>
     race_step C ctx work opts s (goto i P_working (set_records rs s))"
| takeover_refused: "procs s i = P_takeover \<Longrightarrow>
     race_takeover ctx opts s = (rs, 0) \<Longrightarrow>
     race_step C ctx work opts s (goto i (P_failed (OperationInProgressError (ctx_key ctx))) s)"
| work_commits: "procs s i = P_working \<Longrightarrow> work (svc_now (svc s)) (domain (svc s)) = (Inr v, d) \<Longrightarrow>
     race_step C ctx work opts s (goto i (P_caching v) (commit_work ctx v d s))"
| work_ack_lost: "procs s i = P_working \<Longrightarrow> work (svc_now (svc s)) (domain (svc s)) = (Inr v, d) \<Longrightarrow>
     race_step C ctx work opts s (goto i (P_abandoning e) (commit_work ctx v d s))"
| work_throws: "procs s i = P_working \<Longrightarrow> work (svc_now (svc s)) (domain (svc s)) = (Inl e, d) \<Longrightarrow>
     race_step C ctx work opts s (goto i (P_abandoning e) s)"
| transaction_fails: "procs s i = P_working \<Longrightarrow>
     race_step C ctx work opts s (goto i (P_abandoning e) s)"
| release: "procs s i = P_abandoning e \<Longrightarrow>
     race_step C ctx work opts s
       (goto i (P_failed e) (set_records (fst (release_claim (ctx_key ctx) (records (svc s)))) s))"
| release_fails: "procs s i = P_abandoning e \<Longrightarrow>
     race_step C ctx work opts s (goto i (P_failed e) s)"
| caching: "procs s i = P_caching v \<Longrightarrow>
     race_step C ctx work opts s (goto i (P_done v False) (warm C ctx opts v s))"
| replaying: "procs s i = P_replaying v \<Longrightarrow>
     race_step C ctx work opts s (goto i (P_done v True) (warm C ctx opts v s))"
| statement_fails: "procs s i = P_claiming \<or> procs s i = P_duplicate \<or> procs s i = P_takeover \<Longrightarrow>
     race_step C ctx work opts s (goto i (P_failed e) s)"
| crash: "race_step C ctx work opts s (goto i P_dead s)"
| time: "race_step C ctx work opts s (tick n s)"

text \<open>A process that believes the claim is its own.\<close>

fun owner :: "'r pc \<Rightarrow> bool" where
  "owner P_working = True"
| "owner (P_abandoning _) = True"
| "owner _ = False"

text \<open>
  The comment of the code says of a stale claim that its owner died. A step is prompt when it
  lives up to that: a process takes over a claim only while no other process still owns it.
\<close>

definition prompt :: "('d, 'r, 'c) race \<Rightarrow> ('d, 'r, 'c) race \<Rightarrow> bool" where
  "prompt s s' \<longleftrightarrow>
     (\<forall>i. procs s i = P_takeover \<and> procs s' i = P_working \<longrightarrow> (\<forall>j. \<not> owner (procs s j)))"

definition race_start :: "('d, 'r, 'c) service \<Rightarrow> ('d, 'r, 'c) race" where
  "race_start s = \<lparr>svc = s, procs = (\<lambda>_. P_start), commits = []\<rparr>"

inductive reach ::
  "bool \<Rightarrow> ('c, 'r) cache_ops \<Rightarrow> idem_context \<Rightarrow> (int \<Rightarrow> ('d, js_value, 'r) act) \<Rightarrow> idem_options \<Rightarrow>
     ('d, 'r, 'c) service \<Rightarrow> ('d, 'r, 'c) race \<Rightarrow> bool"
  for owners_die C ctx work opts s0 where
  start: "reach owners_die C ctx work opts s0 (race_start s0)"
| step: "reach owners_die C ctx work opts s0 s \<Longrightarrow> race_step C ctx work opts s s' \<Longrightarrow>
     (owners_die \<longrightarrow> prompt s s') \<Longrightarrow> reach owners_die C ctx work opts s0 s'"

lemmas race_defs = goto_def set_records_def warm_def commit_work_def tick_def

section \<open>The invariant when owners die before they are replaced\<close>

text \<open>What the response a process carries must be.\<close>

fun carries :: "'r pc \<Rightarrow> 'r option" where
  "carries (P_caching v) = Some v"
| "carries (P_replaying v) = Some v"
| "carries (P_done v _) = Some v"
| "carries _ = None"

context cache_contract
begin

definition race_inv :: "string \<Rightarrow> (int \<Rightarrow> ('d, js_value, 'v) act) \<Rightarrow> 'd \<Rightarrow> ('d, 'v, 'c) race \<Rightarrow> bool" where
  "race_inv key work d0 s \<longleftrightarrow>
     svc_ok (svc s) \<and>
     (\<forall>i j. owner (procs s i) \<longrightarrow> owner (procs s j) \<longrightarrow> i = j) \<and>
     (\<forall>i. owner (procs s i) \<longrightarrow> \<not> absent (records (svc s)) key) \<and>
     (\<forall>i. procs s i = P_working \<longrightarrow> in_progress (records (svc s)) key) \<and>
     (\<forall>i v. carries (procs s i) = Some v \<longrightarrow> commits s = [v]) \<and>
     (commits s = [] \<and> completed (records (svc s)) key = None \<and> domain (svc s) = d0 \<or>
      (\<exists>v t. commits s = [v] \<and> completed (records (svc s)) key = Some v \<and>
         work t d0 = (Inr v, domain (svc s))))"

lemma race_invI:
  assumes "svc_ok (svc s)"
    and "\<And>i j. owner (procs s i) \<Longrightarrow> owner (procs s j) \<Longrightarrow> i = j"
    and "\<And>i. owner (procs s i) \<Longrightarrow> \<not> absent (records (svc s)) key"
    and "\<And>i. procs s i = P_working \<Longrightarrow> in_progress (records (svc s)) key"
    and "\<And>i v. carries (procs s i) = Some v \<Longrightarrow> commits s = [v]"
    and "commits s = [] \<and> completed (records (svc s)) key = None \<and> domain (svc s) = d0 \<or>
      (\<exists>v t. commits s = [v] \<and> completed (records (svc s)) key = Some v \<and>
         work t d0 = (Inr v, domain (svc s)))"
  shows "race_inv key work d0 s"
  using assms unfolding race_inv_def by blast

lemma race_inv_start:
  "svc_ok s0 \<Longrightarrow> completed (records s0) key = None \<Longrightarrow> race_inv key work (domain s0) (race_start s0)"
  by (simp add: race_inv_def race_start_def)

text \<open>A step that moves one process and leaves the service alone.\<close>

lemma race_inv_goto:
  assumes inv: "race_inv key work d0 s"
    and "owner p \<Longrightarrow> owner (procs s i)" and "p = P_working \<Longrightarrow> procs s i = P_working"
    and "\<And>v. carries p = Some v \<Longrightarrow> commits s = [v]"
  shows "race_inv key work d0 (goto i p s)"
  using assms by (intro race_invI) (auto simp: race_inv_def goto_def split: if_splits)

text \<open>A process becomes the only owner of a claim that is in progress.\<close>

lemma race_inv_own:
  assumes inv: "race_inv key work d0 s" and "\<And>j. \<not> owner (procs s j)"
    and "unique_key idempotency_key rs" and "completed rs = completed (records (svc s))"
    and "in_progress rs key"
  shows "race_inv key work d0 (goto i P_working (set_records rs s))"
proof -
  have "svc_ok ((svc s)\<lparr>records := rs\<rparr>)"
    using inv assms(3,4) by (simp add: race_inv_def svc_ok_def)
  moreover have "\<not> absent rs key" using assms(5) by (simp add: in_progress_not_completed)
  ultimately show ?thesis
    using inv assms(2,4,5)
    by (intro race_invI) (auto simp: race_inv_def goto_def set_records_def split: if_splits)
qed

lemma race_inv_insert:
  assumes inv: "race_inv (ctx_key ctx) work d0 s"
    and ins: "insert_claim (svc_now (svc s)) ctx (records (svc s)) = Some rs"
  shows "race_inv (ctx_key ctx) work d0 (goto i P_working (set_records rs s))"
proof (rule race_inv_own [OF inv])
  note I = insert_claim_Some [OF ins]
  then show "\<not> owner (procs s j)" for j using inv by (auto simp: race_inv_def)
  from I inv show "unique_key idempotency_key rs" by (auto simp: race_inv_def svc_ok_def)
  from I show "completed rs = completed (records (svc s))" "in_progress rs (ctx_key ctx)" by auto
qed

lemma race_inv_takeover:
  assumes inv: "race_inv (ctx_key ctx) work d0 s"
    and own: "\<And>j. \<not> owner (procs s j)"
    and t: "race_takeover ctx opts s = (rs, n)" "n \<noteq> 0"
  shows "race_inv (ctx_key ctx) work d0 (goto i P_working (set_records rs s))"
proof (rule race_inv_own [OF inv own])
  have rs: "rs = fst (race_takeover ctx opts s)" using t by simp
  show "completed rs = completed (records (svc s))"
    by (simp add: rs race_takeover_def sql_simps)
  show "unique_key idempotency_key rs"
    using inv by (simp add: rs race_takeover_def sql_simps race_inv_def svc_ok_def)
  have "in_progress (records (svc s)) (ctx_key ctx)"
    using takeover_affected [of "records (svc s)"] inv t
    by (metis race_inv_def race_takeover_def snd_conv svc_ok_def)
  then show "in_progress rs (ctx_key ctx)" by (simp add: rs race_takeover_def sql_simps)
qed

lemma race_inv_commit:
  assumes inv: "race_inv (ctx_key ctx) work d0 s" and i: "procs s i = P_working"
    and w: "work (svc_now (svc s)) (domain (svc s)) = (Inr v, d)"
    and p: "p = P_caching v \<or> p = P_abandoning e"
  shows "race_inv (ctx_key ctx) work d0 (goto i p (commit_work ctx v d s))"
proof -
  let ?rs = "fst (complete_record (svc_now (svc s)) (ctx_key ctx) v (records (svc s)))"
  from inv i have ip: "in_progress (records (svc s)) (ctx_key ctx)" and ok: "svc_ok (svc s)"
    by (auto simp: race_inv_def)
  note fin = svc_ok_complete [OF ok ip, where d = d and t = "svc_now (svc s)" and v = v]
  from inv in_progress_not_completed [OF ip] have start: "commits s = []" "domain (svc s) = d0"
    by (auto simp: race_inv_def)
  have none: "carries (procs s j) = None" for j
    using inv start(1) by (cases "carries (procs s j)") (auto simp: race_inv_def)
  have alone: "owner (procs s j) \<Longrightarrow> j = i" for j
    using inv i by (auto simp: race_inv_def)
  have comp: "completed ?rs (ctx_key ctx) = Some v" using fin by simp
  show ?thesis
  proof (rule race_invI)
    show "svc_ok (svc (goto i p (commit_work ctx v d s)))"
      using fin by (simp add: goto_def commit_work_def)
    show "j = k" if "owner (procs (goto i p (commit_work ctx v d s)) j)"
      "owner (procs (goto i p (commit_work ctx v d s)) k)" for j k
      using that alone by (auto simp: goto_def commit_work_def split: if_splits)
    show "\<not> absent (records (svc (goto i p (commit_work ctx v d s)))) (ctx_key ctx)"
      using comp by (auto simp: goto_def commit_work_def dest: absent_not_completed)
    show "in_progress (records (svc (goto i p (commit_work ctx v d s)))) (ctx_key ctx)"
      if "procs (goto i p (commit_work ctx v d s)) j = P_working" for j
      using that alone [of j] p by (auto simp: goto_def commit_work_def split: if_splits)
    show "commits (goto i p (commit_work ctx v d s)) = [w]"
      if "carries (procs (goto i p (commit_work ctx v d s)) j) = Some w" for j w
      using that none [of j] p start by (auto simp: goto_def commit_work_def split: if_splits)
    show "commits (goto i p (commit_work ctx v d s)) = [] \<and>
        completed (records (svc (goto i p (commit_work ctx v d s)))) (ctx_key ctx) = None \<and>
        domain (svc (goto i p (commit_work ctx v d s))) = d0 \<or>
      (\<exists>v' t. commits (goto i p (commit_work ctx v d s)) = [v'] \<and>
         completed (records (svc (goto i p (commit_work ctx v d s)))) (ctx_key ctx) = Some v' \<and>
         work t d0 = (Inr v', domain (svc (goto i p (commit_work ctx v d s)))))"
      using start w comp by (auto simp: goto_def commit_work_def)
  qed
qed

lemma race_inv_release:
  assumes inv: "race_inv (ctx_key ctx) work d0 s" and i: "procs s i = P_abandoning e"
  shows "race_inv (ctx_key ctx) work d0
    (goto i (P_failed e) (set_records (fst (release_claim (ctx_key ctx) (records (svc s)))) s))"
proof -
  have u: "unique_key idempotency_key (records (svc s))"
    using inv by (simp add: race_inv_def svc_ok_def)
  have alone: "owner (procs s j) \<Longrightarrow> j = i" for j
    using inv i by (auto simp: race_inv_def)
  then have work: "procs s j \<noteq> P_working" for j using i by (metis owner.simps(1) pc.distinct)
  show ?thesis
    using inv u alone work
    by (intro race_invI)
       (auto simp: race_inv_def goto_def set_records_def svc_ok_def completed_release unique_release
          split: if_splits)
qed

lemma race_inv_warm:
  assumes inv: "race_inv (ctx_key ctx) work d0 s" and i: "carries (procs s i) = Some v"
  shows "race_inv (ctx_key ctx) work d0 (goto i (P_done v b) (warm ops ctx opts v s))"
proof -
  from inv i have c: "commits s = [v]" by (auto simp: race_inv_def)
  with inv have "completed (records (svc s)) (ctx_key ctx) = Some v" by (auto simp: race_inv_def)
  with inv have "svc_ok (svc (warm ops ctx opts v s))"
    by (auto simp: race_inv_def svc_ok_def warm_def intro: sound_set)
  with inv c show ?thesis
    by (intro race_invI) (auto simp: race_inv_def goto_def warm_def split: if_splits)
qed

lemma race_inv_tick: "race_inv key work d0 s \<Longrightarrow> race_inv key work d0 (tick n s)"
  by (auto simp: race_inv_def tick_def svc_ok_def)

lemma race_inv_completed:
  assumes "race_inv key work d0 s" and "completed (records (svc s)) key = Some v"
  shows "commits s = [v]"
  using assms by (auto simp: race_inv_def)

lemma race_step_inv:
  assumes "race_step ops ctx work opts s s'" and "race_inv (ctx_key ctx) work d0 s" and "prompt s s'"
  shows "race_inv (ctx_key ctx) work d0 s'"
  using assms
proof (induction rule: race_step.induct)
  case (cache_hit s i v)
  then have "completed (records (svc s)) (ctx_key ctx) = Some v"
    by (auto simp: race_inv_def svc_ok_def dest: sound_hit)
  with cache_hit show ?case by (intro race_inv_goto) (auto dest: race_inv_completed)
next
  case (insert_ok s i rs)
  then show ?case by (intro race_inv_insert)
next
  case (select_completed s i v)
  then show ?case by (intro race_inv_goto) (auto dest: race_inv_completed)
next
  case (takeover_ok s i rs n)
  then have "\<not> owner (procs s j)" for j
    by (auto simp: prompt_def goto_def set_records_def)
  with takeover_ok show ?case by (intro race_inv_takeover) auto
next
  case (work_commits s i v d)
  then show ?case by (intro race_inv_commit) auto
next
  case (work_ack_lost s i v d e)
  then show ?case by (intro race_inv_commit) auto
next
  case (release s i e)
  then show ?case by (intro race_inv_release)
next
  case (caching s i v)
  then show ?case by (intro race_inv_warm) auto
next
  case (replaying s i v)
  then show ?case by (intro race_inv_warm) auto
next
  case (time s n)
  then show ?case by (intro race_inv_tick)
qed (auto intro!: race_inv_goto)

lemma reach_inv:
  assumes "reach True ops ctx work opts s0 s" and "svc_ok s0"
    and "completed (records s0) (ctx_key ctx) = None"
  shows "race_inv (ctx_key ctx) work (domain s0) s"
  using assms
proof (induction rule: reach.induct)
  case start
  then show ?case by (rule race_inv_start)
next
  case (step s s')
  then have "race_inv (ctx_key ctx) work (domain s0) s" by simp
  with step.hyps(2,3) show ?case by (metis race_step_inv)
qed

lemma reach_at_most_once:
  assumes "reach True ops ctx work opts s0 s" and "svc_ok s0"
    and "completed (records s0) (ctx_key ctx) = None"
  shows "(commits s = [] \<and> domain (svc s) = domain s0 \<and> (\<forall>i. carries (procs s i) = None)) \<or>
    (\<exists>v t. commits s = [v] \<and> work t (domain s0) = (Inr v, domain (svc s)) \<and>
       completed (records (svc s)) (ctx_key ctx) = Some v \<and>
       (\<forall>i w. carries (procs s i) = Some w \<longrightarrow> w = v))"
proof -
  have inv: "race_inv (ctx_key ctx) work (domain s0) s" by (rule reach_inv) (use assms in auto)
  then have all: "\<forall>i w. carries (procs s i) = Some w \<longrightarrow> commits s = [w]"
    by (simp add: race_inv_def)
  from inv show ?thesis
  proof (cases "commits s")
    case Nil
    with inv all show ?thesis by (auto simp: race_inv_def)
  next
    case (Cons v vs)
    with inv all show ?thesis by (auto simp: race_inv_def)
  qed
qed

end

section \<open>The service's cache\<close>

text \<open>
  C2. Any number of concurrent requests for one operation, with crashes, failing statements and
  lost COMMIT acknowledgements, execute its work at most once, as long as a stale claim is taken
  over only after its owner died: either nothing committed and no request has an answer, or one
  execution committed, the record holds its response, and every request that answered (from the
  record, the cache or the execution itself) carries that response.
\<close>

theorem concurrent_requests_execute_once:
  assumes "reach True redis_ops ctx work opts s0 s" and "redis.svc_ok s0"
    and "completed (records s0) (ctx_key ctx) = None"
  shows "(commits s = [] \<and> domain (svc s) = domain s0 \<and> (\<forall>i. carries (procs s i) = None)) \<or>
    (\<exists>v t. commits s = [v] \<and> work t (domain s0) = (Inr v, domain (svc s)) \<and>
       completed (records (svc s)) (ctx_key ctx) = Some v \<and>
       (\<forall>i w. carries (procs s i) = Some w \<longrightarrow> w = v))"
  by (rule redis.reach_at_most_once) (use assms in \<open>auto simp: redis_ops_def\<close>)

subsection \<open>Runs of a counting operation\<close>

definition claim_row :: "int \<Rightarrow> 'r idem_record" where
  "claim_row t = \<lparr>idempotency_key = ''A:CHARGE_PAYMENT'', rec_operation = ''CHARGE_PAYMENT'',
     rec_order_id = ''A'', rec_status = REC_IN_PROGRESS, created_at = t, completed_at = None\<rparr>"

definition done_row :: "int \<Rightarrow> int \<Rightarrow> 'r \<Rightarrow> 'r idem_record" where
  "done_row t u v = (claim_row t)\<lparr>rec_status := REC_COMPLETED v, completed_at := Some u\<rparr>"

text \<open>The state of a run: time, counter, records, the three processes, history.\<close>

definition run_state ::
  "int \<Rightarrow> nat \<Rightarrow> nat idem_record list \<Rightarrow> nat pc \<Rightarrow> nat pc \<Rightarrow> nat pc \<Rightarrow> nat list \<Rightarrow>
     (nat, nat, nat redis_cache) race" where
  "run_state t d rs a b c h = \<lparr>
     svc = \<lparr>domain = d, records = rs, svc_cache = createCache False Map.empty, svc_now = t\<rparr>,
     procs = (\<lambda>_. P_start)(0 := a, 1 := b, 2 := c), commits = h\<rparr>"

abbreviation run_reach :: "bool \<Rightarrow> (nat, nat, nat redis_cache) race \<Rightarrow> bool" where
  "run_reach die \<equiv>
     reach die redis_ops sample_context count_work default_idem_options (empty_service 0)"

lemma run_reach_start: "run_reach die (run_state 0 0 [] P_start P_start P_start [])"
proof -
  have "run_state 0 0 [] P_start P_start P_start [] = race_start (empty_service 0)"
    by (simp add: run_state_def race_start_def empty_service_def fun_eq_iff)
  then show ?thesis by (simp add: reach.start)
qed

lemma run_goto:
  "goto 0 p (run_state t d rs a b c h) = run_state t d rs p b c h"
  "goto (Suc 0) p (run_state t d rs a b c h) = run_state t d rs a p c h"
  "goto 2 p (run_state t d rs a b c h) = run_state t d rs a b p h"
  by (auto simp: goto_def run_state_def fun_eq_iff)

lemma run_selectors:
  "procs (run_state t d rs a b c h) 0 = a" "procs (run_state t d rs a b c h) (Suc 0) = b"
  "procs (run_state t d rs a b c h) 2 = c" "records (svc (run_state t d rs a b c h)) = rs"
  "domain (svc (run_state t d rs a b c h)) = d" "svc_now (svc (run_state t d rs a b c h)) = t"
  "set_records qs (run_state t d rs a b c h) = run_state t d qs a b c h"
  "tick n (run_state t d rs a b c h) = run_state (t + int n) d rs a b c h"
  "warm redis_ops ctx opts v (run_state t d rs a b c h) = run_state t d rs a b c h"
  "cache_get redis_ops u k (svc_cache (svc (run_state t d rs a b c h))) = None"
  by (simp_all add: run_state_def race_defs redis_ops_def redis_get_def redis_set_def createCache_def)

lemma run_prompt:
  "a \<noteq> P_takeover \<Longrightarrow> b \<noteq> P_takeover \<Longrightarrow> c \<noteq> P_takeover \<Longrightarrow>
    prompt (run_state t d rs a b c h) s'"
  by (auto simp: prompt_def run_state_def split: if_splits)

lemma run_commit:
  "commit_work sample_context v e (run_state t d rs a b c h) =
     run_state t e (fst (complete_record t ''A:CHARGE_PAYMENT'' v rs)) a b c (h @ [v])"
  by (simp add: run_state_def commit_work_def sample_context_def)

lemma run_rows:
  "complete_record u ''A:CHARGE_PAYMENT'' v [] = ([], 0)"
  "complete_record u ''A:CHARGE_PAYMENT'' v [claim_row t] = ([done_row t u v], 1)"
  "insert_claim u sample_context [] = Some [claim_row u]"
  "insert_claim u sample_context [claim_row t] = None"
  "release_claim ''A:CHARGE_PAYMENT'' [claim_row t] = ([], 1)"
  "completed [claim_row t] ''A:CHARGE_PAYMENT'' = None"
  "completed [done_row t u v] ''A:CHARGE_PAYMENT'' = Some v"
  "complete_record u' ''A:CHARGE_PAYMENT'' w [done_row t u v] = ([done_row t u' w], 1)"
  by (simp_all add: complete_record_def sql_update_def claim_row_def done_row_def insert_claim_def
      sql_insert_def sample_context_def release_claim_def sql_delete_def completed_def)

lemma run_takeover:
  "race_takeover sample_context default_idem_options (run_state 60001 d [claim_row 0] a b c h) =
     ([claim_row 60001], 1)"
  by (simp add: race_takeover_def run_state_def sample_context_def takeover_claim_def sql_update_def
      claim_row_def default_idem_options_def staleSeconds_def DEFAULT_STALE_MS_def)

lemma sample_key: "ctx_key sample_context = ''A:CHARGE_PAYMENT''"
  by (simp add: sample_context_def)

lemmas run_simps = run_goto run_selectors run_commit run_rows run_takeover run_prompt sample_key

lemma run_step:
  "run_reach die s \<Longrightarrow>
    race_step redis_ops sample_context count_work default_idem_options s s' \<Longrightarrow> s' = t \<Longrightarrow>
    (die \<longrightarrow> prompt s s') \<Longrightarrow> run_reach die t"
  by (metis reach.step)

lemma run_executed: "run_reach True (run_state 0 1 [done_row 0 0 1] (P_done 1 False) P_start P_start [1])"
proof -
  have 1: "run_reach True (run_state 0 0 [] P_claiming P_start P_start [])"
    by (rule run_step [OF run_reach_start race_step.cache_miss [where i = 0]])
       (simp_all add: run_simps)
  have 2: "run_reach True (run_state 0 0 [claim_row 0] P_working P_start P_start [])"
    by (rule run_step [OF 1 race_step.insert_ok [where i = 0 and rs = "[claim_row 0]"]])
       (simp_all add: run_simps)
  have 3: "run_reach True (run_state 0 1 [done_row 0 0 1] (P_caching 1) P_start P_start [1])"
    by (rule run_step [OF 2 race_step.work_commits [where i = 0 and v = 1 and d = 1]])
       (simp_all add: run_simps count_work_def)
  show ?thesis
    by (rule run_step [OF 3 race_step.caching [where i = 0 and v = 1]])
       (simp_all add: run_simps)
qed

theorem concurrent_requests_execute_once_witness:
  "\<exists>s. run_reach True s \<and> commits s = [1] \<and> domain (svc s) = 1"
proof -
  have h: "commits (run_state 0 1 [done_row 0 0 1] (P_done 1 False) P_start P_start [1]) = [1]"
    by (simp add: run_state_def)
  from concurrent_requests_execute_once [OF run_executed empty_service_ok empty_service_open]
  have "domain (svc (run_state 0 1 [done_row 0 0 1] (P_done 1 False) P_start P_start [1])) = 1"
    by (auto simp: h count_work_def simp del: One_nat_def)
  with run_executed h show ?thesis by blast
qed

text \<open>
  Two processes and a claim that goes stale while its owner is still at work: the second process
  takes the claim over. Both theorems below start from this state.
\<close>

lemma run_live_takeover:
  "run_reach False (run_state 60001 0 [claim_row 60001] P_working P_working P_start [])"
proof -
  note step = run_step [where die = False]
  have 1: "run_reach False (run_state 0 0 [] P_claiming P_start P_start [])"
    by (rule step [OF run_reach_start race_step.cache_miss [where i = 0]]) (simp_all add: run_simps)
  have 2: "run_reach False (run_state 0 0 [claim_row 0] P_working P_start P_start [])"
    by (rule step [OF 1 race_step.insert_ok [where i = 0 and rs = "[claim_row 0]"]])
       (simp_all add: run_simps)
  have 3: "run_reach False (run_state 60001 0 [claim_row 0] P_working P_start P_start [])"
    by (rule step [OF 2 race_step.time [where n = 60001]]) (simp_all add: run_simps)
  have 4: "run_reach False (run_state 60001 0 [claim_row 0] P_working P_claiming P_start [])"
    by (rule step [OF 3 race_step.cache_miss [where i = 1]]) (simp_all add: run_simps)
  have 5: "run_reach False (run_state 60001 0 [claim_row 0] P_working P_duplicate P_start [])"
    by (rule step [OF 4 race_step.insert_dup [where i = 1]]) (simp_all add: run_simps)
  have 6: "run_reach False (run_state 60001 0 [claim_row 0] P_working P_takeover P_start [])"
    by (rule step [OF 5 race_step.select_open [where i = 1]]) (simp_all add: run_simps)
  show ?thesis
    by (rule step [OF 6 race_step.takeover_ok [where i = 1 and n = 1 and rs = "[claim_row 60001]"]])
       (simp_all add: run_simps)
qed

text \<open>
  A claim carries no mark of its owner. When an owner that is merely slow (longer than the
  stale limit) fails after its claim was taken over, its DELETE removes the claim of the process
  that took over; that process commits without leaving a record, and a third request executes the
  same operation again: both report a first execution and the work took effect twice.
\<close>

theorem live_takeover_executes_twice:
  "\<exists>s. reach False redis_ops sample_context count_work default_idem_options (empty_service 0) s \<and>
     procs s 1 = P_done 1 False \<and> procs s 2 = P_done 2 False \<and> domain (svc s) = 2"
proof -
  note step = run_step [where die = False]
  let ?e = "Primitive ''deadlock''"
  have 1: "run_reach False (run_state 60001 0 [claim_row 60001] (P_abandoning ?e) P_working P_start [])"
    by (rule step [OF run_live_takeover race_step.transaction_fails [where i = 0]])
       (simp_all add: run_simps)
  have 2: "run_reach False (run_state 60001 0 [] (P_failed ?e) P_working P_start [])"
    by (rule step [OF 1 race_step.release [where i = 0]]) (simp_all add: run_simps)
  have 3: "run_reach False (run_state 60001 1 [] (P_failed ?e) (P_caching 1) P_start [1])"
    by (rule step [OF 2 race_step.work_commits [where i = 1 and v = 1 and d = 1]])
       (simp_all add: run_simps count_work_def)
  have 4: "run_reach False (run_state 60001 1 [] (P_failed ?e) (P_done 1 False) P_start [1])"
    by (rule step [OF 3 race_step.caching [where i = 1 and v = 1]]) (simp_all add: run_simps)
  have 5: "run_reach False (run_state 60001 1 [] (P_failed ?e) (P_done 1 False) P_claiming [1])"
    by (rule step [OF 4 race_step.cache_miss [where i = 2]]) (simp_all add: run_simps)
  have 6: "run_reach False (run_state 60001 1 [claim_row 60001] (P_failed ?e) (P_done 1 False) P_working [1])"
    by (rule step [OF 5 race_step.insert_ok [where i = 2 and rs = "[claim_row 60001]"]])
       (simp_all add: run_simps)
  have 7: "run_reach False (run_state 60001 2 [done_row 60001 60001 2] (P_failed ?e) (P_done 1 False)
      (P_caching 2) [1, 2])"
    by (rule step [OF 6 race_step.work_commits [where i = 2 and v = 2 and d = 2]])
       (simp_all add: run_simps count_work_def)
  have 8: "run_reach False (run_state 60001 2 [done_row 60001 60001 2] (P_failed ?e) (P_done 1 False)
      (P_done 2 False) [1, 2])"
    by (rule step [OF 7 race_step.caching [where i = 2 and v = 2]]) (simp_all add: run_simps)
  then show ?thesis by (intro exI, intro conjI, assumption) (simp_all add: run_simps)
qed

text \<open>
  Completing a record is not guarded by its status: a completed record is not immutable. A
  slow owner that commits after the process that took its claim over replaces the stored response.
\<close>

theorem completed_record_overwritten:
  "\<exists>s s'. reach False redis_ops sample_context count_work default_idem_options (empty_service 0) s \<and>
     race_step redis_ops sample_context count_work default_idem_options s s' \<and>
     completed (records (svc s)) (ctx_key sample_context) = Some 1 \<and>
     completed (records (svc s')) (ctx_key sample_context) = Some 2"
proof -
  let ?s = "run_state 60001 1 [done_row 60001 60001 1] P_working (P_caching 1) P_start [1]"
  have 1: "run_reach False ?s"
    by (rule run_step [where die = False, OF run_live_takeover
          race_step.work_commits [where i = 1 and v = 1 and d = 1]])
       (simp_all add: run_simps count_work_def)
  have 2: "race_step redis_ops sample_context count_work default_idem_options ?s
      (goto 0 (P_caching 2) (commit_work sample_context 2 2 ?s))"
    by (rule race_step.work_commits) (simp_all add: run_simps count_work_def)
  show ?thesis
    by (intro exI conjI, rule 1, rule 2) (simp_all add: run_simps)
qed

end
