(* ===== verification/JsNumber.thy ===== *)
theory JsNumber
  imports Errors
begin

text \<open>
  The language's numbers as the programs use them: \<open>Number(text)\<close> by the grammar of
  StringNumericLiteral, comparison with infinities and NaN, truthiness, Math.min and Math.max. A
  finite number is a rational; rounding to 53 bits is not modelled, overflow to Infinity is. Text is
  ASCII.
\<close>

datatype js_num = NaN | Infinite bool | Finite rat

section \<open>Number(text)\<close>

definition is_space :: "char \<Rightarrow> bool" where
  "is_space c \<longleftrightarrow> (of_char c :: nat) \<in> {9, 10, 11, 12, 13, 32}"

definition js_trim :: "string \<Rightarrow> string" where
  "js_trim s = rev (dropWhile is_space (rev (dropWhile is_space s)))"

text \<open>The value of a digit, letters counting from ten.\<close>

definition digit_value :: "char \<Rightarrow> nat" where
  "digit_value c = (let n = of_char c :: nat in
     if 48 \<le> n \<and> n \<le> 57 then n - 48
     else if 97 \<le> n \<and> n \<le> 122 then n - 87
     else if 65 \<le> n \<and> n \<le> 90 then n - 55
     else 99)"

definition is_digit :: "nat \<Rightarrow> char \<Rightarrow> bool" where
  "is_digit radix c \<longleftrightarrow> digit_value c < radix"

definition digits_value :: "nat \<Rightarrow> string \<Rightarrow> nat" where
  "digits_value radix = foldl (\<lambda>n c. radix * n + digit_value c) 0"

definition power10 :: "int \<Rightarrow> rat" where
  "power10 e = (if 0 \<le> e then 10 ^ nat e else 1 / 10 ^ nat (- e))"

definition starts_with :: "char \<Rightarrow> string \<Rightarrow> bool" where
  "starts_with c s \<longleftrightarrow> s \<noteq> [] \<and> hd s = c"

text \<open>An optional exponent that takes up the rest of the text.\<close>

fun unsigned_int :: "string \<Rightarrow> int option" where
  "unsigned_int s = (if s \<noteq> [] \<and> list_all (is_digit 10) s then Some (int (digits_value 10 s)) else None)"

fun exponent :: "string \<Rightarrow> int option" where
  "exponent [] = Some 0"
| "exponent (c # cs) =
     (if c = CHR ''e'' \<or> c = CHR ''E'' then
        (if starts_with (CHR ''-'') cs then map_option uminus (unsigned_int (tl cs))
         else if starts_with (CHR ''+'') cs then unsigned_int (tl cs)
         else unsigned_int cs)
      else None)"

definition decimal :: "string \<Rightarrow> rat option" where
  "decimal s =
    (let ip = takeWhile (is_digit 10) s; r = dropWhile (is_digit 10) s;
         fp = (if starts_with (CHR ''.'') r then takeWhile (is_digit 10) (tl r) else []);
         r' = (if starts_with (CHR ''.'') r then dropWhile (is_digit 10) (tl r) else r)
     in if ip = [] \<and> fp = [] then None
        else map_option (\<lambda>e. (of_nat (digits_value 10 ip) +
               of_nat (digits_value 10 fp) / 10 ^ length fp) * power10 e) (exponent r'))"

definition max_double :: rat where
  "max_double = 2 ^ 1024 - 2 ^ 970"

definition to_double :: "rat \<Rightarrow> js_num" where
  "to_double q = (if max_double \<le> q then Infinite True
     else if q \<le> - max_double then Infinite False else Finite q)"

definition unsigned_number :: "string \<Rightarrow> js_num" where
  "unsigned_number s =
    (if s = ''Infinity'' then Infinite True
     else (case decimal s of None \<Rightarrow> NaN | Some q \<Rightarrow> to_double q))"

fun negate :: "js_num \<Rightarrow> js_num" where
  "negate NaN = NaN"
| "negate (Infinite b) = Infinite (\<not> b)"
| "negate (Finite q) = Finite (- q)"

definition radix_of :: "char \<Rightarrow> nat option" where
  "radix_of c = (if c \<in> {CHR ''x'', CHR ''X''} then Some 16
     else if c \<in> {CHR ''o'', CHR ''O''} then Some 8
     else if c \<in> {CHR ''b'', CHR ''B''} then Some 2 else None)"

definition radix_number :: "nat \<Rightarrow> string \<Rightarrow> js_num" where
  "radix_number radix ds =
    (if ds \<noteq> [] \<and> list_all (is_digit radix) ds then to_double (of_nat (digits_value radix ds)) else NaN)"

definition js_Number :: "string \<Rightarrow> js_num" where
  "js_Number text =
    (let s = js_trim text
     in if s = [] then Finite 0
        else if starts_with (CHR ''-'') s then negate (unsigned_number (tl s))
        else if starts_with (CHR ''+'') s then unsigned_number (tl s)
        else if starts_with (CHR ''0'') s \<and> tl s \<noteq> [] \<and> radix_of (s ! 1) \<noteq> None
          then radix_number (the (radix_of (s ! 1))) (drop 2 s)
        else unsigned_number s)"

section \<open>Arithmetic\<close>

definition is_finite :: "js_num \<Rightarrow> bool" where
  "is_finite x = (case x of Finite _ \<Rightarrow> True | _ \<Rightarrow> False)"

text \<open>\<open>x || d\<close>: zero and NaN are falsy.\<close>

definition truthy :: "js_num \<Rightarrow> bool" where
  "truthy x \<longleftrightarrow> x \<noteq> NaN \<and> x \<noteq> Finite 0"

definition js_or :: "js_num \<Rightarrow> js_num \<Rightarrow> js_num" where
  "js_or x d = (if truthy x then x else d)"

fun js_less_eq :: "js_num \<Rightarrow> js_num \<Rightarrow> bool" where
  "js_less_eq NaN y = False"
| "js_less_eq x NaN = False"
| "js_less_eq (Infinite False) y = True"
| "js_less_eq x (Infinite True) = True"
| "js_less_eq (Finite p) (Finite q) = (p \<le> q)"
| "js_less_eq x y = False"

definition js_max :: "js_num \<Rightarrow> js_num \<Rightarrow> js_num" where
  "js_max x y = (if x = NaN \<or> y = NaN then NaN else if js_less_eq x y then y else x)"

definition js_min :: "js_num \<Rightarrow> js_num \<Rightarrow> js_num" where
  "js_min x y = (if x = NaN \<or> y = NaN then NaN else if js_less_eq x y then x else y)"

text \<open>\<open>Math.min(hi, Math.max(lo, x || d))\<close> and its first half, as the query parameters are read.\<close>

definition clamp_from :: "rat \<Rightarrow> rat \<Rightarrow> js_num \<Rightarrow> js_num" where
  "clamp_from lo d x = js_max (Finite lo) (js_or x (Finite d))"

definition clamp_between :: "rat \<Rightarrow> rat \<Rightarrow> rat \<Rightarrow> js_num \<Rightarrow> js_num" where
  "clamp_between lo hi d x = js_min (Finite hi) (clamp_from lo d x)"

lemma js_or_not_NaN: "js_or x (Finite d) \<noteq> NaN"
  by (simp add: js_or_def truthy_def)

lemma clamp_from_cases: "(\<exists>q. clamp_from lo d x = Finite q \<and> lo \<le> q) \<or> clamp_from lo d x = Infinite True"
proof (cases "js_or x (Finite d)")
  case NaN
  with js_or_not_NaN show ?thesis by blast
next
  case (Infinite b)
  then show ?thesis by (cases b) (simp_all add: clamp_from_def js_max_def)
next
  case (Finite q)
  then show ?thesis by (simp add: clamp_from_def js_max_def)
qed

lemma clamp_between_cases:
  "lo \<le> hi \<Longrightarrow> \<exists>q. clamp_between lo hi d x = Finite q \<and> lo \<le> q \<and> q \<le> hi"
  using clamp_from_cases [of lo d x] by (auto simp: clamp_between_def js_min_def)

lemma clamp_between_id: "lo \<le> q \<Longrightarrow> q \<le> hi \<Longrightarrow> 0 < lo \<Longrightarrow> clamp_between lo hi d (Finite q) = Finite q"
  by (simp add: clamp_between_def clamp_from_def js_or_def truthy_def js_max_def js_min_def)

lemma clamp_from_id: "lo \<le> q \<Longrightarrow> 0 < lo \<Longrightarrow> clamp_from lo d (Finite q) = Finite q"
  by (simp add: clamp_from_def js_or_def truthy_def js_max_def)

section \<open>Decimal numerals\<close>

text \<open>Number reads back what String wrote.\<close>

lemma digit_char:
  assumes "d < 10"
  shows "digit_value (char_of (48 + d)) = d" and "\<not> is_space (char_of (48 + d))"
    and "char_of (48 + d) \<noteq> CHR ''-''" and "char_of (48 + d) \<noteq> CHR ''+''"
proof -
  have v: "(of_char (char_of (48 + d) :: char) :: nat) = 48 + d"
    using assms mod_less [of "48 + d" 256] by (simp only: of_char_of)
  then show "digit_value (char_of (48 + d)) = d" using assms by (simp add: digit_value_def Let_def)
  show "\<not> is_space (char_of (48 + d))" using v by (simp add: is_space_def)
  have ne: "char_of (48 + d) \<noteq> c" if "(of_char c :: nat) < 48" for c :: char
  proof
    assume "char_of (48 + d) = c"
    with v that show False by simp
  qed
  show "char_of (48 + d) \<noteq> CHR ''-''" by (rule ne) simp
  show "char_of (48 + d) \<noteq> CHR ''+''" by (rule ne) simp
qed

definition numeral_text :: "nat \<Rightarrow> string \<Rightarrow> bool" where
  "numeral_text n s \<longleftrightarrow> s \<noteq> [] \<and> (\<forall>c \<in> set s. \<exists>d < (10::nat). c = char_of (48 + d)) \<and> digits_value 10 s = n"

lemma digits_value_snoc: "digits_value 10 (s @ [char_of (48 + d)]) = 10 * digits_value 10 s + d" if "d < 10"
  using digit_char(1) [OF that] by (simp add: digits_value_def)

lemma show_digits_acc: "show_digits n acc = show_digits n [] @ acc"
proof (induction n arbitrary: acc rule: less_induct)
  case (less n)
  show ?case
  proof (cases "n < 10")
    case False
    then have "n div 10 < n" by simp
    from less.IH [OF this, of "[char_of (48 + n mod 10)]"] less.IH [OF this, of "char_of (48 + n mod 10) # acc"]
    show ?thesis using False by (simp add: show_digits.simps [of n] Let_def)
  qed (simp add: show_digits.simps [of n] Let_def)
qed

lemma show_digits_numeral: "numeral_text n (show_digits n [])"
proof (induction n rule: less_induct)
  case (less n)
  show ?case
  proof (cases "n < 10")
    case True
    with digit_char(1) show ?thesis
      by (auto simp: show_digits.simps [of n] Let_def numeral_text_def digits_value_def)
  next
    case False
    then have "n div 10 < n" by simp
    from less.IH [OF this] have IH: "numeral_text (n div 10) (show_digits (n div 10) [])" .
    have d: "n mod 10 < 10" by simp
    have "show_digits n [] = show_digits (n div 10) [] @ [char_of (48 + n mod 10)]"
      using False show_digits_acc [of "n div 10" "[char_of (48 + n mod 10)]"]
      by (simp add: show_digits.simps [of n] Let_def)
    moreover have "\<exists>d < (10::nat). char_of (48 + n mod 10) = (char_of (48 + d) :: char)"
      using d by blast
    ultimately show ?thesis
      using IH digits_value_snoc [OF d, of "show_digits (n div 10) []"]
      unfolding numeral_text_def by (simp del: char_of_eq_iff)
  qed
qed

lemma numeral_digit: "numeral_text n s \<Longrightarrow> c \<in> set s \<Longrightarrow> is_digit 10 c \<and> \<not> is_space c"
  using digit_char by (fastforce simp: numeral_text_def is_digit_def)

lemma numeral_trim: "numeral_text n s \<Longrightarrow> js_trim s = s"
proof -
  assume a: "numeral_text n s"
  have d: "dropWhile is_space t = t" if "\<forall>c \<in> set t. \<not> is_space c" for t
    using that by (cases t) auto
  have "\<forall>c \<in> set s. \<not> is_space c" using numeral_digit [OF a] by blast
  then show "js_trim s = s" by (simp add: js_trim_def d)
qed

lemma numeral_unsigned:
  assumes "numeral_text n s"
  shows "unsigned_number s = to_double (of_nat n)"
proof -
  have "\<forall>c \<in> set s. is_digit 10 c" using numeral_digit [OF assms] by blast
  then have d: "takeWhile (is_digit 10) s = s" "dropWhile (is_digit 10) s = []" by simp_all
  have "s \<noteq> ''Infinity''"
    using numeral_digit [OF assms, of "CHR ''I''"] by (auto simp: is_digit_def digit_value_def)
  moreover have "digits_value 10 s = n" "s \<noteq> []" using assms by (simp_all add: numeral_text_def)
  moreover have "digits_value 10 [] = 0" by (simp add: digits_value_def)
  ultimately show ?thesis
    by (simp add: d unsigned_number_def decimal_def power10_def starts_with_def Let_def)
qed

lemma radix_digit: "is_digit 10 c \<Longrightarrow> radix_of c = None"
  by (auto simp: radix_of_def is_digit_def digit_value_def)

lemma numeral_Number:
  assumes "numeral_text n s"
  shows "js_Number s = to_double (of_nat n)"
proof -
  have ne: "s \<noteq> []" using assms by (simp add: numeral_text_def)
  then have "hd s \<in> set s" by simp
  then obtain d :: nat where "d < 10" "hd s = char_of (48 + d)"
    using assms unfolding numeral_text_def by blast
  then have sign: "\<not> starts_with (CHR ''-'') s" "\<not> starts_with (CHR ''+'') s"
    using digit_char [of d] by (auto simp: starts_with_def)
  have "radix_of (s ! 1) = None" if "tl s \<noteq> []"
    using numeral_digit [OF assms, of "s ! 1"] radix_digit that by (cases s; cases "tl s") auto
  then show ?thesis
    using sign ne numeral_unsigned [OF assms] by (auto simp: js_Number_def numeral_trim [OF assms] Let_def)
qed

lemma to_double_small: "- (2 ^ 64) < q \<Longrightarrow> q < 2 ^ 64 \<Longrightarrow> to_double q = Finite q"
  by (simp add: to_double_def max_double_def)

lemma Number_show_int: "0 \<le> i \<Longrightarrow> js_Number (show_int i) = to_double (of_int i)"
  using numeral_Number [OF show_digits_numeral [of "nat i"]] by (simp add: show_int_def)

end
