(* ===== verification/Env.thy ===== *)
theory Env
  imports JsNumber
begin

text \<open>
  packages/shared/src/env.ts and the configuration it is read into, services/coordinator/src/
  config.ts. \<open>process.env\<close> is a partial map from names to text; a thrown Error aborts the start of
  the process.
\<close>

section \<open>Reading one variable\<close>

type_synonym environment = "string \<rightharpoonup> string"

definition plain_error :: "string \<Rightarrow> js_value" where
  "plain_error m = ErrorObject ''Error'' m None None None"

definition missing_variable :: "string \<Rightarrow> js_value" where
  "missing_variable name = plain_error (''Missing required environment variable: '' @ name)"

text \<open>\<open>raw === undefined || raw === ''\<close>\<close>

definition unset :: "environment \<Rightarrow> string \<Rightarrow> bool" where
  "unset env name \<longleftrightarrow> env name = None \<or> env name = Some []"

definition fall_back :: "string \<Rightarrow> 'a option \<Rightarrow> js_value + 'a" where
  "fall_back name fallback =
    (case fallback of Some d \<Rightarrow> Inr d | None \<Rightarrow> Inl (missing_variable name))"

definition envStr :: "environment \<Rightarrow> string \<Rightarrow> string option \<Rightarrow> js_value + string" where
  "envStr env name fallback =
    (if \<not> unset env name then Inr (the (env name)) else fall_back name fallback)"

definition envInt :: "environment \<Rightarrow> string \<Rightarrow> rat option \<Rightarrow> js_value + rat" where
  "envInt env name fallback =
    (if unset env name then fall_back name fallback
     else (case js_Number (the (env name)) of
        Finite q \<Rightarrow> Inr q
      | _ \<Rightarrow> Inl (plain_error (''Environment variable '' @ name @ '' must be a number, got \"'' @
               the (env name) @ ''\"''))))"

definition to_lower :: "char \<Rightarrow> char" where
  "to_lower c = (let n = of_char c :: nat in if 65 \<le> n \<and> n \<le> 90 then char_of (n + 32) else c)"

definition envBool :: "environment \<Rightarrow> string \<Rightarrow> bool option \<Rightarrow> js_value + bool" where
  "envBool env name fallback =
    (if unset env name then fall_back name fallback
     else Inr (map to_lower (the (env name)) \<in> {''1'', ''true'', ''yes'', ''on''}))"

section \<open>The coordinator's configuration\<close>

record coordinator_config =
  cfg_port :: rat
  cfg_serviceUrls :: "service_name \<Rightarrow> string"
  cfg_timeoutMs :: rat
  cfg_maxAttempts :: rat
  cfg_baseDelayMs :: rat
  cfg_maxDelayMs :: rat
  cfg_batchSize :: rat
  cfg_concurrency :: rat
  cfg_pollIntervalMs :: rat
  cfg_leaseTtlMs :: rat
  cfg_heartbeatMs :: rat
  cfg_ingestBatchSize :: rat

definition and_then :: "'e + 'a \<Rightarrow> ('a \<Rightarrow> 'e + 'b) \<Rightarrow> 'e + 'b" where
  "and_then r k = (case r of Inl e \<Rightarrow> Inl e | Inr a \<Rightarrow> k a)"

definition config :: "environment \<Rightarrow> js_value + coordinator_config" where
  "config env =
    and_then (envInt env ''COORDINATOR_PORT'' (Some 3000)) (\<lambda>port.
    and_then (envStr env ''ORDER_URL'' (Some ''http://127.0.0.1:3001'')) (\<lambda>u1.
    and_then (envStr env ''INVENTORY_URL'' (Some ''http://127.0.0.1:3002'')) (\<lambda>u2.
    and_then (envStr env ''PAYMENT_URL'' (Some ''http://127.0.0.1:3003'')) (\<lambda>u3.
    and_then (envStr env ''SHIPPING_URL'' (Some ''http://127.0.0.1:3004'')) (\<lambda>u4.
    and_then (envInt env ''STEP_TIMEOUT_MS'' (Some 3000)) (\<lambda>timeoutMs.
    and_then (envInt env ''STEP_MAX_ATTEMPTS'' (Some 3)) (\<lambda>maxAttempts.
    and_then (envInt env ''STEP_BASE_DELAY_MS'' (Some 100)) (\<lambda>baseDelayMs.
    and_then (envInt env ''STEP_MAX_DELAY_MS'' (Some 2000)) (\<lambda>maxDelayMs.
    and_then (envInt env ''CLAIM_BATCH_SIZE'' (Some 50)) (\<lambda>batchSize.
    and_then (envInt env ''ORDER_CONCURRENCY'' (Some 25)) (\<lambda>concurrency.
    and_then (envInt env ''POLL_INTERVAL_MS'' (Some 500)) (\<lambda>pollIntervalMs.
    and_then (envInt env ''LEASE_TTL_MS'' (Some 60000)) (\<lambda>leaseTtlMs.
    and_then (envInt env ''LEASE_HEARTBEAT_MS'' (Some 20000)) (\<lambda>heartbeatMs.
    and_then (envInt env ''INGEST_BATCH_SIZE'' (Some 500)) (\<lambda>ingestBatchSize.
      Inr \<lparr>cfg_port = port,
        cfg_serviceUrls = (\<lambda>s. case s of order_svc \<Rightarrow> u1 | inventory_svc \<Rightarrow> u2 | payment_svc \<Rightarrow> u3
          | shipping_svc \<Rightarrow> u4),
        cfg_timeoutMs = timeoutMs, cfg_maxAttempts = maxAttempts, cfg_baseDelayMs = baseDelayMs,
        cfg_maxDelayMs = maxDelayMs, cfg_batchSize = batchSize, cfg_concurrency = concurrency,
        cfg_pollIntervalMs = pollIntervalMs, cfg_leaseTtlMs = leaseTtlMs,
        cfg_heartbeatMs = heartbeatMs, cfg_ingestBatchSize = ingestBatchSize\<rparr>)))))))))))))))"

text \<open>The variables that must be numbers when they are set.\<close>

definition numeric_variables :: "string list" where
  "numeric_variables = [''COORDINATOR_PORT'', ''STEP_TIMEOUT_MS'', ''STEP_MAX_ATTEMPTS'',
     ''STEP_BASE_DELAY_MS'', ''STEP_MAX_DELAY_MS'', ''CLAIM_BATCH_SIZE'', ''ORDER_CONCURRENCY'',
     ''POLL_INTERVAL_MS'', ''LEASE_TTL_MS'', ''LEASE_HEARTBEAT_MS'', ''INGEST_BATCH_SIZE'']"

definition number_ok :: "environment \<Rightarrow> string \<Rightarrow> bool" where
  "number_ok env name \<longleftrightarrow> unset env name \<or> is_finite (js_Number (the (env name)))"

lemma envStr_fallback: "\<exists>s. envStr env name (Some d) = Inr s"
  by (simp add: envStr_def fall_back_def)

lemma envInt_fallback: "(\<exists>q. envInt env name (Some d) = Inr q) \<longleftrightarrow> number_ok env name"
  by (auto simp: envInt_def fall_back_def number_ok_def is_finite_def split: js_num.splits)

lemma envInt_numeral:
  "env name = Some (show_int n) \<Longrightarrow> 0 \<le> n \<Longrightarrow> n < 2 ^ 64 \<Longrightarrow> envInt env name d = Inr (of_int n)"
proof -
  assume a: "env name = Some (show_int n)" "0 \<le> n" "n < 2 ^ 64"
  have "show_int n \<noteq> []"
    using show_digits_numeral [of "nat n"] a(2) by (simp add: show_int_def numeral_text_def)
  moreover have "(of_int n :: rat) < of_int (2 ^ 64)" using a(3) by (simp only: of_int_less_iff)
  ultimately show ?thesis
    using a Number_show_int [OF a(2)] to_double_small [of "of_int n"]
    by (simp add: envInt_def unset_def)
qed

lemma and_then_Inr: "(\<exists>b. and_then r k = Inr b) \<longleftrightarrow> (\<exists>a. r = Inr a \<and> (\<exists>b. k a = Inr b))"
  by (cases r) (auto simp: and_then_def)

text \<open>
  The coordinator starts exactly when every numeric variable that is set and not empty reads
  as a finite number: a bad value crashes at startup, a missing one never does.
\<close>

theorem config_total:
  "(\<exists>c. config env = Inr c) \<longleftrightarrow> list_all (number_ok env) numeric_variables"
proof -
  have str: "(\<exists>a. envStr env name (Some d) = Inr a) = True" for name d
    using envStr_fallback by blast
  show ?thesis
    by (simp add: config_def and_then_Inr str envInt_fallback numeric_variables_def conj_assoc)
qed

end
