(* ===== verification/Db.thy ===== *)
theory Db
  imports Errors
begin

text \<open>
  withTransaction of packages/shared/src/db.ts. The transactional state is the type 's; a rollback
  gives back the state the attempt began with. What the server does (a refused connection, a
  failing BEGIN, the fate of COMMIT, and the work other transactions commit between two attempts)
  is an argument, indexed by the attempt, as is the work, which may meet a deadlock on one attempt
  and not on the next. A COMMIT may throw without having committed, or after it has (the connection
  died before the acknowledgement).
\<close>

datatype commit_result = Committed | NotCommitted js_value | AckLost js_value

record 's tx_env =
  getConnection :: "nat \<Rightarrow> js_value option"
  beginTransaction :: "nat \<Rightarrow> js_value option"
  commit :: "nat \<Rightarrow> commit_result"
  interfere :: "nat \<Rightarrow> 's \<Rightarrow> 's"

text \<open>The try block of one attempt: BEGIN, the work, COMMIT; a throw rolls back.\<close>

definition tx_attempt ::
  "'s tx_env \<Rightarrow> (nat \<Rightarrow> ('s, js_value, 'a) act) \<Rightarrow> nat \<Rightarrow> ('s, js_value, 'a) act" where
  "tx_attempt env fn n = (\<lambda>s.
    case beginTransaction env n of
      Some e \<Rightarrow> (Inl e, s)
    | None \<Rightarrow>
        (case fn n s of
          (Inl e, _) \<Rightarrow> (Inl e, s)
        | (Inr a, s') \<Rightarrow>
            (case commit env n of
              Committed \<Rightarrow> (Inr a, s')
            | NotCommitted e \<Rightarrow> (Inl e, s)
            | AckLost e \<Rightarrow> (Inl e, s'))))"

function withTransaction_from ::
  "'s tx_env \<Rightarrow> nat \<Rightarrow> (nat \<Rightarrow> ('s, js_value, 'a) act) \<Rightarrow> nat \<Rightarrow> ('s, js_value, 'a) act" where
  "withTransaction_from env maxDeadlockRetries fn n s =
    (case getConnection env n of
       Some e \<Rightarrow> (Inl e, s)
     | None \<Rightarrow>
        (case tx_attempt env fn n s of
          (Inr a, s') \<Rightarrow> (Inr a, s')
        | (Inl e, s') \<Rightarrow>
            if isDeadlockError e \<and> n < maxDeadlockRetries
            then withTransaction_from env maxDeadlockRetries fn (Suc n) (interfere env n s')
            else (Inl e, s')))"
  by pat_completeness auto
termination
  by (relation "measure (\<lambda>(env, m, fn, n, s). m - n)") auto

declare withTransaction_from.simps [simp del]

definition withTransaction ::
  "'s tx_env \<Rightarrow> nat \<Rightarrow> (nat \<Rightarrow> ('s, js_value, 'a) act) \<Rightarrow> ('s, js_value, 'a) act" where
  "withTransaction env maxDeadlockRetries fn = withTransaction_from env maxDeadlockRetries fn 1"

definition default_deadlock_retries :: nat where
  "default_deadlock_retries = 3"

text \<open>A quiet server: nothing fails and nobody interferes.\<close>

definition quiet_tx :: "'s tx_env" where
  "quiet_tx = \<lparr>getConnection = (\<lambda>_. None), beginTransaction = (\<lambda>_. None), commit = (\<lambda>_. Committed),
    interfere = (\<lambda>_ s. s)\<rparr>"

lemma withTransaction_quiet_Inr:
  "fn s = (Inr a, s') \<Longrightarrow> withTransaction quiet_tx m (\<lambda>_. fn) s = (Inr a, s')"
  by (simp add: withTransaction_def withTransaction_from.simps tx_attempt_def quiet_tx_def)

lemma tx_attempt_atomic:
  "tx_attempt env fn n s = (r, s') \<Longrightarrow>
    s' = s \<or> (\<exists>a. fn n s = (Inr a, s') \<and> (r = Inr a \<or> (\<exists>e. commit env n = AckLost e \<and> r = Inl e)))"
  by (auto simp: tx_attempt_def split: option.splits prod.splits sum.splits commit_result.splits)

lemma tx_attempt_Inl:
  assumes "tx_attempt env fn n s = (Inl e, s')" and "\<And>e. commit env n \<noteq> AckLost e"
  shows "s' = s"
  using assms
  by (auto simp: tx_attempt_def split: option.splits prod.splits sum.splits commit_result.splits)

lemma tx_attempt_Inr:
  "tx_attempt env fn n s = (Inr a, s') \<longleftrightarrow>
    beginTransaction env n = None \<and> fn n s = (Inr a, s') \<and> commit env n = Committed"
  by (auto simp: tx_attempt_def split: option.splits prod.splits sum.splits commit_result.splits)

text \<open>All attempts but the last end in a deadlock and leave only what others committed.\<close>

lemma withTransaction_from_atomic:
  assumes "withTransaction_from env m fn n s = (r, s')" and "1 \<le> n" and "n \<le> m"
    and "\<And>k e. commit env k \<noteq> AckLost e" and "\<And>k t. interfere env k t = t"
  shows "(case r of Inl e \<Rightarrow> s' = s
                 | Inr a \<Rightarrow> \<exists>k. n \<le> k \<and> k \<le> m \<and> fn k s = (Inr a, s') \<and>
                      (\<forall>j. n \<le> j \<and> j < k \<longrightarrow>
                         (\<exists>e. tx_attempt env fn j s = (Inl e, s) \<and> isDeadlockError e)))"
  using assms
proof (induction env m fn n s rule: withTransaction_from.induct)
  case (1 env m fn n s)
  note prems = "1.prems"
  show ?case
  proof (cases "getConnection env n")
    case (Some e)
    with prems(1) show ?thesis by (auto simp: withTransaction_from.simps)
  next
    case None
    obtain q t where att: "tx_attempt env fn n s = (q, t)" by fastforce
    show ?thesis
    proof (cases q)
      case (Inr a)
      with att prems(1) None have "r = Inr a" "s' = t"
        by (auto simp: withTransaction_from.simps [of env m fn n s])
      moreover from att Inr have "fn n s = (Inr a, t)" by (simp add: tx_attempt_Inr)
      ultimately show ?thesis using prems(3) by auto
    next
      case (Inl e)
      with att prems(4) have t: "t = s" by (auto dest: tx_attempt_Inl)
      show ?thesis
      proof (cases "isDeadlockError e \<and> n < m")
        case False
        with att Inl None prems(1) t show ?thesis
          by (auto simp: withTransaction_from.simps [of env m fn n s])
      next
        case True
        with att Inl None prems(1,5) t have rec: "withTransaction_from env m fn (Suc n) s = (r, s')"
          by (simp add: withTransaction_from.simps [of env m fn n s])
        have IH: "case r of Inl e \<Rightarrow> s' = s
                 | Inr a \<Rightarrow> \<exists>k. Suc n \<le> k \<and> k \<le> m \<and> fn k s = (Inr a, s') \<and>
                      (\<forall>j. Suc n \<le> j \<and> j < k \<longrightarrow>
                         (\<exists>e. tx_attempt env fn j s = (Inl e, s) \<and> isDeadlockError e))"
          using "1.IH" [OF None att [symmetric], of e] Inl True rec prems(2,4,5) t
          by (cases r) (auto simp: prems(5))
        from att Inl t True have here: "\<exists>e. tx_attempt env fn n s = (Inl e, s) \<and> isDeadlockError e"
          by auto
        show ?thesis
        proof (cases r)
          case (Inl e)
          with IH show ?thesis by simp
        next
          case (Inr a)
          with IH obtain k where "Suc n \<le> k" "k \<le> m" "fn k s = (Inr a, s')"
            "\<forall>j. Suc n \<le> j \<and> j < k \<longrightarrow> (\<exists>e. tx_attempt env fn j s = (Inl e, s) \<and> isDeadlockError e)"
            by auto
          with here Inr show ?thesis
            by (auto intro!: exI [of _ k]) (metis Suc_leI le_neq_implies_less)
        qed
      qed
    qed
  qed
qed


definition deadlocks_twice :: "nat \<Rightarrow> (nat, js_value, nat) act" where
  "deadlocks_twice n s =
    (if n < 3 then (Inl (ErrorObject ''Error'' ''Deadlock found'' (Some 1213) None None), s + 10)
     else (Inr n, s + 1))"


end
