(* ===== verification/Retry.thy ===== *)
theory Retry
  imports Errors
begin

text \<open>
  packages/shared/src/retry.ts. The called function, the \<open>onAttempt\<close> callback, the sleep, the
  random source and the clock all act on a state type 's, so one definition serves the coordinator
  (whose state is the database and the services) and any test. The jitter factor is a rational in
  place of a double: the product with the cap and the floor are exact here.
\<close>

record attempt_info =
  ai_attempt :: nat
  ai_startedAt :: int
  ai_finishedAt :: int
  ai_durationMs :: int
  ai_outcome :: attempt_outcome
  ai_error :: "js_value option"
  ai_willRetry :: bool

record 's retry_options =
  maxAttempts :: nat
  baseDelayMs :: nat
  maxDelayMs :: nat
  isRetryable :: "js_value \<Rightarrow> bool"
  onAttempt :: "attempt_info \<Rightarrow> ('s, js_value, unit) act"
  sleep :: "int \<Rightarrow> 's \<Rightarrow> 's"
  random :: "'s \<Rightarrow> rat \<times> 's"
  clock :: "'s \<Rightarrow> int"

definition backoffCap :: "nat \<Rightarrow> nat \<Rightarrow> nat \<Rightarrow> nat" where
  "backoffCap attempt base maxDelay = min maxDelay (base * 2 ^ (attempt - 1))"

definition backoffDelay :: "nat \<Rightarrow> nat \<Rightarrow> nat \<Rightarrow> rat \<Rightarrow> int" where
  "backoffDelay attempt base maxDelay r = \<lfloor>r * of_nat (backoffCap attempt base maxDelay)\<rfloor>"

definition attempt_failure :: "js_value \<Rightarrow> attempt_outcome" where
  "attempt_failure e =
     (case e of StepTimeoutError _ \<Rightarrow> A_TIMEOUT | _ \<Rightarrow> if is_abort e then A_TIMEOUT else A_FAILED)"

text \<open>How one turn of the loop ends: a return, a throw, or another turn after \<open>lastError\<close>.\<close>

datatype ('s, 'a) turn = Returned 'a 's | Thrown js_value 's | Again js_value 's

definition retry_catch ::
  "'s retry_options \<Rightarrow> nat \<Rightarrow> int \<Rightarrow> js_value \<Rightarrow> 's \<Rightarrow> ('s, 'a) turn" where
  "retry_catch opts attempt startedAt err s =
    (let finishedAt = clock opts s;
         willRetry = (attempt < maxAttempts opts \<and> isRetryable opts err)
     in case onAttempt opts
            \<lparr>ai_attempt = attempt, ai_startedAt = startedAt, ai_finishedAt = finishedAt,
             ai_durationMs = finishedAt - startedAt, ai_outcome = attempt_failure err,
             ai_error = Some err, ai_willRetry = willRetry\<rparr> s of
          (Inl e, s1) \<Rightarrow> Thrown e s1
        | (Inr _, s1) \<Rightarrow>
            if \<not> willRetry then Thrown err s1
            else (case random opts s1 of (r, s2) \<Rightarrow>
                    Again err (sleep opts (backoffDelay attempt (baseDelayMs opts) (maxDelayMs opts) r) s2)))"

definition retry_turn ::
  "(nat \<Rightarrow> ('s, js_value, 'a) act) \<Rightarrow> 's retry_options \<Rightarrow> nat \<Rightarrow> 's \<Rightarrow> ('s, 'a) turn" where
  "retry_turn fn opts attempt s =
    (let startedAt = clock opts s
     in case fn attempt s of
          (Inl err, s1) \<Rightarrow> retry_catch opts attempt startedAt err s1
        | (Inr result, s1) \<Rightarrow>
            (let finishedAt = clock opts s1
             in case onAttempt opts
                    \<lparr>ai_attempt = attempt, ai_startedAt = startedAt, ai_finishedAt = finishedAt,
                     ai_durationMs = finishedAt - startedAt, ai_outcome = A_SUCCEEDED,
                     ai_error = None, ai_willRetry = False\<rparr> s1 of
                  (Inr _, s2) \<Rightarrow> Returned result s2
                | (Inl err, s2) \<Rightarrow> retry_catch opts attempt startedAt err s2))"

function retry_loop ::
  "(nat \<Rightarrow> ('s, js_value, 'a) act) \<Rightarrow> 's retry_options \<Rightarrow> nat \<Rightarrow> js_value \<Rightarrow> ('s, js_value, 'a) act"
where
  "retry_loop fn opts attempt lastError s =
    (if attempt \<le> maxAttempts opts then
       (case retry_turn fn opts attempt s of
          Returned a s' \<Rightarrow> (Inr a, s')
        | Thrown e s' \<Rightarrow> (Inl e, s')
        | Again e s' \<Rightarrow> retry_loop fn opts (Suc attempt) e s')
     else (Inl lastError, s))"
  by pat_completeness auto
termination
  by (relation "measure (\<lambda>(fn, opts, attempt, e, s). Suc (maxAttempts opts) - attempt)") auto

declare retry_loop.simps [simp del]

definition withRetry ::
  "(nat \<Rightarrow> ('s, js_value, 'a) act) \<Rightarrow> 's retry_options \<Rightarrow> ('s, js_value, 'a) act" where
  "withRetry fn opts = retry_loop fn opts 1 (Primitive ''undefined'')"

section \<open>Backoff\<close>

lemma backoffCap_le: "backoffCap attempt base maxDelay \<le> maxDelay"
  by (simp add: backoffCap_def)



section \<open>The loop\<close>

text \<open>One turn, described by what it did to the state and the audit record it wrote last.\<close>

lemma retry_loop_past: "maxAttempts opts < attempt \<Longrightarrow> retry_loop fn opts attempt e s = (Inl e, s)"
  by (simp add: retry_loop.simps)

lemma retry_loop_turn:
  "attempt \<le> maxAttempts opts \<Longrightarrow> retry_loop fn opts attempt e s =
    (case retry_turn fn opts attempt s of
       Returned a s' \<Rightarrow> (Inr a, s') | Thrown e s' \<Rightarrow> (Inl e, s')
     | Again e s' \<Rightarrow> retry_loop fn opts (Suc attempt) e s')"
  by (simp add: retry_loop.simps)

lemma retry_catch_Again:
  "retry_catch opts attempt t err s = Again e s' \<Longrightarrow>
    attempt < maxAttempts opts \<and> isRetryable opts err \<and> e = err"
  by (auto simp: retry_catch_def Let_def split: prod.splits sum.splits if_splits)

lemma retry_catch_not_Returned [simp]: "retry_catch opts attempt t err s \<noteq> Returned a s'"
  by (auto simp: retry_catch_def Let_def split: prod.splits sum.splits)

lemma retry_turn_Again: "retry_turn fn opts attempt s = Again e s' \<Longrightarrow> attempt < maxAttempts opts"
  by (auto simp: retry_turn_def Let_def dest: retry_catch_Again split: prod.splits sum.splits)

lemma retry_turn_Returned:
  "retry_turn fn opts attempt s = Returned a s' \<Longrightarrow>
    \<exists>s1 i. fn attempt s = (Inr a, s1) \<and> ai_outcome i = A_SUCCEEDED \<and> ai_attempt i = attempt \<and>
      onAttempt opts i s1 = (Inr (), s')"
  by (auto simp: retry_turn_def Let_def split: prod.splits sum.splits)
     (rule exI, rule conjI [rotated], rule conjI [rotated], assumption, simp_all)

text \<open>
  The loop keeps a predicate that every function it calls keeps.
\<close>

lemma retry_catch_preserves:
  assumes "\<And>i. preserves P (onAttempt opts i)" and "\<And>d s. P s \<Longrightarrow> P (sleep opts d s)"
    and "\<And>s. P s \<Longrightarrow> P (snd (random opts s))" and "P s"
  shows "case retry_catch opts attempt t err s of
           Returned a s' \<Rightarrow> P s' | Thrown e s' \<Rightarrow> P s' | Again e s' \<Rightarrow> P s'"
proof -
  define i where "i = \<lparr>ai_attempt = attempt, ai_startedAt = t, ai_finishedAt = clock opts s,
    ai_durationMs = clock opts s - t, ai_outcome = attempt_failure err, ai_error = Some err,
    ai_willRetry = (attempt < maxAttempts opts \<and> isRetryable opts err)\<rparr>"
  obtain r s1 where on: "onAttempt opts i s = (r, s1)" by fastforce
  with assms(1,4) have P1: "P s1" by (auto dest: preservesD)
  obtain q s2 where rd: "random opts s1 = (q, s2)" by fastforce
  with assms(3) [OF P1] have "P s2" by simp
  with P1 on rd assms(2) show ?thesis
    by (cases r) (auto simp: retry_catch_def Let_def i_def)
qed

lemma retry_turn_after:
  assumes f: "fn attempt s = (r, s1)" and P1: "P s1"
    and on: "\<And>i. preserves P (onAttempt opts i)" and "\<And>d s. P s \<Longrightarrow> P (sleep opts d s)"
    and "\<And>s. P s \<Longrightarrow> P (snd (random opts s))"
  shows "case retry_turn fn opts attempt s of
           Returned a s' \<Rightarrow> P s' | Thrown e s' \<Rightarrow> P s' | Again e s' \<Rightarrow> P s'"
proof -
  define i where "i = \<lparr>ai_attempt = attempt, ai_startedAt = clock opts s, ai_finishedAt = clock opts s1,
    ai_durationMs = clock opts s1 - clock opts s, ai_outcome = A_SUCCEEDED, ai_error = None,
    ai_willRetry = False\<rparr>"
  obtain q s2 where on2: "onAttempt opts i s1 = (q, s2)" by fastforce
  with on P1 have P2: "P s2" by (auto dest: preservesD)
  have C: "case retry_catch opts attempt t err q of
           Returned a s' \<Rightarrow> P s' | Thrown e s' \<Rightarrow> P s' | Again e s' \<Rightarrow> P s'" if "P q" for t err q
    by (rule retry_catch_preserves) (use assms that in auto)
  show ?thesis
  proof (cases r)
    case (Inl e)
    with f C [OF P1] show ?thesis by (simp add: retry_turn_def Let_def)
  next
    case (Inr a)
    with f on2 P2 C [OF P2] show ?thesis
      by (cases q) (simp_all add: retry_turn_def Let_def i_def)
  qed
qed

lemma retry_turn_preserves:
  assumes "\<And>n. preserves P (fn n)"
    and "\<And>i. preserves P (onAttempt opts i)" and "\<And>d s. P s \<Longrightarrow> P (sleep opts d s)"
    and "\<And>s. P s \<Longrightarrow> P (snd (random opts s))" and "P s"
  shows "case retry_turn fn opts attempt s of
           Returned a s' \<Rightarrow> P s' | Thrown e s' \<Rightarrow> P s' | Again e s' \<Rightarrow> P s'"
proof -
  obtain r s1 where f: "fn attempt s = (r, s1)" by fastforce
  with assms(1,5) have "P s1" by (auto dest: preservesD)
  from retry_turn_after [where P = P and fn = fn, OF f this assms(2,3,4)] show ?thesis .
qed

lemma retry_loop_preserves:
  assumes "\<And>n. preserves P (fn n)"
    and "\<And>i. preserves P (onAttempt opts i)" and "\<And>d s. P s \<Longrightarrow> P (sleep opts d s)"
    and "\<And>s. P s \<Longrightarrow> P (snd (random opts s))"
  shows "preserves P (retry_loop fn opts attempt e)"
proof (rule preservesI)
  fix s assume "P s"
  then show "P (snd (retry_loop fn opts attempt e s))"
    using assms
  proof (induction fn opts attempt e s rule: retry_loop.induct)
    case (1 fn opts attempt e s)
    have T: "case retry_turn fn opts attempt s of
           Returned a s' \<Rightarrow> P s' | Thrown e s' \<Rightarrow> P s' | Again e s' \<Rightarrow> P s'"
      by (rule retry_turn_preserves) (use "1.prems" in auto)
    show ?case
    proof (cases "attempt \<le> maxAttempts opts")
      case True
      with T "1.IH" [OF True] "1.prems" show ?thesis
        by (cases "retry_turn fn opts attempt s") (auto simp: retry_loop_turn)
    next
      case False
      with "1.prems" show ?thesis by (simp add: retry_loop_past)
    qed
  qed
qed

text \<open>What the first call establishes, whether it succeeds or not, holds in the end.\<close>

lemma retry_loop_reaches:
  assumes "attempt \<le> maxAttempts opts" and "P (snd (fn attempt s))"
    and keep: "\<And>n. preserves P (fn n)" "\<And>i. preserves P (onAttempt opts i)"
      "\<And>d s. P s \<Longrightarrow> P (sleep opts d s)" "\<And>s. P s \<Longrightarrow> P (snd (random opts s))"
  shows "P (snd (retry_loop fn opts attempt e s))"
proof -
  obtain r s1 where f: "fn attempt s = (r, s1)" by fastforce
  with assms(2) have "P s1" by simp
  note T = retry_turn_after [where P = P and fn = fn, OF f this keep(2,3,4)]
  have L: "preserves P (retry_loop fn opts (Suc attempt) e')" for e'
    by (rule retry_loop_preserves) (use keep in auto)
  from T assms(1) show ?thesis
    by (cases "retry_turn fn opts attempt s") (use L in \<open>auto simp: retry_loop_turn preserves_def\<close>)
qed

lemma withRetry_preserves [preserves_intro]:
  assumes "\<And>n. preserves P (fn n)"
    and "\<And>i. preserves P (onAttempt opts i)" and "\<And>d s. P s \<Longrightarrow> P (sleep opts d s)"
    and "\<And>s. P s \<Longrightarrow> P (snd (random opts s))"
  shows "preserves P (withRetry fn opts)"
  unfolding withRetry_def by (rule retry_loop_preserves) (use assms in auto)

text \<open>What holds after a successful call of the function holds after the retries.\<close>

lemma retry_loop_Inr:
  assumes "\<And>n s a s'. P s \<Longrightarrow> fn n s = (Inr a, s') \<Longrightarrow> Q s'" and "\<And>i. preserves Q (onAttempt opts i)"
    and "\<And>n. preserves P (fn n)" and "\<And>i. preserves P (onAttempt opts i)"
    and "\<And>d s. P s \<Longrightarrow> P (sleep opts d s)" and "\<And>s. P s \<Longrightarrow> P (snd (random opts s))"
    and "P s" and "retry_loop fn opts attempt e s = (Inr a, s')"
  shows "Q s'"
  using assms
proof (induction fn opts attempt e s rule: retry_loop.induct)
  case (1 fn opts attempt e s)
  note prems = "1.prems"
  have le: "attempt \<le> maxAttempts opts" using prems(8) by (cases "attempt \<le> maxAttempts opts") (simp_all add: retry_loop_past)
  show ?case
  proof (cases "retry_turn fn opts attempt s")
    case (Returned b s1)
    with le prems(8) have "b = a" "s1 = s'" by (simp_all add: retry_loop_turn)
    with retry_turn_Returned [OF Returned] obtain s0 i where
      "fn attempt s = (Inr a, s0)" "onAttempt opts i s0 = (Inr (), s')" by auto
    with prems(1,2,7) show ?thesis by (metis preservesD)
  next
    case (Thrown e' s1)
    with le prems(8) show ?thesis by (simp add: retry_loop_turn)
  next
    case (Again e' s1)
    have "case retry_turn fn opts attempt s of Returned a s' \<Rightarrow> P s' | Thrown e s' \<Rightarrow> P s' | Again e s' \<Rightarrow> P s'"
      by (rule retry_turn_preserves [OF prems(3,4,5,6,7)])
    with Again have "P s1" by simp
    moreover have "retry_loop fn opts (Suc attempt) e' s1 = (Inr a, s')"
      using le prems(8) Again by (simp add: retry_loop_turn)
    ultimately show ?thesis using "1.IH" [OF le Again] prems(1-6) by blast
  qed
qed

lemma withRetry_first_success:
  assumes "0 < maxAttempts opts" and "fn 1 s = (Inr a, s1)"
    and "\<And>i. onAttempt opts i s1 = (Inr (), s2 i)"
  shows "fst (withRetry fn opts s) = Inr a"
  using assms by (simp add: withRetry_def retry_loop_turn retry_turn_def Let_def)

section \<open>The audit trail of a call\<close>

text \<open>
  What the callback sees from attempt \<open>n\<close> on, for a call that ends in \<open>r\<close>: one record per
  attempt, numbered without a gap and at most \<open>maxAttempts\<close>; every record but the last is a
  retryable failure that announces a retry; the last announces none and carries the outcome.
\<close>

definition audit_from ::
  "'s retry_options \<Rightarrow> nat \<Rightarrow> attempt_info list \<Rightarrow> js_value + 'a \<Rightarrow> bool" where
  "audit_from opts n is r \<longleftrightarrow>
     is \<noteq> [] \<and> map ai_attempt is = [n..<n + length is] \<and> n + length is \<le> Suc (maxAttempts opts) \<and>
     (\<forall>i \<in> set (butlast is). ai_willRetry i \<and> ai_outcome i \<noteq> A_SUCCEEDED \<and>
        (\<exists>e. ai_error i = Some e \<and> isRetryable opts e)) \<and>
     \<not> ai_willRetry (last is) \<and>
     (case r of
        Inr _ \<Rightarrow> ai_outcome (last is) = A_SUCCEEDED \<and> ai_error (last is) = None
      | Inl e \<Rightarrow> ai_error (last is) = Some e \<and> ai_outcome (last is) = attempt_failure e \<and>
          (n + length is = Suc (maxAttempts opts) \<or> \<not> isRetryable opts e))"

lemma attempt_failure_not_succeeded [simp]: "attempt_failure e \<noteq> A_SUCCEEDED"
  by (cases e) (simp_all add: attempt_failure_def)

lemma audit_from_single_ok:
  "ai_attempt i = n \<Longrightarrow> n \<le> maxAttempts opts \<Longrightarrow> \<not> ai_willRetry i \<Longrightarrow>
    ai_outcome i = A_SUCCEEDED \<Longrightarrow> ai_error i = None \<Longrightarrow> audit_from opts n [i] (Inr a)"
  by (simp add: audit_from_def)

lemma audit_from_single_fail:
  "ai_attempt i = n \<Longrightarrow> n \<le> maxAttempts opts \<Longrightarrow> \<not> ai_willRetry i \<Longrightarrow>
    ai_outcome i = attempt_failure e \<Longrightarrow> ai_error i = Some e \<Longrightarrow>
    n = maxAttempts opts \<or> \<not> isRetryable opts e \<Longrightarrow> audit_from opts n [i] (Inl e)"
  by (auto simp: audit_from_def)

lemma audit_from_Cons:
  assumes "ai_attempt i = n" and "ai_willRetry i" and "ai_outcome i \<noteq> A_SUCCEEDED"
    and "ai_error i = Some e" and "isRetryable opts e" and "audit_from opts (Suc n) is r"
  shows "audit_from opts n (i # is) r"
proof -
  have "[n..<n + length (i # is)] = n # [Suc n..<Suc n + length is]"
    by (simp add: upt_conv_Cons del: upt_Suc)
  with assms show ?thesis by (cases r) (auto simp: audit_from_def simp del: upt_Suc)
qed

text \<open>A callback that never throws and appends its argument to the trail the state holds.\<close>

definition records_audit :: "('s \<Rightarrow> attempt_info list) \<Rightarrow> 's retry_options \<Rightarrow> bool" where
  "records_audit trail opts \<longleftrightarrow>
     (\<forall>i s. fst (onAttempt opts i s) = Inr () \<and> trail (snd (onAttempt opts i s)) = trail s @ [i]) \<and>
     (\<forall>d s. trail (sleep opts d s) = trail s) \<and> (\<forall>s. trail (snd (random opts s)) = trail s)"

lemma retry_turn_audit:
  assumes "records_audit trail opts" and "\<And>n s. trail (snd (fn n s)) = trail s"
    and n: "n \<le> maxAttempts opts"
  shows "case retry_turn fn opts n s of
      Returned a s' \<Rightarrow> \<exists>i. trail s' = trail s @ [i] \<and> audit_from opts n [i] (Inr a :: js_value + 'a)
    | Thrown e s' \<Rightarrow> \<exists>i. trail s' = trail s @ [i] \<and> audit_from opts n [i] (Inl e :: js_value + 'a)
    | Again e s' \<Rightarrow> \<exists>i. trail s' = trail s @ [i] \<and> ai_attempt i = n \<and> ai_willRetry i \<and>
        ai_outcome i \<noteq> A_SUCCEEDED \<and> ai_error i = Some e \<and> isRetryable opts e"
proof -
  obtain r s1 where f: "fn n s = (r, s1)" by fastforce
  with assms(2) [of n s] have t1: "trail s1 = trail s" by simp
  let ?ok = "\<lparr>ai_attempt = n, ai_startedAt = clock opts s, ai_finishedAt = clock opts s1,
    ai_durationMs = clock opts s1 - clock opts s, ai_outcome = A_SUCCEEDED, ai_error = None,
    ai_willRetry = False\<rparr>"
  let ?ko = "\<lambda>e. \<lparr>ai_attempt = n, ai_startedAt = clock opts s, ai_finishedAt = clock opts s1,
    ai_durationMs = clock opts s1 - clock opts s, ai_outcome = attempt_failure e, ai_error = Some e,
    ai_willRetry = (n < maxAttempts opts \<and> isRetryable opts e)\<rparr>"
  have on: "\<exists>q. onAttempt opts i s1 = (Inr (), q) \<and> trail q = trail s @ [i]" for i
    using assms(1) t1 unfolding records_audit_def by (metis prod.collapse)
  show ?thesis
  proof (cases r)
    case (Inr a)
    obtain q where "onAttempt opts ?ok s1 = (Inr (), q)" and tr: "trail q = trail s @ [?ok]"
      using on by blast
    then have "retry_turn fn opts n s = Returned a q"
      using f Inr by (simp add: retry_turn_def Let_def)
    then show ?thesis using tr n by (auto intro!: audit_from_single_ok)
  next
    case (Inl e)
    obtain q where q: "onAttempt opts (?ko e) s1 = (Inr (), q)" and tr: "trail q = trail s @ [?ko e]"
      using on by blast
    obtain x q' where rd: "random opts q = (x, q')" by fastforce
    have T: "retry_turn fn opts n s = (if n < maxAttempts opts \<and> isRetryable opts e
        then Again e (sleep opts (backoffDelay n (baseDelayMs opts) (maxDelayMs opts) x) q')
        else Thrown e q)"
      using f Inl q rd by (simp add: retry_turn_def retry_catch_def Let_def)
    have "trail q' = trail q" using assms(1) rd unfolding records_audit_def by (metis snd_conv)
    show ?thesis
    proof (cases "n < maxAttempts opts \<and> isRetryable opts e")
      case True
      with T tr \<open>trail q' = trail q\<close> assms(1) show ?thesis by (simp add: records_audit_def)
    next
      case False
      then have "audit_from opts n [?ko e] (Inl e :: js_value + 'a)"
        using n by (intro audit_from_single_fail) auto
      with T tr False show ?thesis by auto
    qed
  qed
qed

lemma retry_loop_audit:
  assumes "records_audit trail opts" and "\<And>n s. trail (snd (fn n s)) = trail s"
    and "n \<le> maxAttempts opts" and "retry_loop fn opts n e s = (r, s')"
  shows "\<exists>is. trail s' = trail s @ is \<and> audit_from opts n is r"
  using assms
proof (induction fn opts n e s rule: retry_loop.induct)
  case (1 fn opts n e s)
  note T = retry_turn_audit [where trail = trail and opts = opts and fn = fn and n = n and s = s,
      OF "1.prems"(1,2,3)]
  have L: "(case retry_turn fn opts n s of Returned a s' \<Rightarrow> (Inr a, s') | Thrown e s' \<Rightarrow> (Inl e, s')
      | Again e s' \<Rightarrow> retry_loop fn opts (Suc n) e s') = (r, s')"
    using "1.prems"(4) by (simp only: retry_loop_turn [OF "1.prems"(3)])
  show ?case
  proof (cases "retry_turn fn opts n s")
    case (Returned a s1)
    with L T show ?thesis by auto
  next
    case (Thrown e1 s1)
    with L T show ?thesis by auto
  next
    case (Again e1 s1)
    from retry_turn_Again [OF Again] have n: "Suc n \<le> maxAttempts opts" by simp
    from L Again have rec: "retry_loop fn opts (Suc n) e1 s1 = (r, s')" by simp
    have "\<exists>is. trail s' = trail s1 @ is \<and> audit_from opts (Suc n) is r"
      by (rule "1.IH" [OF "1.prems"(3) Again "1.prems"(1,2) n rec])
    then obtain js where tl: "trail s' = trail s1 @ js" "audit_from opts (Suc n) js r" by blast
    from T Again obtain i where i: "trail s1 = trail s @ [i]" "ai_attempt i = n" "ai_willRetry i"
        "ai_outcome i \<noteq> A_SUCCEEDED" "ai_error i = Some e1" "isRetryable opts e1" by auto
    have "audit_from opts n (i # js) r"
      using i tl by (intro audit_from_Cons) auto
    with i tl show ?thesis by (intro exI [of _ "i # js"]) simp
  qed
qed


text \<open>Options over a state that is the trail itself: nothing throws, nothing waits.\<close>

definition trail_options :: "nat \<Rightarrow> attempt_info list retry_options" where
  "trail_options m = \<lparr>maxAttempts = m, baseDelayMs = 100, maxDelayMs = 2000,
     isRetryable = isRetryableError, onAttempt = (\<lambda>i s. (Inr (), s @ [i])), sleep = (\<lambda>_ s. s),
     random = (\<lambda>s. (0, s)), clock = (\<lambda>s. 0)\<rparr>"

lemma records_audit_trail_options: "records_audit (\<lambda>s. s) (trail_options m)"
  by (simp add: records_audit_def trail_options_def)


end
