(* ===== verification/Repository.thy ===== *)
theory Repository
  imports Db Retry
begin

text \<open>
  services/coordinator/src/repository.ts: the statements on the schema \<open>saga\<close>. Each is a function
  of the database clock and the tables to its result and the new tables. saga_orders is UNIQUE on
  order_id, saga_steps on (order_id, step). Columns the server maintains by itself (created_at,
  updated_at) and the surrogate keys of saga_steps and saga_step_attempts are left out, as is the
  foreign key from saga_steps to saga_orders: the coordinator only writes steps of orders it read.
\<close>

section \<open>Tables\<close>

record order_row =
  o_id :: nat
  o_order_id :: string
  o_sku :: string
  o_qty :: int
  o_amount :: string
  o_fail_at :: "string option"
  o_comp_fail_at :: "string option"
  o_status :: order_status
  o_attempt_count :: nat
  o_lease_owner :: "string option"
  o_lease_expires_at :: "int option"
  o_last_error :: "string option"
  o_source_batch :: "string option"

record step_row =
  ss_order_id :: string
  ss_step :: step
  ss_kind :: step_kind
  ss_status :: step_status
  ss_attempts :: nat
  ss_idempotency_key :: string
  ss_last_error :: "string option"
  ss_started_at :: "int option"
  ss_finished_at :: "int option"

record attempt_row =
  at_order_id :: string
  at_step :: step
  at_attempt_no :: nat
  at_outcome :: attempt_outcome
  at_error_message :: "string option"
  at_duration_ms :: int
  at_started_at :: int
  at_finished_at :: int

record saga_db =
  saga_orders :: "order_row list"
  saga_steps :: "step_row list"
  saga_step_attempts :: "attempt_row list"

definition step_key :: "step_row \<Rightarrow> string \<times> step" where
  "step_key r = (ss_order_id r, ss_step r)"

record ClaimedOrder = order_data +
  claimed_id :: nat
  claimed_status :: order_status

definition toClaimedOrder :: "order_row \<Rightarrow> ClaimedOrder" where
  "toClaimedOrder r = \<lparr>orderId = o_order_id r, sku = o_sku r, qty = o_qty r, amount = o_amount r,
     failAt = o_fail_at r, compFailAt = o_comp_fail_at r, claimed_id = o_id r,
     claimed_status = o_status r\<rparr>"

section \<open>Claiming\<close>

text \<open>A comparison with a NULL lease is not true.\<close>

definition lease_expired :: "int \<Rightarrow> order_row \<Rightarrow> bool" where
  "lease_expired now r = (case o_lease_expires_at r of None \<Rightarrow> False | Some t \<Rightarrow> t < now)"

definition claimable :: "int \<Rightarrow> order_row \<Rightarrow> bool" where
  "claimable now r \<longleftrightarrow> o_status r = PENDING \<or>
     (o_status r \<in> {IN_PROGRESS, COMPENSATING} \<and> lease_expired now r)"

text \<open>
  \<open>SELECT ... ORDER BY id LIMIT ? FOR UPDATE SKIP LOCKED\<close>: the rows that other transactions
  have locked are an argument.
\<close>

definition claim_select :: "int \<Rightarrow> (nat \<Rightarrow> bool) \<Rightarrow> nat \<Rightarrow> order_row list \<Rightarrow> order_row list" where
  "claim_select now locked batchSize rows =
     take batchSize (sort_key o_id (filter (\<lambda>r. claimable now r \<and> \<not> locked (o_id r)) rows))"

definition claim_stamp :: "int \<Rightarrow> string \<Rightarrow> nat \<Rightarrow> order_row \<Rightarrow> order_row" where
  "claim_stamp now instanceId leaseTtlMs r = r\<lparr>
     o_status := (if o_status r = COMPENSATING then COMPENSATING else IN_PROGRESS),
     o_lease_owner := Some instanceId,
     o_lease_expires_at := Some (now + int leaseTtlMs),
     o_attempt_count := o_attempt_count r + 1\<rparr>"

definition claim_batch_work ::
  "int \<Rightarrow> (nat \<Rightarrow> bool) \<Rightarrow> string \<Rightarrow> nat \<Rightarrow> nat \<Rightarrow> (saga_db, js_value, ClaimedOrder list) act" where
  "claim_batch_work now locked instanceId batchSize leaseTtlMs db =
    (let rows = claim_select now locked batchSize (saga_orders db)
     in if rows = [] then (Inr [], db)
        else (let ids = map o_id rows
              in (Inr (map toClaimedOrder rows),
                  db\<lparr>saga_orders := fst (sql_update (\<lambda>r. List.member ids (o_id r))
                       (claim_stamp now instanceId leaseTtlMs) (saga_orders db))\<rparr>)))"

text \<open>The clock and the locks may differ from one deadlock retry to the next.\<close>

definition claimBatch ::
  "saga_db tx_env \<Rightarrow> (nat \<Rightarrow> int) \<Rightarrow> (nat \<Rightarrow> nat \<Rightarrow> bool) \<Rightarrow> string \<Rightarrow> nat \<Rightarrow> nat \<Rightarrow>
     (saga_db, js_value, ClaimedOrder list) act" where
  "claimBatch env now locked instanceId batchSize leaseTtlMs =
     withTransaction env default_deadlock_retries
       (\<lambda>n. claim_batch_work (now n) (locked n) instanceId batchSize leaseTtlMs)"

section \<open>Writes fenced by the lease\<close>

definition owned_by :: "string \<Rightarrow> string \<Rightarrow> order_row \<Rightarrow> bool" where
  "owned_by oid instanceId r \<longleftrightarrow> o_order_id r = oid \<and> o_lease_owner r = Some instanceId"

definition renewLease :: "string \<Rightarrow> string \<Rightarrow> nat \<Rightarrow> int \<Rightarrow> saga_db \<Rightarrow> bool \<times> saga_db" where
  "renewLease oid instanceId leaseTtlMs now db =
    (case sql_update (owned_by oid instanceId)
        (\<lambda>r. r\<lparr>o_lease_expires_at := Some (now + int leaseTtlMs)\<rparr>) (saga_orders db) of
       (rows, affectedRows) \<Rightarrow> (affectedRows = 1, db\<lparr>saga_orders := rows\<rparr>))"

definition status_write :: "order_status \<Rightarrow> bool \<Rightarrow> string option \<Rightarrow> order_row \<Rightarrow> order_row" where
  "status_write status clearLease lastError r = r\<lparr>o_status := status, o_last_error := lastError,
     o_lease_owner := (if clearLease then None else o_lease_owner r),
     o_lease_expires_at := (if clearLease then None else o_lease_expires_at r)\<rparr>"

definition setOrderStatus ::
  "string \<Rightarrow> string \<Rightarrow> order_status \<Rightarrow> bool \<Rightarrow> string option \<Rightarrow> int \<Rightarrow> saga_db \<Rightarrow> bool \<times> saga_db" where
  "setOrderStatus oid instanceId status clearLease lastError now db =
    (case sql_update (owned_by oid instanceId) (status_write status clearLease lastError) (saga_orders db) of
       (rows, affectedRows) \<Rightarrow> (affectedRows = 1, db\<lparr>saga_orders := rows\<rparr>))"

section \<open>Steps\<close>

text \<open>One row of the multi-row upsert.\<close>

definition init_step :: "string \<Rightarrow> step \<Rightarrow> step_row list \<Rightarrow> step_row list" where
  "init_step oid st = sql_upsert step_key
     \<lparr>ss_order_id = oid, ss_step = st, ss_kind = stepKind st, ss_status = S_PENDING, ss_attempts = 0,
      ss_idempotency_key = idempotencyKey oid st, ss_last_error = None, ss_started_at = None,
      ss_finished_at = None\<rparr>
     (\<lambda>r. r\<lparr>ss_status := (if ss_status r = S_SUCCEEDED then S_SUCCEEDED else S_PENDING)\<rparr>)"

definition initSteps :: "string \<Rightarrow> step list \<Rightarrow> int \<Rightarrow> saga_db \<Rightarrow> unit \<times> saga_db" where
  "initSteps oid steps now db =
    (if steps = [] then ((), db)
     else ((), db\<lparr>saga_steps := fold (init_step oid) steps (saga_steps db)\<rparr>))"

definition markStepRunning :: "string \<Rightarrow> step \<Rightarrow> int \<Rightarrow> saga_db \<Rightarrow> unit \<times> saga_db" where
  "markStepRunning oid st now db = ((), db\<lparr>saga_steps := fst (sql_update
     (\<lambda>r. step_key r = (oid, st) \<and> ss_status r \<noteq> S_SUCCEEDED)
     (\<lambda>r. r\<lparr>ss_status := S_RUNNING,
            ss_started_at := (case ss_started_at r of None \<Rightarrow> Some now | Some t \<Rightarrow> Some t)\<rparr>)
     (saga_steps db))\<rparr>)"

definition markStepResult ::
  "string \<Rightarrow> step \<Rightarrow> step_status \<Rightarrow> nat \<Rightarrow> string option \<Rightarrow> int \<Rightarrow> saga_db \<Rightarrow> unit \<times> saga_db" where
  "markStepResult oid st status attempts lastError now db = ((), db\<lparr>saga_steps := fst (sql_update
     (\<lambda>r. step_key r = (oid, st))
     (\<lambda>r. r\<lparr>ss_status := status, ss_attempts := max (ss_attempts r) attempts,
            ss_last_error := lastError, ss_finished_at := Some now\<rparr>)
     (saga_steps db))\<rparr>)"

definition attempt_message :: "js_value option \<Rightarrow> string option" where
  "attempt_message e = (case e of None \<Rightarrow> None
     | Some v \<Rightarrow> if is_Error v then Some (take 1000 (error_message v)) else None)"

definition recordAttempt :: "string \<Rightarrow> step \<Rightarrow> attempt_info \<Rightarrow> int \<Rightarrow> saga_db \<Rightarrow> unit \<times> saga_db" where
  "recordAttempt oid st info now db = ((), db\<lparr>saga_step_attempts := saga_step_attempts db @
     [\<lparr>at_order_id = oid, at_step = st, at_attempt_no = ai_attempt info, at_outcome = ai_outcome info,
       at_error_message = attempt_message (ai_error info), at_duration_ms = ai_durationMs info,
       at_started_at = ai_startedAt info, at_finished_at = ai_finishedAt info\<rparr>]\<rparr>)"

definition is_forward_row :: "string \<Rightarrow> step_row \<Rightarrow> bool" where
  "is_forward_row oid r \<longleftrightarrow> ss_order_id r = oid \<and> ss_kind r = FORWARD \<and> ss_status r = S_SUCCEEDED"

text \<open>\<open>as ForwardStep\<close>: rows of kind FORWARD hold forward steps (an invariant below).\<close>

fun as_forward :: "step \<Rightarrow> forward_step list" where
  "as_forward (Fwd f) = [f]"
| "as_forward (Comp _) = []"

definition getSucceededForwardSteps :: "string \<Rightarrow> int \<Rightarrow> saga_db \<Rightarrow> forward_step list \<times> saga_db" where
  "getSucceededForwardSteps oid now db =
    (concat (map (as_forward \<circ> ss_step) (filter (is_forward_row oid) (saga_steps db))), db)"

definition getStepStatuses :: "string \<Rightarrow> int \<Rightarrow> saga_db \<Rightarrow> (step \<rightharpoonup> step_status) \<times> saga_db" where
  "getStepStatuses oid now db =
    (map_of (rev (map (\<lambda>r. (ss_step r, ss_status r)) (filter (\<lambda>r. ss_order_id r = oid) (saga_steps db)))), db)"

section \<open>Views and well-formedness\<close>

definition step_status_of :: "saga_db \<Rightarrow> string \<Rightarrow> step \<rightharpoonup> step_status" where
  "step_status_of db oid st = row_view step_key ss_status (saga_steps db) (oid, st)"

definition order_at :: "saga_db \<Rightarrow> string \<rightharpoonup> order_row" where
  "order_at db oid = row_at o_order_id oid (saga_orders db)"

definition step_row_ok :: "step_row \<Rightarrow> bool" where
  "step_row_ok r \<longleftrightarrow> ss_kind r = stepKind (ss_step r) \<and>
     ss_idempotency_key r = idempotencyKey (ss_order_id r) (ss_step r)"

definition db_ok :: "saga_db \<Rightarrow> bool" where
  "db_ok db \<longleftrightarrow> unique_key o_order_id (saga_orders db) \<and> unique_key o_id (saga_orders db) \<and>
     unique_key step_key (saga_steps db) \<and> list_all step_row_ok (saga_steps db)"

lemma step_key_simps [simp]:
  "step_key (r\<lparr>ss_status := x\<rparr>) = step_key r" "step_key (r\<lparr>ss_started_at := y\<rparr>) = step_key r"
  "step_key (r\<lparr>ss_attempts := n\<rparr>) = step_key r" "step_key (r\<lparr>ss_last_error := e\<rparr>) = step_key r"
  "step_key (r\<lparr>ss_finished_at := z\<rparr>) = step_key r"
  by (simp_all add: step_key_def)

lemma step_key_eq: "step_key r = (oid, st) \<longleftrightarrow> ss_order_id r = oid \<and> ss_step r = st"
  by (simp add: step_key_def)

subsection \<open>Step rows\<close>

definition rearm :: "step_status option \<Rightarrow> step_status" where
  "rearm s = (if s = Some S_SUCCEEDED then S_SUCCEEDED else S_PENDING)"

lemma rearm_twice [simp]: "rearm (Some (rearm s)) = rearm s"
  by (simp add: rearm_def)

lemma init_step_view:
  "row_view step_key ss_status (init_step oid st rows) =
    (row_view step_key ss_status rows)((oid, st) \<mapsto> rearm (row_view step_key ss_status rows (oid, st)))"
  by (auto simp: row_view_def init_step_def row_at_upsert rearm_def fun_eq_iff split: option.splits)
     (auto simp: step_key_def split: option.splits)

lemma init_step_ok:
  "unique_key step_key rows \<and> list_all step_row_ok rows \<Longrightarrow>
    unique_key step_key (init_step oid st rows) \<and> list_all step_row_ok (init_step oid st rows)"
  unfolding init_step_def
  by (rule conjI [OF unique_key_upsert]) (auto simp: sql_upsert_def step_row_ok_def list_all_iff)

lemma init_steps_view:
  "row_view step_key ss_status (fold (init_step oid) steps rows) (oid', st) =
    (if oid' = oid \<and> st \<in> set steps then Some (rearm (row_view step_key ss_status rows (oid, st)))
     else row_view step_key ss_status rows (oid', st))"
proof (induction steps arbitrary: rows)
  case (Cons s steps)
  show ?case by (auto simp: Cons.IH init_step_view)
qed simp

lemma init_steps_ok:
  "unique_key step_key rows \<and> list_all step_row_ok rows \<Longrightarrow>
    unique_key step_key (fold (init_step oid) steps rows) \<and>
    list_all step_row_ok (fold (init_step oid) steps rows)"
  by (induction steps arbitrary: rows) (simp_all add: init_step_ok)

lemma initSteps_status [sql_simps]:
  "step_status_of (snd (initSteps oid steps now db)) oid' st =
    (if oid' = oid \<and> st \<in> set steps then Some (rearm (step_status_of db oid st))
     else step_status_of db oid' st)"
  by (auto simp: initSteps_def step_status_of_def init_steps_view)

lemma initSteps_frame [sql_simps]:
  "saga_orders (snd (initSteps oid steps now db)) = saga_orders db"
  "db_ok db \<Longrightarrow> db_ok (snd (initSteps oid steps now db))"
  using init_steps_ok [of "saga_steps db" oid steps] by (auto simp: initSteps_def db_ok_def)

lemma steps_update_ok:
  assumes "unique_key step_key rows" and "list_all step_row_ok rows"
    and "\<And>r. step_key (f r) = step_key r" and "\<And>r. step_row_ok (f r) = step_row_ok r"
  shows "unique_key step_key (fst (sql_update p f rows)) \<and> list_all step_row_ok (fst (sql_update p f rows))"
  using assms(1,2,4) unique_key_update [of step_key f p rows] assms(3)
  by (auto simp: list_all_iff set_update)

lemma markStepResult_status [sql_simps]:
  "step_status_of (snd (markStepResult oid st status n e now db)) oid' st' =
    (if oid' = oid \<and> st' = st then map_option (\<lambda>_. status) (step_status_of db oid st)
     else step_status_of db oid' st')"
proof -
  have "row_view step_key ss_status (fst (sql_update (\<lambda>r. step_key r = (oid, st))
      (\<lambda>r. r\<lparr>ss_status := status, ss_attempts := max (ss_attempts r) n,
      ss_last_error := e, ss_finished_at := Some now\<rparr>) (saga_steps db))) =
    (row_view step_key ss_status (saga_steps db))((oid, st) :=
      map_option (\<lambda>_. status)
        (row_view step_key ss_status (saga_steps db) (oid, st)))"
    by (rule row_view_update) auto
  then show ?thesis by (simp add: markStepResult_def step_status_of_def)
qed

lemma markStepResult_frame [sql_simps]:
  "saga_orders (snd (markStepResult oid st status n e now db)) = saga_orders db"
  "db_ok db \<Longrightarrow> db_ok (snd (markStepResult oid st status n e now db))"
  using steps_update_ok [of "saga_steps db" "\<lambda>r. r\<lparr>ss_status := status, ss_attempts := max (ss_attempts r) n,
      ss_last_error := e, ss_finished_at := Some now\<rparr>" "\<lambda>r. step_key r = (oid, st)"]
  by (auto simp: markStepResult_def db_ok_def step_row_ok_def)

lemma markStepRunning_status [sql_simps]:
  "step_status_of (snd (markStepRunning oid st now db)) oid' st' =
    (if oid' = oid \<and> st' = st
     then map_option (\<lambda>s. if s = S_SUCCEEDED then s else S_RUNNING) (step_status_of db oid st)
     else step_status_of db oid' st')"
proof -
  have "row_view step_key ss_status (fst (sql_update (\<lambda>r. step_key r = (oid, st) \<and> ss_status r \<noteq> S_SUCCEEDED)
      (\<lambda>r. r\<lparr>ss_status := S_RUNNING,
      ss_started_at := (case ss_started_at r of None \<Rightarrow> Some now | Some t \<Rightarrow> Some t)\<rparr>) (saga_steps db))) =
    (row_view step_key ss_status (saga_steps db))((oid, st) :=
      map_option (\<lambda>s. if s = S_SUCCEEDED then s else S_RUNNING)
        (row_view step_key ss_status (saga_steps db) (oid, st)))"
    by (rule row_view_update) auto
  then show ?thesis by (simp add: markStepRunning_def step_status_of_def)
qed

lemma markStepRunning_frame [sql_simps]:
  "saga_orders (snd (markStepRunning oid st now db)) = saga_orders db"
  "db_ok db \<Longrightarrow> db_ok (snd (markStepRunning oid st now db))"
  using steps_update_ok [of "saga_steps db" "\<lambda>r. r\<lparr>ss_status := S_RUNNING,
      ss_started_at := (case ss_started_at r of None \<Rightarrow> Some now | Some t \<Rightarrow> Some t)\<rparr>"
      "\<lambda>r. step_key r = (oid, st) \<and> ss_status r \<noteq> S_SUCCEEDED"]
  by (auto simp: markStepRunning_def db_ok_def step_row_ok_def)

lemma recordAttempt_frame [sql_simps]:
  "saga_orders (snd (recordAttempt oid st i now db)) = saga_orders db"
  "saga_steps (snd (recordAttempt oid st i now db)) = saga_steps db"
  "step_status_of (snd (recordAttempt oid st i now db)) = step_status_of db"
  "db_ok db \<Longrightarrow> db_ok (snd (recordAttempt oid st i now db))"
  by (simp_all add: recordAttempt_def step_status_of_def db_ok_def fun_eq_iff)

lemma succeeded_forward_iff:
  assumes "db_ok db"
  shows "f \<in> set (fst (getSucceededForwardSteps oid now db)) \<longleftrightarrow>
    step_status_of db oid (Fwd f) = Some S_SUCCEEDED"
proof -
  have mem: "f \<in> set (fst (getSucceededForwardSteps oid now db)) \<longleftrightarrow>
      (\<exists>r \<in> set (saga_steps db). ss_order_id r = oid \<and> ss_step r = Fwd f \<and> ss_status r = S_SUCCEEDED)"
  proof -
    have "f \<in> set (as_forward s) \<longleftrightarrow> s = Fwd f" for s by (cases s) auto
    with assms show ?thesis
      by (auto simp: getSucceededForwardSteps_def is_forward_row_def db_ok_def list_all_iff step_row_ok_def)
  qed
  show ?thesis
  proof
    assume "f \<in> set (fst (getSucceededForwardSteps oid now db))"
    with mem obtain r where "r \<in> set (saga_steps db)" "step_key r = (oid, Fwd f)" "ss_status r = S_SUCCEEDED"
      by (auto simp: step_key_def)
    with unique_key_row_at [of step_key "saga_steps db" r] assms
    show "step_status_of db oid (Fwd f) = Some S_SUCCEEDED"
      by (auto simp: step_status_of_def row_view_def db_ok_def)
  next
    assume "step_status_of db oid (Fwd f) = Some S_SUCCEEDED"
    then obtain r where "row_at step_key (oid, Fwd f) (saga_steps db) = Some r" "ss_status r = S_SUCCEEDED"
      by (auto simp: step_status_of_def row_view_def)
    then show "f \<in> set (fst (getSucceededForwardSteps oid now db))"
      using mem row_at_Some_in row_at_Some_key by (fastforce simp: step_key_def)
  qed
qed

lemma step_statuses_eq:
  assumes "db_ok db"
  shows "fst (getStepStatuses oid now db) = step_status_of db oid"
proof
  fix st
  let ?rows = "filter (\<lambda>r. ss_order_id r = oid) (saga_steps db)"
  have "map_of (rev (map (\<lambda>r. (ss_step r, ss_status r)) rows)) st =
      map_option ss_status (row_at step_key (oid, st) rows)"
    if "unique_key step_key rows" "\<forall>r \<in> set rows. ss_order_id r = oid" for rows
    using that
  proof (induction rows)
    case (Cons r rows)
    then have IH: "map_of (rev (map (\<lambda>r. (ss_step r, ss_status r)) rows)) st =
        map_option ss_status (row_at step_key (oid, st) rows)" by (simp add: unique_key_def)
    show ?case
    proof (cases "ss_step r = st")
      case True
      with Cons.prems have "row_at step_key (oid, st) rows = None"
        by (auto simp: unique_key_def row_at_None step_key_def)
      with True Cons.prems IH show ?thesis by (simp add: map_add_def step_key_eq)
    next
      case False
      with IH show ?thesis by (simp add: map_add_def step_key_eq split: option.splits)
    qed
  qed simp
  moreover have "unique_key step_key ?rows"
    using assms by (simp add: db_ok_def unique_key_def distinct_map_filter)
  moreover have "row_at step_key (oid, st) (filter (\<lambda>r. ss_order_id r = oid) rows) =
      row_at step_key (oid, st) rows" for rows
    by (induction rows) (auto simp: step_key_eq)
  ultimately show "fst (getStepStatuses oid now db) st = step_status_of db oid st"
    by (simp add: getStepStatuses_def step_status_of_def row_view_def)
qed

lemma reads_only [simp]:
  "snd (getSucceededForwardSteps oid now db) = db" "snd (getStepStatuses oid now db) = db"
  by (simp_all add: getSucceededForwardSteps_def getStepStatuses_def)

section \<open>The fence\<close>

text \<open>
  What the two writes guarded by \<open>lease_owner = me\<close> promise: an instance that does not hold the
  lease of the order changes nothing and is told so; the holder is told it succeeded; other orders
  and the other tables are never touched.
\<close>

locale fenced_write =
  fixes upd :: "string \<Rightarrow> string \<Rightarrow> int \<Rightarrow> saga_db \<Rightarrow> bool \<times> saga_db"
  assumes refuses: "db_ok db \<Longrightarrow> \<not> (\<exists>r. order_at db oid = Some r \<and> o_lease_owner r = Some me) \<Longrightarrow>
      upd oid me now db = (False, db)"
    and accepts: "db_ok db \<Longrightarrow> order_at db oid = Some r \<Longrightarrow> o_lease_owner r = Some me \<Longrightarrow>
      fst (upd oid me now db)"
    and frame: "db_ok db \<Longrightarrow> oid' \<noteq> oid \<Longrightarrow>
      order_at (snd (upd oid me now db)) oid' = order_at db oid'"
    and tables: "saga_steps (snd (upd oid me now db)) = saga_steps db"
      "saga_step_attempts (snd (upd oid me now db)) = saga_step_attempts db"
    and keeps_ok: "db_ok db \<Longrightarrow> db_ok (snd (upd oid me now db))"
begin

lemma told_truth:
  assumes "db_ok db"
  shows "fst (upd oid me now db) \<longleftrightarrow> (\<exists>r. order_at db oid = Some r \<and> o_lease_owner r = Some me)"
proof
  assume "fst (upd oid me now db)"
  then show "\<exists>r. order_at db oid = Some r \<and> o_lease_owner r = Some me"
    using refuses [OF assms, of oid me now] by (metis fst_conv)
qed (auto dest: accepts [OF assms])

lemma refused_unchanged: "db_ok db \<Longrightarrow> \<not> fst (upd oid me now db) \<Longrightarrow> snd (upd oid me now db) = db"
  using refuses told_truth by (metis snd_conv)

text \<open>A worker that lost the lease to another instance cannot overwrite that instance's result.\<close>

lemma zombie_harmless:
  assumes "db_ok db" and "order_at db oid = Some r" and "o_lease_owner r \<noteq> Some zombie"
  shows "upd oid zombie now db = (False, db)"
  using assms by (intro refuses) auto

end

lemma fenced_update:
  assumes "\<And>r. o_order_id (f r) = o_order_id r" and "\<And>r. o_id (f r) = o_id r"
  shows "fenced_write (\<lambda>oid me now db. case sql_update (owned_by oid me) f (saga_orders db) of
      (rows, affectedRows) \<Rightarrow> (affectedRows = 1, db\<lparr>saga_orders := rows\<rparr>))"
proof unfold_locales
  fix db :: saga_db and oid me :: string and now :: int
  assume ok: "db_ok db"
  have aff: "snd (sql_update (owned_by oid me) f (saga_orders db)) =
      (case order_at db oid of None \<Rightarrow> 0 | Some r \<Rightarrow> if owned_by oid me r then 1 else 0)"
    unfolding order_at_def
    by (rule affected_at_key) (use ok in \<open>auto simp: db_ok_def owned_by_def\<close>)
  show "(case sql_update (owned_by oid me) f (saga_orders db) of
      (rows, affectedRows) \<Rightarrow> (affectedRows = 1, db\<lparr>saga_orders := rows\<rparr>)) = (False, db)"
    if "\<not> (\<exists>r. order_at db oid = Some r \<and> o_lease_owner r = Some me)"
  proof -
    have "snd (sql_update (owned_by oid me) f (saga_orders db)) = 0"
      using aff that by (auto simp: owned_by_def split: option.splits)
    with update_zero [OF this] show ?thesis by (auto simp: case_prod_beta)
  qed
  show "fst (case sql_update (owned_by oid me) f (saga_orders db) of
      (rows, affectedRows) \<Rightarrow> (affectedRows = 1, db\<lparr>saga_orders := rows\<rparr>))"
    if "order_at db oid = Some r" "o_lease_owner r = Some me" for r
    using aff that by (auto simp: case_prod_beta owned_by_def order_at_def dest: row_at_Some_key)
  show "order_at (snd (case sql_update (owned_by oid me) f (saga_orders db) of
      (rows, affectedRows) \<Rightarrow> (affectedRows = 1, db\<lparr>saga_orders := rows\<rparr>))) oid' = order_at db oid'"
    if "oid' \<noteq> oid" for oid'
    using that by (cases "row_at o_order_id oid' (saga_orders db)")
      (auto simp: case_prod_beta order_at_def row_at_update [where k = o_order_id, OF assms(1)] owned_by_def
        dest: row_at_Some_key)
  show "db_ok (snd (case sql_update (owned_by oid me) f (saga_orders db) of
      (rows, affectedRows) \<Rightarrow> (affectedRows = 1, db\<lparr>saga_orders := rows\<rparr>)))"
    using ok by (simp add: case_prod_beta db_ok_def unique_key_update [where k = o_order_id, OF assms(1)]
        unique_key_update [where k = o_id, OF assms(2)])
qed (simp_all add: case_prod_beta)

interpretation renew: fenced_write "\<lambda>oid me. renewLease oid me ttl" for ttl
  using fenced_update [of "\<lambda>r. r\<lparr>o_lease_expires_at := Some (now + int ttl)\<rparr>" for now]
  by (auto simp: fenced_write_def renewLease_def)

interpretation set_status: fenced_write "\<lambda>oid me. setOrderStatus oid me status clear err" for status clear err
  using fenced_update [of "status_write status clear err"]
  by (simp add: setOrderStatus_def [abs_def] status_write_def)

end
