(* ===== verification/Queries.thy ===== *)
theory Queries
  imports Repository JsNumber "HOL-Library.Product_Lexorder"
begin

text \<open>
  services/coordinator/src/queries.ts: the read side of the UI and its two guarded writes. The
  count and the page of \<open>listOrders\<close> are two statements and may see two states of the database.
\<close>

section \<open>Lists\<close>

record OrderListItem =
  li_orderId :: string
  li_sku :: string
  li_qty :: int
  li_amount :: string
  li_status :: order_status
  li_stepsDone :: nat
  li_stepsTotal :: nat

record OrderListPage =
  lp_items :: "OrderListItem list"
  lp_total :: nat
  lp_page :: js_num
  lp_pageSize :: js_num

definition list_where :: "order_status option \<Rightarrow> order_row \<Rightarrow> bool" where
  "list_where status r = (case status of None \<Rightarrow> True | Some s \<Rightarrow> o_status r = s)"

definition steps_of :: "saga_db \<Rightarrow> string \<Rightarrow> step_row list" where
  "steps_of db oid = filter (\<lambda>r. ss_order_id r = oid) (saga_steps db)"

definition list_item :: "saga_db \<Rightarrow> order_row \<Rightarrow> OrderListItem" where
  "list_item db r = \<lparr>li_orderId = o_order_id r, li_sku = o_sku r, li_qty = o_qty r,
     li_amount = o_amount r, li_status = o_status r,
     li_stepsDone = length (filter (\<lambda>q. ss_status q = S_SUCCEEDED) (steps_of db (o_order_id r))),
     li_stepsTotal = length (steps_of db (o_order_id r))\<rparr>"

definition newest_first :: "order_status option \<Rightarrow> saga_db \<Rightarrow> order_row list" where
  "newest_first status db = rev (sort_key o_id (filter (list_where status) (saga_orders db)))"

text \<open>
  A number in LIMIT or OFFSET: the driver writes it as text, and MySQL parses whole numbers below
  2^64 only.
\<close>

definition sql_count :: "js_num \<Rightarrow> nat option" where
  "sql_count x = (case x of
     Finite q \<Rightarrow> if of_int \<lfloor>q\<rfloor> = q \<and> 0 \<le> q \<and> q < 2 ^ 64 then Some (nat \<lfloor>q\<rfloor>) else None
   | _ \<Rightarrow> None)"

definition parse_error :: js_value where
  "parse_error = ErrorObject ''Error'' ''You have an error in your SQL syntax'' (Some 1064)
     (Some ''ER_PARSE_ERROR'') None"

text \<open>\<open>(page - 1) * pageSize\<close>; the page size is finite and positive.\<close>

definition page_offset :: "js_num \<Rightarrow> js_num \<Rightarrow> js_num" where
  "page_offset page pageSize = (case (page, pageSize) of
     (Finite p, Finite n) \<Rightarrow> Finite ((p - 1) * n)
   | (NaN, _) \<Rightarrow> NaN | (_, NaN) \<Rightarrow> NaN
   | _ \<Rightarrow> Infinite True)"

definition listOrders ::
  "order_status option \<Rightarrow> js_num \<Rightarrow> js_num \<Rightarrow> saga_db \<Rightarrow> saga_db \<Rightarrow> js_value + OrderListPage" where
  "listOrders status page pageSize count_db rows_db =
    (case (sql_count pageSize, sql_count (page_offset page pageSize)) of
       (Some limit, Some offset) \<Rightarrow>
         Inr \<lparr>lp_items = map (list_item rows_db) (take limit (drop offset (newest_first status rows_db))),
           lp_total = length (filter (list_where status) (saga_orders count_db)),
           lp_page = page, lp_pageSize = pageSize\<rparr>
     | _ \<Rightarrow> Inl parse_error)"

section \<open>Detail and statistics\<close>

record OrderDetail =
  od_order :: order_row
  od_steps :: "step_row list"
  od_attempts :: "attempt_row list"

text \<open>\<open>FIELD(kind, 'FORWARD', 'COMPENSATION')\<close>; an ENUM column sorts by its index.\<close>

fun kind_field :: "step_kind \<Rightarrow> nat" where
  "kind_field FORWARD = 1"
| "kind_field COMPENSATION = 2"

definition getOrderDetail :: "string \<Rightarrow> saga_db \<Rightarrow> OrderDetail option" where
  "getOrderDetail oid db =
    (case row_at o_order_id oid (saga_orders db) of
       None \<Rightarrow> None
     | Some r \<Rightarrow> Some \<lparr>od_order = r,
         od_steps = sort_key (\<lambda>q. (kind_field (ss_kind q), ss_step q)) (steps_of db oid),
         od_attempts = sort_key (\<lambda>a. (at_started_at a, at_attempt_no a))
           (filter (\<lambda>a. at_order_id a = oid) (saga_step_attempts db))\<rparr>)"

text \<open>\<open>GROUP BY status\<close>: one row per status that occurs.\<close>

definition getStats :: "saga_db \<Rightarrow> (order_status \<times> nat) list" where
  "getStats db =
    (let sts = map o_status (saga_orders db) in map (\<lambda>s. (s, count_list sts s)) (remdups sts))"

section \<open>Guarded writes\<close>

definition claimForRetry :: "string \<Rightarrow> string \<Rightarrow> nat \<Rightarrow> int \<Rightarrow> saga_db \<Rightarrow> ClaimedOrder option \<times> saga_db" where
  "claimForRetry oid me leaseTtlMs now db =
    (case sql_update (\<lambda>r. o_order_id r = oid \<and> o_status r = NEEDS_ATTENTION)
        (\<lambda>r. r\<lparr>o_status := COMPENSATING, o_lease_owner := Some me,
               o_lease_expires_at := Some (now + int leaseTtlMs)\<rparr>) (saga_orders db) of
       (rows, affectedRows) \<Rightarrow>
         let db' = db\<lparr>saga_orders := rows\<rparr>
         in if affectedRows \<noteq> 1 then (None, db')
            else (case row_at o_order_id oid rows of
                    None \<Rightarrow> (None, db')
                  | Some r \<Rightarrow> (Some ((toClaimedOrder r)\<lparr>claimed_status := COMPENSATING\<rparr>), db')))"

definition markShipped :: "string \<Rightarrow> int \<Rightarrow> saga_db \<Rightarrow> bool \<times> saga_db" where
  "markShipped oid now db =
    (case sql_update (\<lambda>r. o_order_id r = oid \<and> o_status r = PLACED) (\<lambda>r. r\<lparr>o_status := SHIPPED\<rparr>)
        (saga_orders db) of
       (rows, affectedRows) \<Rightarrow> (affectedRows = 1, db\<lparr>saga_orders := rows\<rparr>))"

section \<open>Paging\<close>

lemma newest_first_set: "set (newest_first status db) = {r \<in> set (saga_orders db). list_where status r}"
  by (auto simp: newest_first_def)

lemma newest_first_length: "length (newest_first status db) = length (filter (list_where status) (saga_orders db))"
  by (simp add: newest_first_def)

lemma newest_first_order: "sorted (map o_id (rev (newest_first status db)))"
  by (simp add: newest_first_def)

lemma pages_take: "concat (map (\<lambda>p. take n (drop (p * n) xs)) [0..<k]) = take (k * n) xs"
proof (induction k)
  case (Suc k)
  have "take (k * n) xs @ take n (drop (k * n) xs) = take (k * n + n) xs" by (rule take_add [symmetric])
  with Suc show ?case by (simp add: add.commute)
qed simp

lemma sql_count_nat: "n < 2 ^ 64 \<Longrightarrow> sql_count (Finite (of_nat n)) = Some n"
proof -
  assume "n < 2 ^ 64"
  then have "(of_nat n :: rat) < of_nat (2 ^ 64)" by (simp only: of_nat_less_iff)
  then show ?thesis by (simp add: sql_count_def)
qed

lemma sql_count_limit: "sql_count (Finite q) = Some n \<Longrightarrow> q = of_nat n"
  by (auto simp: sql_count_def split: if_splits)

lemma list_page:
  assumes "p * n < 2 ^ 64" and "n < 2 ^ 64"
  shows "listOrders status (Finite (of_nat (Suc p))) (Finite (of_nat n)) count_db rows_db =
    Inr \<lparr>lp_items = map (list_item rows_db) (take n (drop (p * n) (newest_first status rows_db))),
      lp_total = length (filter (list_where status) (saga_orders count_db)),
      lp_page = Finite (of_nat (Suc p)), lp_pageSize = Finite (of_nat n)\<rparr>"
proof -
  have "page_offset (Finite (of_nat (Suc p))) (Finite (of_nat n)) = Finite (of_nat (p * n))"
    by (simp add: page_offset_def)
  then show ?thesis
    using sql_count_nat [OF assms(1)] sql_count_nat [OF assms(2)] by (simp add: listOrders_def)
qed


definition list_db :: saga_db where
  "list_db = \<lparr>saga_orders = map (\<lambda>(i, oid). \<lparr>o_id = i, o_order_id = oid, o_sku = [], o_qty = 1, o_amount = [],
       o_fail_at = None, o_comp_fail_at = None, o_status = SHIPPED, o_attempt_count = 1,
       o_lease_owner = None, o_lease_expires_at = None, o_last_error = None, o_source_batch = None\<rparr>)
     [(1, ''A''), (2, ''B''), (3, ''C'')], saga_steps = [], saga_step_attempts = []\<rparr>"


text \<open>
  The statistics are complete: every status that occurs is listed once, with the number of its
  orders, and the counts add up to the number of orders.
\<close>

theorem stats_add_up:
  "distinct (map fst (getStats db)) \<and> sum_list (map snd (getStats db)) = length (saga_orders db) \<and>
   map_of (getStats db) s =
     (if length (filter (\<lambda>r. o_status r = s) (saga_orders db)) = 0 then None
      else Some (length (filter (\<lambda>r. o_status r = s) (saga_orders db))))"
proof -
  let ?sts = "map o_status (saga_orders db)"
  have count: "count_list ?sts = (\<lambda>s. length (filter (\<lambda>r. o_status r = s) (saga_orders db)))"
    by (auto simp: fun_eq_iff count_list_eq_length_filter comp_def filter_map eq_commute)
  have "sum_list (map (count_list ?sts) (remdups ?sts)) = length ?sts"
    using sum_count_set [of ?sts "set ?sts"] by (simp add: sum_list_distinct_conv_sum_set)
  moreover have "map_of (map (\<lambda>s. (s, count_list ?sts s)) xs) s =
      (if s \<in> set xs then Some (count_list ?sts s) else None)" for xs
    by (induction xs) auto
  ultimately show ?thesis
    unfolding count by (auto simp: getStats_def Let_def comp_def count filter_empty_conv)
qed

end
