(* ===== verification/Claim.thy ===== *)
theory Claim
  imports Repository
begin

text \<open>
  claimBatch: which orders an instance gets, which it cannot get while another transaction or
  another lease holds them, and what a failed claim leaves behind.
\<close>

section \<open>The claim\<close>

lemma claim_select_sub: "r \<in> set (claim_select now locked n rows) \<Longrightarrow>
    r \<in> set rows \<and> claimable now r \<and> \<not> locked (o_id r)"
  by (auto simp: claim_select_def dest!: in_set_takeD)

lemma claim_select_length: "length (claim_select now locked n rows) \<le> n"
  by (simp add: claim_select_def)

text \<open>LIMIT after ORDER BY: what is left out has a larger id than everything taken.\<close>

lemma left_out: "q \<in> set xs \<Longrightarrow> q \<notin> set (take n xs) \<Longrightarrow> q \<in> set (drop n xs)"
  by (metis Un_iff append_take_drop_id set_append)

lemma taken_before:
  assumes "sorted (map k xs)" and "r \<in> set (take n xs)" and "q \<in> set (drop n xs)"
  shows "k r \<le> k q"
proof -
  have "sorted (map k (take n xs) @ map k (drop n xs))" using assms(1) by (simp flip: map_append)
  then show ?thesis using assms(2,3) by (auto simp: sorted_append)
qed

lemma dropped_long: "q \<in> set (drop n xs) \<Longrightarrow> n < length xs"
  by (cases "n < length xs") simp_all

definition candidates :: "int \<Rightarrow> (nat \<Rightarrow> bool) \<Rightarrow> order_row list \<Rightarrow> order_row list" where
  "candidates now locked rows = sort_key o_id (filter (\<lambda>r. claimable now r \<and> \<not> locked (o_id r)) rows)"

lemma claim_select_take: "claim_select now locked n rows = take n (candidates now locked rows)"
  by (simp add: claim_select_def candidates_def)

lemma candidates_sorted: "sorted (map o_id (candidates now locked rows))"
  by (simp add: candidates_def)

lemma candidates_set:
  "q \<in> set (candidates now locked rows) \<longleftrightarrow> q \<in> set rows \<and> claimable now q \<and> \<not> locked (o_id q)"
  by (simp add: candidates_def)

lemma claim_select_oldest:
  assumes "q \<in> set rows" and "claimable now q" and "\<not> locked (o_id q)"
    and "q \<notin> set (claim_select now locked n rows)"
  shows "(\<forall>r \<in> set (claim_select now locked n rows). o_id r \<le> o_id q) \<and>
    length (claim_select now locked n rows) = n"
proof -
  have "q \<in> set (candidates now locked rows)"
    unfolding candidates_set using assms(1,2,3) by (intro conjI)
  then have q: "q \<in> set (drop n (candidates now locked rows))"
    using assms(4) unfolding claim_select_take by (rule left_out)
  from dropped_long [OF q] taken_before [OF candidates_sorted _ q] show ?thesis
    unfolding claim_select_take by auto
qed

lemma claim_stamp_claimable:
  "t \<le> now + int ttl \<Longrightarrow> \<not> claimable t (claim_stamp now me ttl r)"
  by (simp add: claimable_def claim_stamp_def lease_expired_def)

lemma claim_work_eq:
  "claim_batch_work now locked me n ttl db =
    (let ids = map o_id (claim_select now locked n (saga_orders db))
     in (Inr (map toClaimedOrder (claim_select now locked n (saga_orders db))),
         db\<lparr>saga_orders := map (\<lambda>r. if o_id r \<in> set ids then claim_stamp now me ttl r else r)
              (saga_orders db)\<rparr>))"
  by (auto simp: claim_batch_work_def Let_def sql_update_def)

lemma claim_work_exclusive:
  assumes ok: "db_ok db" and k: "claim_batch_work now locked me n ttl db = (Inr cs, db')"
  shows "length cs \<le> n"
    and "\<forall>c \<in> set cs. \<exists>q \<in> set (saga_orders db). c = toClaimedOrder q \<and> claimable now q \<and> \<not> locked (o_id q)"
    and "\<forall>q \<in> set (saga_orders db). claimable now q \<and> \<not> locked (o_id q) \<and> o_id q \<notin> claimed_id ` set cs \<longrightarrow>
       length cs = n \<and> (\<forall>c \<in> set cs. claimed_id c < o_id q)"
    and "q \<in> set (claim_select t locked' m (saga_orders db)) \<Longrightarrow> \<forall>c \<in> set cs. locked' (claimed_id c) \<Longrightarrow>
       o_id q \<notin> claimed_id ` set cs"
    and "t \<le> now + int ttl \<Longrightarrow> q \<in> set (claim_select t locked' m (saga_orders db')) \<Longrightarrow> o_id q \<notin> claimed_id ` set cs"
proof -
  let ?sel = "claim_select now locked n (saga_orders db)"
  have cs: "cs = map toClaimedOrder ?sel"
    and db': "saga_orders db' = map (\<lambda>r. if o_id r \<in> o_id ` set ?sel then claim_stamp now me ttl r else r)
      (saga_orders db)"
    using k by (auto simp: claim_work_eq Let_def)
  have ids: "claimed_id ` set cs = o_id ` set ?sel"
    by (auto simp: cs toClaimedOrder_def image_image)
  show "length cs \<le> n" by (simp add: cs claim_select_length)
  show "\<forall>c \<in> set cs. \<exists>q \<in> set (saga_orders db). c = toClaimedOrder q \<and> claimable now q \<and> \<not> locked (o_id q)"
    by (auto simp: cs dest: claim_select_sub)
  show "\<forall>q \<in> set (saga_orders db). claimable now q \<and> \<not> locked (o_id q) \<and> o_id q \<notin> claimed_id ` set cs \<longrightarrow>
      length cs = n \<and> (\<forall>c \<in> set cs. claimed_id c < o_id q)"
  proof (intro ballI impI)
    fix q assume q: "q \<in> set (saga_orders db)"
      "claimable now q \<and> \<not> locked (o_id q) \<and> o_id q \<notin> claimed_id ` set cs"
    then have "q \<notin> set ?sel" using ids by auto
    with q have old: "length ?sel = n" "\<forall>x \<in> set ?sel. o_id x \<le> o_id q"
      using claim_select_oldest [of q "saga_orders db" now locked n] by auto
    have "o_id x < o_id q" if "x \<in> set ?sel" for x
      using old(2) that ids q(2) by (metis image_eqI order_le_less)
    with old(1) show "length cs = n \<and> (\<forall>c \<in> set cs. claimed_id c < o_id q)"
      by (auto simp: cs toClaimedOrder_def)
  qed
  show "q \<in> set (claim_select t locked' m (saga_orders db)) \<Longrightarrow> \<forall>c \<in> set cs. locked' (claimed_id c) \<Longrightarrow>
      o_id q \<notin> claimed_id ` set cs"
    by (auto dest: claim_select_sub)
  show "o_id q \<notin> claimed_id ` set cs" if t: "t \<le> now + int ttl" and sel: "q \<in> set (claim_select t locked' m (saga_orders db'))"
  proof
    assume q: "o_id q \<in> claimed_id ` set cs"
    from claim_select_sub [OF sel] obtain p where "p \<in> set (saga_orders db)"
      and qp: "q = (if o_id p \<in> o_id ` set ?sel then claim_stamp now me ttl p else p)"
      and c: "claimable t q" by (auto simp: db')
    have "o_id q = o_id p" by (simp add: qp claim_stamp_def)
    with q qp ids have "q = claim_stamp now me ttl p" by simp
    with c claim_stamp_claimable [OF t] show False by simp
  qed
qed


text \<open>Two orders in the queue, one of them held by a live instance.\<close>

definition pending_row :: "nat \<Rightarrow> string \<Rightarrow> order_row" where
  "pending_row i oid = \<lparr>o_id = i, o_order_id = oid, o_sku = ''S1'', o_qty = 2, o_amount = ''10.00'',
     o_fail_at = None, o_comp_fail_at = None, o_status = PENDING, o_attempt_count = 0,
     o_lease_owner = None, o_lease_expires_at = None, o_last_error = None, o_source_batch = None\<rparr>"

definition sample_db :: saga_db where
  "sample_db = \<lparr>saga_orders = [pending_row 1 ''A'', (pending_row 2 ''B'')\<lparr>o_status := IN_PROGRESS,
       o_lease_owner := Some ''other'', o_lease_expires_at := Some 90\<rparr>],
     saga_steps = [], saga_step_attempts = []\<rparr>"

lemma sample_db_ok [simp]: "db_ok sample_db"
  by (simp add: db_ok_def sample_db_def unique_key_def pending_row_def)

lemma sample_claim:
  "claimBatch quiet_tx (\<lambda>_. 50) (\<lambda>_ _. False) ''me'' 10 60 sample_db =
    (Inr [toClaimedOrder (pending_row 1 ''A'')],
     sample_db\<lparr>saga_orders := [claim_stamp 50 ''me'' 60 (pending_row 1 ''A''),
       saga_orders sample_db ! 1]\<rparr>)"
proof -
  have "claim_batch_work 50 (\<lambda>_. False) ''me'' 10 60 sample_db = 
    (Inr [toClaimedOrder (pending_row 1 ''A'')],
     sample_db\<lparr>saga_orders := [claim_stamp 50 ''me'' 60 (pending_row 1 ''A''),
       saga_orders sample_db ! 1]\<rparr>)"
    by (simp add: claim_batch_work_def claim_select_def claimable_def lease_expired_def sample_db_def
        pending_row_def sql_update_def Let_def)
  then show ?thesis unfolding claimBatch_def by (rule withTransaction_quiet_Inr)
qed


end
