(* ===== verification/Ingest.thy ===== *)
theory Ingest
  imports Repository JsNumber
begin

text \<open>
  services/coordinator/src/ingest.ts: streaming the CSV into saga_orders. The rows csv-parse yields
  (trimmed, by column name) are the argument. AUTO_INCREMENT gives an id above every id in the
  table. A quantity that is NaN or infinite is written by the driver as an unknown column, so the
  statement fails; a fraction is rounded half away from zero by the INT column. Values longer than their column,
  which INSERT IGNORE would cut, are not modelled.
\<close>

section \<open>Rows and statements\<close>

record OrderRow =
  csv_order_id :: string
  csv_sku :: string
  csv_qty :: string
  csv_amount :: string
  csv_fail_at :: string
  csv_comp_fail_at :: string

record order_values =
  v_order_id :: string
  v_sku :: string
  v_qty :: js_num
  v_amount :: string
  v_fail_at :: "string option"
  v_comp_fail_at :: "string option"
  v_source_batch :: string

text \<open>\<open>s || null\<close>\<close>

definition or_null :: "string \<Rightarrow> string option" where
  "or_null s = (if s = [] then None else Some s)"

definition row_values :: "string \<Rightarrow> OrderRow \<Rightarrow> order_values" where
  "row_values batchId row = \<lparr>v_order_id = csv_order_id row, v_sku = csv_sku row,
     v_qty = js_Number (csv_qty row), v_amount = csv_amount row, v_fail_at = or_null (csv_fail_at row),
     v_comp_fail_at = or_null (csv_comp_fail_at row), v_source_batch = batchId\<rparr>"

definition next_id :: "order_row list \<Rightarrow> nat" where
  "next_id rows = Suc (fold max (map o_id rows) 0)"

text \<open>A number in an INT column.\<close>

definition sql_int :: "js_num \<Rightarrow> int" where
  "sql_int x = (case x of
     Finite q \<Rightarrow> if 0 \<le> q then \<lfloor>q + 1 / 2\<rfloor> else - \<lfloor>1 / 2 - q\<rfloor>
   | _ \<Rightarrow> 0)"

lemma sql_int_int: "sql_int (Finite (of_int n)) = n"
proof -
  have "\<lfloor>of_int n + (1 / 2 :: rat)\<rfloor> = n" "\<lfloor>1 / 2 - (of_int n :: rat)\<rfloor> = - n"
    by (simp_all add: floor_unique)
  then show ?thesis by (simp add: sql_int_def)
qed

lemma sql_int_numeral [simp]: "sql_int (Finite (numeral n)) = numeral n"
  using sql_int_int [of "numeral n"] by simp

definition new_order :: "order_values \<Rightarrow> order_row list \<Rightarrow> order_row" where
  "new_order v rows = \<lparr>o_id = next_id rows, o_order_id = v_order_id v, o_sku = v_sku v,
     o_qty = sql_int (v_qty v), o_amount = v_amount v, o_fail_at = v_fail_at v,
     o_comp_fail_at = v_comp_fail_at v, o_status = PENDING, o_attempt_count = 0, o_lease_owner = None,
     o_lease_expires_at = None, o_last_error = None, o_source_batch = Some (v_source_batch v)\<rparr>"

text \<open>One row of the multi-row INSERT IGNORE.\<close>

definition insert_order :: "order_values \<Rightarrow> order_row list \<times> nat \<Rightarrow> order_row list \<times> nat" where
  "insert_order v = (\<lambda>(rows, n). case sql_insert_ignore o_order_id (new_order v rows) rows of
     (rows', k) \<Rightarrow> (rows', n + k))"

datatype flush_fate = Flush_ok | Flush_fails js_value | Flush_ack_lost js_value

definition nan_error :: js_value where
  "nan_error = ErrorObject ''Error'' ''Unknown column in field list''
     (Some 1054) (Some ''ER_BAD_FIELD_ERROR'') None"

definition flush :: "flush_fate \<Rightarrow> order_values list \<Rightarrow> (order_row list, js_value, nat) act" where
  "flush fate batch rows =
    (if batch = [] then (Inr 0, rows)
     else if list_ex (\<lambda>v. \<not> is_finite (v_qty v)) batch then (Inl nan_error, rows)
     else (case fold insert_order batch (rows, 0) of (rows', affectedRows) \<Rightarrow>
       (case fate of
          Flush_ok \<Rightarrow> (Inr affectedRows, rows')
        | Flush_fails e \<Rightarrow> (Inl e, rows)
        | Flush_ack_lost e \<Rightarrow> (Inl e, rows'))))"

record ingest_state =
  ig_batch :: "order_values list"
  ig_rowsRead :: nat
  ig_rowsInserted :: nat
  ig_flushes :: nat

record IngestResult =
  rowsRead :: nat
  rowsInserted :: nat
  rowsSkipped :: int

section \<open>The loop\<close>

definition ingest_flush ::
  "(nat \<Rightarrow> flush_fate) \<Rightarrow> ingest_state \<Rightarrow> (order_row list, js_value, ingest_state) act" where
  "ingest_flush fates st =
     bind_act (flush (fates (ig_flushes st)) (ig_batch st)) (\<lambda>n. ret_act
       (st\<lparr>ig_batch := [], ig_rowsInserted := ig_rowsInserted st + n, ig_flushes := Suc (ig_flushes st)\<rparr>))"

text \<open>One turn of \<open>for await\<close>.\<close>

definition ingest_row ::
  "(nat \<Rightarrow> flush_fate) \<Rightarrow> nat \<Rightarrow> string \<Rightarrow> OrderRow \<Rightarrow> ingest_state \<Rightarrow> (order_row list, js_value, ingest_state) act"
where
  "ingest_row fates batchSize batchId row st =
    (let st' = st\<lparr>ig_rowsRead := Suc (ig_rowsRead st), ig_batch := ig_batch st @ [row_values batchId row]\<rparr>
     in if length (ig_batch st') \<ge> batchSize then ingest_flush fates st' else ret_act st')"

fun ingest_loop ::
  "(nat \<Rightarrow> flush_fate) \<Rightarrow> nat \<Rightarrow> string \<Rightarrow> OrderRow list \<Rightarrow> ingest_state \<Rightarrow>
     (order_row list, js_value, ingest_state) act" where
  "ingest_loop fates batchSize batchId [] st = ret_act st"
| "ingest_loop fates batchSize batchId (row # rows) st =
     bind_act (ingest_row fates batchSize batchId row st) (ingest_loop fates batchSize batchId rows)"

definition ingest_start :: ingest_state where
  "ingest_start = \<lparr>ig_batch = [], ig_rowsRead = 0, ig_rowsInserted = 0, ig_flushes = 0\<rparr>"

definition ingestOrders ::
  "(nat \<Rightarrow> flush_fate) \<Rightarrow> nat \<Rightarrow> string \<Rightarrow> OrderRow list \<Rightarrow> (order_row list, js_value, IngestResult) act" where
  "ingestOrders fates batchSize batchId csv =
     bind_act (ingest_loop fates batchSize batchId csv ingest_start) (\<lambda>st.
       bind_act (ingest_flush fates st) (\<lambda>st'. ret_act
         \<lparr>rowsRead = ig_rowsRead st', rowsInserted = ig_rowsInserted st',
          rowsSkipped = int (ig_rowsRead st') - int (ig_rowsInserted st')\<rparr>))"

section \<open>What a batch does\<close>

text \<open>The rows a file adds: the first row of every order id the table does not have yet.\<close>

definition add_order :: "order_values \<Rightarrow> order_row list \<Rightarrow> order_row list" where
  "add_order v rows = (if v_order_id v \<in> o_order_id ` set rows then rows else rows @ [new_order v rows])"

lemma new_order_key [simp]: "o_order_id (new_order v rows) = v_order_id v"
  by (simp add: new_order_def)

lemma insert_order_fst: "fst (insert_order v p) = add_order v (fst p)"
  by (cases p) (simp add: insert_order_def sql_insert_ignore_def add_order_def)

lemma insert_order_count: "length (fst (insert_order v p)) + snd p = length (fst p) + snd (insert_order v p)"
  by (cases p) (auto simp: insert_order_def sql_insert_ignore_def)

lemma fold_insert_fst: "fst (fold insert_order vs p) = fold add_order vs (fst p)"
  by (induction vs arbitrary: p) (simp_all add: insert_order_fst)

lemma fold_insert_count:
  "length (fst (fold insert_order vs p)) + snd p = length (fst p) + snd (fold insert_order vs p)"
proof (induction vs arbitrary: p)
  case (Cons v vs)
  from Cons.IH [of "insert_order v p"] insert_order_count [of v p] show ?case by simp
qed simp

lemma fold_insert_affected: "snd (fold insert_order vs (rows, 0)) = length (fold add_order vs rows) - length rows"
  using fold_insert_count [of vs "(rows, 0)"] fold_insert_fst [of vs "(rows, 0)"] by simp

lemma add_order_keys: "o_order_id ` set (add_order v rows) = insert (v_order_id v) (o_order_id ` set rows)"
  by (auto simp: add_order_def)

lemma add_orders_keys: "o_order_id ` set (fold add_order vs rows) = v_order_id ` set vs \<union> o_order_id ` set rows"
  by (induction vs arbitrary: rows) (auto simp: add_order_keys)

lemma add_orders_known: "v_order_id ` set vs \<subseteq> o_order_id ` set rows \<Longrightarrow> fold add_order vs rows = rows"
  by (induction vs) (auto simp: add_order_def)

lemma add_orders_twice: "set us \<subseteq> set vs \<Longrightarrow> fold add_order us (fold add_order vs rows) = fold add_order vs rows"
  by (rule add_orders_known) (auto simp: add_orders_keys)

lemma add_orders_length: "length rows \<le> length (fold add_order vs rows)"
proof (induction vs arbitrary: rows)
  case (Cons v vs)
  have "length rows \<le> length (add_order v rows)" by (simp add: add_order_def)
  also have "\<dots> \<le> length (fold add_order vs (add_order v rows))" by (rule Cons.IH)
  finally show ?case by simp
qed simp

lemma flush_spec:
  assumes "flush fate batch rows = (r, rows')"
  shows "(rows' = rows \<or> rows' = fold add_order batch rows) \<and>
    (\<forall>n. r = Inr n \<longrightarrow> rows' = fold add_order batch rows \<and> length rows' = length rows + n)"
  using assms fold_insert_fst [of batch "(rows, 0)"] fold_insert_affected [of batch rows]
    add_orders_length [of rows batch]
  by (auto simp: flush_def split: if_splits prod.splits flush_fate.splits)

section \<open>What a file does\<close>

text \<open>The state after the rows \<open>ps\<close> of a file read into the table \<open>rows0\<close>.\<close>

definition ingest_inv ::
  "nat \<Rightarrow> string \<Rightarrow> order_row list \<Rightarrow> OrderRow list \<Rightarrow> ingest_state \<Rightarrow> order_row list \<Rightarrow> bool" where
  "ingest_inv batchSize batchId rows0 ps st rows \<longleftrightarrow>
     (\<exists>us. us @ ig_batch st = map (row_values batchId) ps \<and> rows = fold add_order us rows0) \<and>
     ig_rowsRead st = length ps \<and> length rows = length rows0 + ig_rowsInserted st \<and>
     length (ig_batch st) = length ps mod max 1 batchSize \<and> ig_flushes st = length ps div max 1 batchSize"

text \<open>A table that holds some of the file's rows beside \<open>rows0\<close>.\<close>

definition partly_loaded :: "string \<Rightarrow> OrderRow list \<Rightarrow> order_row list \<Rightarrow> order_row list \<Rightarrow> bool" where
  "partly_loaded batchId csv rows0 rows \<longleftrightarrow>
     (\<exists>us. rows = fold add_order us rows0 \<and> (\<exists>ws. us @ ws = map (row_values batchId) csv))"

lemma ingest_inv_start: "ingest_inv batchSize batchId rows0 [] ingest_start rows0"
  by (simp add: ingest_inv_def ingest_start_def)

lemma ingest_flush_spec:
  assumes "us @ ig_batch st = map (row_values batchId) ps" and "rows = fold add_order us rows0"
    and "ingest_flush fates st rows = (r, rows')"
  shows "partly_loaded batchId ps rows0 rows' \<and>
    (\<forall>st'. r = Inr st' \<longrightarrow> rows' = fold add_order (map (row_values batchId) ps) rows0 \<and>
       (\<exists>n. length rows' = length rows + n \<and> st' = st\<lparr>ig_batch := [],
          ig_rowsInserted := ig_rowsInserted st + n, ig_flushes := Suc (ig_flushes st)\<rparr>))"
proof -
  obtain q rows1 where f: "flush (fates (ig_flushes st)) (ig_batch st) rows = (q, rows1)" by fastforce
  with assms(3) have r1: "rows' = rows1" by (cases q) (auto simp: ingest_flush_def bind_act_def ret_act_def)
  have all: "fold add_order (ig_batch st) rows = fold add_order (map (row_values batchId) ps) rows0"
    unfolding assms(2) assms(1) [symmetric] by simp
  have "partly_loaded batchId ps rows0 rows" "partly_loaded batchId ps rows0 (fold add_order (ig_batch st) rows)"
    unfolding partly_loaded_def all using assms(1,2) by (metis append_Nil2)+
  with flush_spec [OF f] all assms(3) f r1 show ?thesis
    by (cases q) (auto simp: ingest_flush_def bind_act_def ret_act_def)
qed

lemma partly_loaded_more: "partly_loaded batchId ps rows0 rows \<Longrightarrow> partly_loaded batchId (ps @ qs) rows0 rows"
  unfolding partly_loaded_def by (metis append.assoc map_append)

lemma mod_div_Suc_full:
  assumes "b \<le> Suc (n mod max 1 b)"
  shows "Suc n mod max 1 b = 0 \<and> Suc n div max 1 b = Suc (n div max 1 b)"
proof -
  have "n mod max 1 b < max 1 b" by (rule mod_less_divisor) simp
  then have "Suc (n mod max 1 b) \<le> max 1 b" by (rule Suc_leI)
  moreover have "max 1 b \<le> Suc (n mod max 1 b)" using assms by simp
  ultimately have "Suc (n mod max 1 b) = max 1 b" by (rule le_antisym)
  then show ?thesis by (simp add: mod_Suc div_Suc)
qed

lemma mod_div_Suc_room:
  assumes "\<not> b \<le> Suc (n mod max 1 b)"
  shows "Suc n mod max 1 b = Suc (n mod max 1 b) \<and> Suc n div max 1 b = n div max 1 b"
  using assms by (auto simp: mod_Suc div_Suc max_def)

lemma ingest_row_spec:
  assumes inv: "ingest_inv batchSize batchId rows0 ps st rows"
    and run: "ingest_row fates batchSize batchId row st rows = (r, rows')"
  shows "partly_loaded batchId (ps @ [row]) rows0 rows' \<and>
    (\<forall>st'. r = Inr st' \<longrightarrow> ingest_inv batchSize batchId rows0 (ps @ [row]) st' rows')"
proof -
  let ?st = "st\<lparr>ig_rowsRead := Suc (ig_rowsRead st), ig_batch := ig_batch st @ [row_values batchId row]\<rparr>"
  from inv obtain us where us: "us @ ig_batch st = map (row_values batchId) ps" "rows = fold add_order us rows0"
    by (auto simp: ingest_inv_def)
  have us': "us @ ig_batch ?st = map (row_values batchId) (ps @ [row])" using us(1) by simp
  show ?thesis
  proof (cases "batchSize \<le> length (ig_batch ?st)")
    case True
    with run have f: "ingest_flush fates ?st rows = (r, rows')" by (simp add: ingest_row_def Let_def)
    note F = ingest_flush_spec [OF us' us(2) f]
    have full: "Suc (length ps) mod max 1 batchSize = 0 \<and>
        Suc (length ps) div max 1 batchSize = Suc (length ps div max 1 batchSize)"
      by (rule mod_div_Suc_full) (use True inv in \<open>simp add: ingest_inv_def\<close>)
    have "ingest_inv batchSize batchId rows0 (ps @ [row]) st' rows'" if "r = Inr st'" for st'
      using F that full inv unfolding ingest_inv_def by auto
    with F show ?thesis by blast
  next
    case False
    with run have r: "r = Inr ?st" "rows' = rows" by (auto simp: ingest_row_def Let_def ret_act_def)
    have room: "Suc (length ps) mod max 1 batchSize = Suc (length ps mod max 1 batchSize) \<and>
        Suc (length ps) div max 1 batchSize = length ps div max 1 batchSize"
      by (rule mod_div_Suc_room) (use False inv in \<open>simp add: ingest_inv_def\<close>)
    have "ingest_inv batchSize batchId rows0 (ps @ [row]) ?st rows"
      using us' us(2) room inv unfolding ingest_inv_def by auto
    moreover have "partly_loaded batchId (ps @ [row]) rows0 rows"
      unfolding partly_loaded_def using us' us(2) by blast
    ultimately show ?thesis using r by auto
  qed
qed

lemma ingest_loop_spec:
  assumes "ingest_inv batchSize batchId rows0 ps st rows" and "partly_loaded batchId ps rows0 rows"
    and "ingest_loop fates batchSize batchId csv st rows = (r, rows')"
  shows "partly_loaded batchId (ps @ csv) rows0 rows' \<and>
    (\<forall>st'. r = Inr st' \<longrightarrow> ingest_inv batchSize batchId rows0 (ps @ csv) st' rows')"
  using assms
proof (induction csv arbitrary: ps st rows)
  case Nil
  then show ?case by (auto simp: ret_act_def)
next
  case (Cons row csv)
  obtain q rows1 where 1: "ingest_row fates batchSize batchId row st rows = (q, rows1)" by fastforce
  note R = ingest_row_spec [OF Cons.prems(1) 1]
  show ?case
  proof (cases q)
    case (Inl e)
    with Cons.prems(3) 1 have "r = Inl e" "rows' = rows1" by (auto simp: bind_act_Inl)
    with R partly_loaded_more [of batchId "ps @ [row]" rows0 rows1 csv] show ?thesis by auto
  next
    case (Inr st1)
    with Cons.prems(3) 1 have "ingest_loop fates batchSize batchId csv st1 rows1 = (r, rows')"
      by (simp add: bind_act_Inr)
    from Cons.IH [OF _ _ this, of "ps @ [row]"] R Inr show ?thesis by auto
  qed
qed

lemma partly_loaded_refl: "partly_loaded batchId [] rows0 rows0"
  by (auto simp: partly_loaded_def)

lemma ingestOrders_spec:
  assumes "ingestOrders fates batchSize batchId csv rows0 = (r, rows')"
  shows "partly_loaded batchId csv rows0 rows' \<and>
    (\<forall>res. r = Inr res \<longrightarrow> rows' = fold add_order (map (row_values batchId) csv) rows0 \<and>
       rowsRead res = length csv \<and> length rows' = length rows0 + rowsInserted res \<and>
       rowsSkipped res = int (length csv) - int (rowsInserted res))"
proof -
  obtain q rows1 where l: "ingest_loop fates batchSize batchId csv ingest_start rows0 = (q, rows1)" by fastforce
  note L = ingest_loop_spec [OF ingest_inv_start partly_loaded_refl l, simplified]
  show ?thesis
  proof (cases q)
    case (Inl e)
    with assms l L show ?thesis by (auto simp: ingestOrders_def bind_act_Inl)
  next
    case (Inr st)
    obtain p rows2 where f: "ingest_flush fates st rows1 = (p, rows2)" by fastforce
    from L Inr obtain us where us: "us @ ig_batch st = map (row_values batchId) csv" "rows1 = fold add_order us rows0"
      by (auto simp: ingest_inv_def)
    note F = ingest_flush_spec [OF us f]
    from L Inr have n: "ig_rowsRead st = length csv" "length rows1 = length rows0 + ig_rowsInserted st"
      by (auto simp: ingest_inv_def)
    show ?thesis
    proof (cases p)
      case Inl2: (Inl e)
      with assms l Inr f F show ?thesis by (auto simp: ingestOrders_def bind_act_Inl bind_act_Inr)
    next
      case Inr2: (Inr st')
      with assms l Inr f have "r = Inr \<lparr>rowsRead = ig_rowsRead st', rowsInserted = ig_rowsInserted st',
          rowsSkipped = int (ig_rowsRead st') - int (ig_rowsInserted st')\<rparr>" "rows' = rows2"
        by (auto simp: ingestOrders_def bind_act_Inr ret_act_def)
      with F Inr2 n show ?thesis by auto
    qed
  qed
qed

text \<open>The order ids of the table, as the first occurrences of the ids of the files.\<close>

lemma add_order_ids:
  "map o_order_id (fold add_order vs rows) =
    fold (\<lambda>k ks. if k \<in> set ks then ks else ks @ [k]) (map v_order_id vs) (map o_order_id rows)"
  by (induction vs arbitrary: rows) (auto simp: add_order_def)

lemma resume_ids:
  assumes "us @ ws = map (row_values b1) csv"
  shows "map o_order_id (fold add_order (map (row_values b2) csv) (fold add_order us rows)) =
    map o_order_id (fold add_order (map (row_values b2) csv) rows)"
proof -
  define add where "add = (\<lambda>k ks. if k \<in> set ks then ks else ks @ [k :: string])"
  have keep: "k \<in> set ks \<Longrightarrow> k \<in> set (fold add xs ks)" for k ks xs
    by (induction xs arbitrary: ks) (auto simp: add_def)
  have have_: "x \<in> set xs \<Longrightarrow> x \<in> set (fold add xs ks)" for x xs ks
    by (induction xs arbitrary: ks) (auto simp: add_def intro: keep [unfolded add_def])
  have skip: "set xs \<subseteq> set ks \<Longrightarrow> fold add xs ks = ks" for xs ks
    by (induction xs) (auto simp: add_def)
  have ids: "map v_order_id (map (row_values b2) csv) = map v_order_id us @ map v_order_id ws"
    by (metis (no_types, lifting) assms list.map_comp map_append map_eq_conv comp_apply
        order_values.select_convs(1) row_values_def)
  have "fold add (map v_order_id us @ map v_order_id ws) (fold add (map v_order_id us) ks) =
      fold add (map v_order_id us @ map v_order_id ws) ks" for ks
  proof -
    have "fold add (map v_order_id us) (fold add (map v_order_id us) ks) = fold add (map v_order_id us) ks"
      by (rule skip) (auto intro: have_)
    then show ?thesis by simp
  qed
  then show ?thesis
    unfolding add_order_ids ids by (simp add: add_def)
qed


definition csv_row :: "string \<Rightarrow> OrderRow" where
  "csv_row oid = \<lparr>csv_order_id = oid, csv_sku = ''S1'', csv_qty = ''2'', csv_amount = ''10.00'',
     csv_fail_at = [], csv_comp_fail_at = ''REFUND_PAYMENT''\<rparr>"

lemma Number_2: "js_Number ''2'' = Finite 2"
proof -
  have "show_int 2 = ''2''" by (simp add: show_int_def show_digits.simps char_of_def bit_0)
  with Number_show_int [of 2] to_double_small [of 2] show ?thesis by simp
qed

lemmas ingest_eval = Number_2 is_finite_def
  ingestOrders_def ingest_row_def ingest_flush_def flush_def bind_act_def ret_act_def Let_def ingest_start_def
  row_values_def csv_row_def insert_order_def sql_insert_ignore_def new_order_def or_null_def


text \<open>
  The buffer is the memory: after any number \<open>n\<close> of rows the loop holds exactly \<open>n mod
  batchSize\<close> of them and has sent \<open>n div batchSize\<close> statements, whatever the size of the file.
\<close>

theorem ingest_buffer_bounded:
  assumes "ingest_loop fates batchSize batchId csv ingest_start rows = (Inr st, rows')" and "0 < batchSize"
  shows "length (ig_batch st) = length csv mod batchSize \<and> length (ig_batch st) < batchSize \<and>
    ig_flushes st = length csv div batchSize"
  using ingest_loop_spec [OF ingest_inv_start partly_loaded_refl assms(1)] assms(2)
  by (simp add: ingest_inv_def max_def split: if_splits)

theorem ingest_buffer_bounded_witness:
  "\<exists>st rows. ingest_loop (\<lambda>_. Flush_ok) 2 ''b'' [csv_row ''A'', csv_row ''B'', csv_row ''C''] ingest_start [] =
      (Inr st, rows) \<and> length (ig_batch st) = 1 \<and> ig_flushes st = 1"
proof -
  let ?csv = "[csv_row ''A'', csv_row ''B'', csv_row ''C'']"
  let ?run = "ingest_loop (\<lambda>_. Flush_ok) 2 ''b'' ?csv ingest_start []"
  have "isl (fst ?run) = False" by (simp add: ingest_eval)
  then obtain st where run: "?run = (Inr st, snd ?run)" by (cases ?run, cases "fst ?run") auto
  from ingest_buffer_bounded [OF run] have "length (ig_batch st) = 1 \<and> ig_flushes st = 1" by simp
  with run show ?thesis by blast
qed

end
