(* ===== verification/Lifecycle.thy ===== *)
theory Lifecycle
  imports Queries Claim Ingest
begin

text \<open>
  The life of the rows of saga_orders under every statement that any instance, the API or the
  ingest may send, in any interleaving: claims, heartbeats, status writes of live and of zombie
  workers, manual retries, shipping, loading. The guards are the code's; nothing is assumed of who
  sends what, except which statuses the engine writes with and without clearing the lease.
\<close>

section \<open>Guarded transitions\<close>

text \<open>A statement that moves one order from one status to another, once.\<close>

locale guarded_transition =
  fixes upd :: "string \<Rightarrow> int \<Rightarrow> saga_db \<Rightarrow> bool \<times> saga_db"
    and pre post :: order_status
  assumes fires: "db_ok db \<Longrightarrow> fst (upd oid now db) \<longleftrightarrow> map_option o_status (order_at db oid) = Some pre"
    and effect: "db_ok db \<Longrightarrow> map_option o_status (order_at db oid) = Some pre \<Longrightarrow>
      map_option o_status (order_at (snd (upd oid now db)) oid) = Some post"
    and idle: "db_ok db \<Longrightarrow> map_option o_status (order_at db oid) \<noteq> Some pre \<Longrightarrow> snd (upd oid now db) = db"
    and keeps_ok: "db_ok db \<Longrightarrow> db_ok (snd (upd oid now db))"
    and changes: "pre \<noteq> post"
begin

lemma once:
  assumes "db_ok db" and "fst (upd oid now db)"
  shows "\<not> fst (upd oid now' (snd (upd oid now db)))"
    and "snd (upd oid now' (snd (upd oid now db))) = snd (upd oid now db)"
proof -
  have "map_option o_status (order_at (snd (upd oid now db)) oid) = Some post"
    using assms by (simp add: fires effect)
  then have other: "map_option o_status (order_at (snd (upd oid now db)) oid) \<noteq> Some pre"
    using changes by auto
  then show "\<not> fst (upd oid now' (snd (upd oid now db)))"
    using assms(1) by (simp add: fires keeps_ok)
  show "snd (upd oid now' (snd (upd oid now db))) = snd (upd oid now db)"
    using idle [OF keeps_ok [OF assms(1)] other] .
qed

lemma refused: "db_ok db \<Longrightarrow> \<not> fst (upd oid now db) \<Longrightarrow> snd (upd oid now db) = db"
  by (simp add: fires idle)

end

lemma guarded_update:
  fixes db :: saga_db and oid :: string
  assumes "\<And>r. o_order_id (f r) = o_order_id r" and "\<And>r. o_id (f r) = o_id r"
    and "\<And>r. o_status (f r) = post" and "pre \<noteq> post" and ok: "db_ok db"
  defines "res \<equiv> sql_update (\<lambda>r. o_order_id r = oid \<and> o_status r = pre) f (saga_orders db)"
  shows "snd res = (if map_option o_status (order_at db oid) = Some pre then 1 else 0)"
    and "order_at (db\<lparr>saga_orders := fst res\<rparr>) oid =
      map_option (\<lambda>r. if o_status r = pre then f r else r) (order_at db oid)"
    and "map_option o_status (order_at db oid) \<noteq> Some pre \<Longrightarrow> db\<lparr>saga_orders := fst res\<rparr> = db"
    and "db_ok (db\<lparr>saga_orders := fst res\<rparr>)"
proof -
  have u: "unique_key o_order_id (saga_orders db)" using ok by (simp add: db_ok_def)
  show n: "snd res = (if map_option o_status (order_at db oid) = Some pre then 1 else 0)"
    using live_switch_affected [OF u, of oid "\<lambda>r. o_status r = pre" f]
    by (auto simp: res_def live_def order_at_def split: option.splits)
  show "order_at (db\<lparr>saga_orders := fst res\<rparr>) oid =
      map_option (\<lambda>r. if o_status r = pre then f r else r) (order_at db oid)"
    by (cases "row_at o_order_id oid (saga_orders db)")
       (auto simp: order_at_def res_def row_at_update [where k = o_order_id, OF assms(1)] dest: row_at_Some_key)
  show "db\<lparr>saga_orders := fst res\<rparr> = db" if "map_option o_status (order_at db oid) \<noteq> Some pre"
    using n that update_zero [of "\<lambda>r. o_order_id r = oid \<and> o_status r = pre" f "saga_orders db"]
    by (simp add: res_def)
  show "db_ok (db\<lparr>saga_orders := fst res\<rparr>)"
    using ok by (simp add: res_def db_ok_def unique_key_update [where k = o_order_id, OF assms(1)]
        unique_key_update [where k = o_id, OF assms(2)])
qed

interpretation ship: guarded_transition markShipped PLACED SHIPPED
proof unfold_locales
  fix db :: saga_db and oid :: string and now :: int
  assume ok: "db_ok db"
  note G = guarded_update [of "\<lambda>r. r\<lparr>o_status := SHIPPED\<rparr>" SHIPPED PLACED db oid, simplified, OF ok]
  show "fst (markShipped oid now db) \<longleftrightarrow> map_option o_status (order_at db oid) = Some PLACED"
    using G(1) by (auto simp: markShipped_def case_prod_beta)
  show "map_option o_status (order_at (snd (markShipped oid now db)) oid) = Some SHIPPED"
    if "map_option o_status (order_at db oid) = Some PLACED"
    using G(2) that by (auto simp: markShipped_def case_prod_beta)
  show "snd (markShipped oid now db) = db" if "map_option o_status (order_at db oid) \<noteq> Some PLACED"
    using G(3) that by (simp add: markShipped_def case_prod_beta)
  show "db_ok (snd (markShipped oid now db))"
    using G(4) by (simp add: markShipped_def case_prod_beta)
qed simp

definition retry_row :: "string \<Rightarrow> nat \<Rightarrow> int \<Rightarrow> order_row \<Rightarrow> order_row" where
  "retry_row me ttl now r = r\<lparr>o_status := COMPENSATING, o_lease_owner := Some me,
     o_lease_expires_at := Some (now + int ttl)\<rparr>"

lemma retry_keys:
  "o_order_id (retry_row me ttl now r) = o_order_id r" "o_id (retry_row me ttl now r) = o_id r"
  "o_status (retry_row me ttl now r) = COMPENSATING"
  by (simp_all add: retry_row_def)

lemma claimForRetry_eq:
  assumes "db_ok db"
  shows "claimForRetry oid me ttl now db =
    (case order_at db oid of
       None \<Rightarrow> (None, db)
     | Some r \<Rightarrow> if o_status r \<noteq> NEEDS_ATTENTION then (None, db)
         else (Some (toClaimedOrder (retry_row me ttl now r)),
               db\<lparr>saga_orders := fst (sql_update (\<lambda>r. o_order_id r = oid \<and> o_status r = NEEDS_ATTENTION)
                 (retry_row me ttl now) (saga_orders db))\<rparr>))"
proof -
  note G = guarded_update [of "retry_row me ttl now" COMPENSATING NEEDS_ATTENTION db oid, OF _ _ _ _ assms]
  note G' = G [OF retry_keys, simplified]
  have def': "claimForRetry oid me ttl now db =
      (let res = sql_update (\<lambda>r. o_order_id r = oid \<and> o_status r = NEEDS_ATTENTION)
          (retry_row me ttl now) (saga_orders db); db' = db\<lparr>saga_orders := fst res\<rparr>
       in if snd res \<noteq> 1 then (None, db')
          else (case order_at db' oid of None \<Rightarrow> (None, db')
            | Some r \<Rightarrow> (Some ((toClaimedOrder r)\<lparr>claimed_status := COMPENSATING\<rparr>), db')))"
    by (simp add: claimForRetry_def retry_row_def [abs_def] Let_def case_prod_beta order_at_def)
  show ?thesis
    unfolding def' Let_def using G'(1,2,3)
    by (cases "order_at db oid") (auto simp: toClaimedOrder_def retry_row_def)
qed

interpretation retry: guarded_transition
  "\<lambda>oid now db. (fst (claimForRetry oid me ttl now db) \<noteq> None, snd (claimForRetry oid me ttl now db))"
  NEEDS_ATTENTION COMPENSATING for me ttl
proof unfold_locales
  fix db :: saga_db and oid :: string and now :: int
  assume ok: "db_ok db"
  note G = guarded_update [of "retry_row me ttl now" COMPENSATING NEEDS_ATTENTION db oid, OF retry_keys _ ok, simplified]
  note E = claimForRetry_eq [OF ok, of oid me ttl now]
  show "fst (fst (claimForRetry oid me ttl now db) \<noteq> None, snd (claimForRetry oid me ttl now db)) \<longleftrightarrow>
      map_option o_status (order_at db oid) = Some NEEDS_ATTENTION"
    by (auto simp: E split: option.splits)
  show "map_option o_status (order_at (snd (fst (claimForRetry oid me ttl now db) \<noteq> None,
      snd (claimForRetry oid me ttl now db))) oid) = Some COMPENSATING"
    if "map_option o_status (order_at db oid) = Some NEEDS_ATTENTION"
    using that G(2) by (auto simp: E retry_row_def)
  show "snd (fst (claimForRetry oid me ttl now db) \<noteq> None, snd (claimForRetry oid me ttl now db)) = db"
    if "map_option o_status (order_at db oid) \<noteq> Some NEEDS_ATTENTION"
    using that by (auto simp: E split: option.splits)
  show "db_ok (snd (fst (claimForRetry oid me ttl now db) \<noteq> None, snd (claimForRetry oid me ttl now db)))"
    using G(4) ok by (auto simp: E split: option.splits)
qed simp

text \<open>
  Two people hammering the Retry button produce exactly one retry: a retry that is granted
  found the order in NEEDS_ATTENTION, returns its data, and leaves it COMPENSATING under the
  instance's lease; whoever asks again on that database is refused and changes nothing.
\<close>

theorem retry_granted_once:
  assumes "db_ok db" and "claimForRetry oid me ttl now db = (Some c, db')"
  shows "(\<exists>r. order_at db oid = Some r \<and> o_status r = NEEDS_ATTENTION \<and>
      c = (toClaimedOrder r)\<lparr>claimed_status := COMPENSATING\<rparr> \<and>
      order_at db' oid = Some (r\<lparr>o_status := COMPENSATING, o_lease_owner := Some me,
        o_lease_expires_at := Some (now + int ttl)\<rparr>)) \<and>
    claimForRetry oid me2 ttl2 now2 db' = (None, db')"
proof -
  note G = guarded_update [of "retry_row me ttl now" COMPENSATING NEEDS_ATTENTION db oid, OF retry_keys _ assms(1), simplified]
  from assms(2) claimForRetry_eq [OF assms(1), of oid me ttl now] obtain r
    where r: "order_at db oid = Some r" "o_status r = NEEDS_ATTENTION" "c = toClaimedOrder (retry_row me ttl now r)"
      "db' = db\<lparr>saga_orders := fst (sql_update (\<lambda>r. o_order_id r = oid \<and> o_status r = NEEDS_ATTENTION)
                 (retry_row me ttl now) (saga_orders db))\<rparr>"
    by (auto split: option.splits if_splits)
  have at: "order_at db' oid = Some (retry_row me ttl now r)" using G(2) r by simp
  have "db_ok db'" using G(4) r by simp
  from claimForRetry_eq [OF this, of oid me2 ttl2 now2] at
  have "claimForRetry oid me2 ttl2 now2 db' = (None, db')" by (simp add: retry_row_def)
  with r at show ?thesis by (auto simp: toClaimedOrder_def retry_row_def)
qed

definition attention_db :: saga_db where
  "attention_db = \<lparr>saga_orders = [(pending_row 1 ''A'')\<lparr>o_status := NEEDS_ATTENTION\<rparr>],
     saga_steps = [], saga_step_attempts = []\<rparr>"

theorem retry_granted_once_witness:
  "\<exists>c db. claimForRetry ''A'' ''me'' 60000 5 attention_db = (Some c, db) \<and> claimed_status c = COMPENSATING \<and>
     claimForRetry ''A'' ''you'' 60000 6 db = (None, db)"
proof -
  have ok: "db_ok attention_db" by (simp add: db_ok_def attention_db_def unique_key_def)
  have "fst (claimForRetry ''A'' ''me'' 60000 5 attention_db) \<noteq> None"
    by (simp add: claimForRetry_def attention_db_def sql_update_def pending_row_def Let_def)
  then obtain c where run: "claimForRetry ''A'' ''me'' 60000 5 attention_db =
      (Some c, snd (claimForRetry ''A'' ''me'' 60000 5 attention_db))"
    by (metis not_None_eq prod.collapse)
  note both = retry_granted_once [OF ok run, of "''you''" 60000 6]
  then have "claimed_status c = COMPENSATING" by auto
  with run both [THEN conjunct2] show ?thesis by (intro exI conjI)
qed

section \<open>Every statement that writes an order\<close>

inductive life_step :: "saga_db \<Rightarrow> saga_db \<Rightarrow> bool" where
  claims: "life_step db (snd (claim_batch_work now locked me n ttl db))"
| renews: "life_step db (snd (renewLease oid me ttl now db))"
| compensating: "life_step db (snd (setOrderStatus oid me COMPENSATING False err now db))"
| finishes: "st \<in> {PLACED, CANCELLED, NEEDS_ATTENTION} \<Longrightarrow>
     life_step db (snd (setOrderStatus oid me st True None now db))"
| retries: "life_step db (snd (claimForRetry oid me ttl now db))"
| ships: "life_step db (snd (markShipped oid now db))"
| loads: "life_step db (db\<lparr>saga_orders := add_order v (saga_orders db)\<rparr>)"
| step_rows: "saga_orders db' = saga_orders db \<Longrightarrow> life_step db db'"

definition empty_saga :: saga_db where
  "empty_saga = \<lparr>saga_orders = [], saga_steps = [], saga_step_attempts = []\<rparr>"

inductive life_reach :: "saga_db \<Rightarrow> bool" where
  start: "life_reach empty_saga"
| step: "life_reach db \<Longrightarrow> life_step db db' \<Longrightarrow> life_reach db'"

inductive life_steps :: "saga_db \<Rightarrow> saga_db \<Rightarrow> bool" where
  none: "life_steps db db"
| more: "life_steps db db' \<Longrightarrow> life_step db' db'' \<Longrightarrow> life_steps db db''"

text \<open>A lease exactly while the order is being worked on.\<close>

definition working :: "order_status \<Rightarrow> bool" where
  "working st \<longleftrightarrow> st = IN_PROGRESS \<or> st = COMPENSATING"

definition row_inv :: "order_row \<Rightarrow> bool" where
  "row_inv r \<longleftrightarrow> (working (o_status r) \<longleftrightarrow> o_lease_owner r \<noteq> None) \<and>
     (working (o_status r) \<longleftrightarrow> o_lease_expires_at r \<noteq> None)"

definition orders_inv :: "order_row list \<Rightarrow> bool" where
  "orders_inv rows \<longleftrightarrow> unique_key o_order_id rows \<and> unique_key o_id rows \<and> list_all row_inv rows"

text \<open>What one statement may do to a row.\<close>

definition order_ident :: "order_row \<Rightarrow> nat \<times> string \<times> string \<times> int \<times> string \<times> string option \<times> string option" where
  "order_ident r = (o_id r, o_order_id r, o_sku r, o_qty r, o_amount r, o_fail_at r, o_comp_fail_at r)"

fun may_become :: "order_status \<Rightarrow> order_status \<Rightarrow> bool" where
  "may_become PENDING s = (s = PENDING \<or> s = IN_PROGRESS)"
| "may_become IN_PROGRESS s = (s \<in> {IN_PROGRESS, PLACED, COMPENSATING, CANCELLED, NEEDS_ATTENTION})"
| "may_become COMPENSATING s = (s \<in> {PLACED, COMPENSATING, CANCELLED, NEEDS_ATTENTION})"
| "may_become NEEDS_ATTENTION s = (s = NEEDS_ATTENTION \<or> s = COMPENSATING)"
| "may_become PLACED s = (s = PLACED \<or> s = SHIPPED)"
| "may_become CANCELLED s = (s = CANCELLED)"
| "may_become SHIPPED s = (s = SHIPPED)"

lemma may_become_refl [simp]: "may_become s s"
  by (cases s) simp_all

definition row_step :: "order_row \<Rightarrow> order_row \<Rightarrow> bool" where
  "row_step r r' \<longleftrightarrow> row_inv r' \<and> order_ident r' = order_ident r \<and> may_become (o_status r) (o_status r')"

lemma row_step_refl [simp]: "row_inv r \<Longrightarrow> row_step r r"
  by (simp add: row_step_def)

text \<open>A table whose rows each make such a step.\<close>

definition rows_step :: "order_row list \<Rightarrow> order_row list \<Rightarrow> bool" where
  "rows_step rows rows' \<longleftrightarrow> orders_inv rows' \<and>
     (\<forall>oid r. row_at o_order_id oid rows = Some r \<longrightarrow>
        (\<exists>r'. row_at o_order_id oid rows' = Some r' \<and> row_step r r'))"

lemma rows_step_refl: "orders_inv rows \<Longrightarrow> rows_step rows rows"
  by (auto simp: rows_step_def orders_inv_def list_all_iff dest: row_at_Some_in)

lemma rows_step_update:
  assumes inv: "orders_inv rows"
    and f: "\<And>r. r \<in> set rows \<Longrightarrow> row_inv r \<Longrightarrow> p r \<Longrightarrow> row_step r (f r)"
    and k: "\<And>r. o_order_id (f r) = o_order_id r" "\<And>r. o_id (f r) = o_id r"
  shows "rows_step rows (fst (sql_update p f rows))"
proof -
  let ?g = "\<lambda>r. if p r then f r else r"
  have g: "row_step r (?g r)" if "r \<in> set rows" for r
    using f [of r] inv that by (auto simp: list_all_iff orders_inv_def)
  have "\<exists>r'. row_at o_order_id oid (fst (sql_update p f rows)) = Some r' \<and> row_step r r'"
    if "row_at o_order_id oid rows = Some r" for oid r
    using g [OF row_at_Some_in [OF that]] that by (simp add: row_at_update [where k = o_order_id, OF k(1)])
  moreover have "row_inv x" if "x \<in> set (fst (sql_update p f rows))" for x
  proof -
    from that obtain r where "r \<in> set rows" "x = ?g r" by (auto simp: sql_update_def)
    with g [of r] show ?thesis by (simp add: row_step_def)
  qed
  then have "list_all row_inv (fst (sql_update p f rows))" by (simp add: list_all_iff)
  ultimately show ?thesis
    using inv by (simp add: rows_step_def orders_inv_def unique_key_update [where k = o_order_id, OF k(1)]
        unique_key_update [where k = o_id, OF k(2)])
qed

subsection \<open>The statements, one by one\<close>

lemma row_ops:
  "row_inv r \<Longrightarrow> claimable now r \<Longrightarrow> row_step r (claim_stamp now me ttl r)"
  "row_inv r \<Longrightarrow> owned_by oid me r \<Longrightarrow> row_step r (r\<lparr>o_lease_expires_at := Some t\<rparr>)"
  "row_inv r \<Longrightarrow> owned_by oid me r \<Longrightarrow> row_step r (status_write COMPENSATING False err r)"
  "row_inv r \<Longrightarrow> owned_by oid me r \<Longrightarrow> st \<in> {PLACED, CANCELLED, NEEDS_ATTENTION} \<Longrightarrow>
     row_step r (status_write st True None r)"
  "row_inv r \<Longrightarrow> o_status r = NEEDS_ATTENTION \<Longrightarrow> row_step r (retry_row me ttl now r)"
  "row_inv r \<Longrightarrow> o_status r = PLACED \<Longrightarrow> row_step r (r\<lparr>o_status := SHIPPED\<rparr>)"
  by (auto simp: row_step_def row_inv_def order_ident_def working_def claim_stamp_def claimable_def
      owned_by_def status_write_def retry_row_def)

lemma claim_rows:
  assumes "orders_inv (saga_orders db)"
  shows "rows_step (saga_orders db) (saga_orders (snd (claim_batch_work now locked me n ttl db)))"
proof -
  let ?ids = "map o_id (claim_select now locked n (saga_orders db))"
  have "rows_step (saga_orders db)
      (fst (sql_update (\<lambda>r. o_id r \<in> set ?ids) (claim_stamp now me ttl) (saga_orders db)))"
  proof (rule rows_step_update [OF assms])
    fix r assume r: "r \<in> set (saga_orders db)" "row_inv r" "o_id r \<in> set ?ids"
    then obtain q where q: "q \<in> set (claim_select now locked n (saga_orders db))" "o_id q = o_id r" by auto
    with claim_select_sub [OF q(1)] have "q = r"
      using unique_key_eq [of o_id "saga_orders db" q r] r assms by (auto simp: orders_inv_def)
    with claim_select_sub [OF q(1)] r show "row_step r (claim_stamp now me ttl r)"
      by (intro row_ops) auto
  qed (simp_all add: claim_stamp_def)
  then show ?thesis by (simp add: claim_work_eq Let_def sql_update_def)
qed

lemma next_id_above: "r \<in> set rows \<Longrightarrow> o_id r < next_id rows"
proof -
  have "x \<in> set xs \<Longrightarrow> x \<le> fold max xs a" "a \<le> fold max xs a" for x a :: nat and xs
    by (induction xs arbitrary: a) (auto intro: order_trans [OF max.cobounded1] order_trans [OF max.cobounded2])
  then show "r \<in> set rows \<Longrightarrow> ?thesis" by (auto simp: next_id_def less_Suc_eq_le)
qed

lemma load_rows:
  assumes "orders_inv rows"
  shows "rows_step rows (add_order v rows)"
proof (cases "v_order_id v \<in> o_order_id ` set rows")
  case True
  then show ?thesis using rows_step_refl [OF assms] by (simp add: add_order_def)
next
  case False
  have id: "o_id (new_order v rows) = next_id rows" by (simp add: new_order_def)
  have fresh: "next_id rows \<notin> o_id ` set rows"
    using next_id_above [of _ rows] by (metis imageE less_irrefl)
  have inv: "row_inv (new_order v rows)" by (simp add: row_inv_def new_order_def working_def)
  have at: "row_at o_order_id oid (rows @ [new_order v rows]) = Some r"
    if "row_at o_order_id oid rows = Some r" for oid r
    using that by (simp add: row_at_append)
  have "row_inv r" if "row_at o_order_id oid rows = Some r" for oid r
    using row_at_Some_in [OF that] assms by (auto simp: orders_inv_def list_all_iff)
  moreover have "orders_inv (rows @ [new_order v rows])"
    using assms False fresh inv by (simp add: orders_inv_def unique_key_def id)
  ultimately show ?thesis using False at by (fastforce simp: rows_step_def add_order_def)
qed

lemma retry_rows:
  assumes "orders_inv (saga_orders db)"
  shows "rows_step (saga_orders db) (saga_orders (snd (claimForRetry oid me ttl now db)))"
proof -
  have "rows_step (saga_orders db) (fst (sql_update (\<lambda>r. o_order_id r = oid \<and> o_status r = NEEDS_ATTENTION)
      (retry_row me ttl now) (saga_orders db)))"
    by (rule rows_step_update [OF assms]) (simp_all add: row_ops(5) retry_keys)
  then show ?thesis
    by (simp add: claimForRetry_def retry_row_def [abs_def] case_prod_beta Let_def split: option.splits)
qed

lemma life_step_rows:
  assumes "life_step db db'" and inv: "orders_inv (saga_orders db)"
  shows "rows_step (saga_orders db) (saga_orders db')"
  using assms(1)
proof (cases rule: life_step.cases)
  case claims
  with claim_rows [OF inv] show ?thesis by simp
next
  case (renews oid me ttl now)
  then show ?thesis
    by (simp add: renewLease_def case_prod_beta) (rule rows_step_update [OF inv]; auto intro: row_ops)
next
  case (compensating oid me err now)
  have "rows_step (saga_orders db)
      (fst (sql_update (owned_by oid me) (status_write COMPENSATING False err) (saga_orders db)))"
    by (intro rows_step_update [OF inv] row_ops) (auto simp: status_write_def)
  with compensating show ?thesis by (simp add: setOrderStatus_def case_prod_beta)
next
  case (finishes st oid me now)
  have "rows_step (saga_orders db) (fst (sql_update (owned_by oid me) (status_write st True None) (saga_orders db)))"
    using finishes(2)
    by (intro rows_step_update [OF inv] row_ops) (auto simp: status_write_def)
  with finishes(1) show ?thesis by (simp add: setOrderStatus_def case_prod_beta)
next
  case retries
  with retry_rows [OF inv] show ?thesis by simp
next
  case (ships oid now)
  then show ?thesis
    by (simp add: markShipped_def case_prod_beta) (rule rows_step_update [OF inv]; auto intro: row_ops)
next
  case (loads v)
  with load_rows [OF inv] show ?thesis by simp
next
  case step_rows
  with rows_step_refl [OF inv] show ?thesis by simp
qed

lemma life_reach_inv: "life_reach db \<Longrightarrow> orders_inv (saga_orders db)"
proof (induction rule: life_reach.induct)
  case start
  then show ?case by (simp add: orders_inv_def empty_saga_def)
next
  case (step db db')
  with life_step_rows show ?case by (auto simp: rows_step_def)
qed

section \<open>Life cycles\<close>

definition life_path :: "order_status \<Rightarrow> order_status \<Rightarrow> bool" where
  "life_path = may_become\<^sup>*\<^sup>*"

lemma life_steps_row:
  assumes "life_steps db db'" and "orders_inv (saga_orders db)" and "order_at db oid = Some r"
  shows "orders_inv (saga_orders db') \<and> (\<exists>r'. order_at db' oid = Some r' \<and> order_ident r' = order_ident r \<and>
    life_path (o_status r) (o_status r'))"
  using assms
proof (induction rule: life_steps.induct)
  case none
  then show ?case by (simp add: life_path_def)
next
  case (more db db' db'')
  then obtain r' where r': "orders_inv (saga_orders db')" "order_at db' oid = Some r'" "order_ident r' = order_ident r"
    "life_path (o_status r) (o_status r')" by auto
  from life_step_rows [OF more.hyps(2) r'(1)] r'(2) obtain r'' where
    "orders_inv (saga_orders db'')" "order_at db'' oid = Some r''" "row_step r' r''"
    by (auto simp: rows_step_def order_at_def)
  with r' show ?case
    by (auto simp: row_step_def life_path_def intro: rtranclp.rtrancl_into_rtrancl)
qed

lemma may_become_final:
  assumes "may_become t u"
  shows "t = CANCELLED \<Longrightarrow> u = CANCELLED" and "t = SHIPPED \<Longrightarrow> u = SHIPPED"
    and "t = PLACED \<Longrightarrow> u = PLACED \<or> u = SHIPPED" and "u = PENDING \<Longrightarrow> t = PENDING"
  using assms by (cases t; simp)+

lemma life_path_final:
  assumes "life_path s t"
  shows "(s = CANCELLED \<longrightarrow> t = CANCELLED) \<and> (s = SHIPPED \<longrightarrow> t = SHIPPED) \<and>
    (s = PLACED \<longrightarrow> t = PLACED \<or> t = SHIPPED) \<and> (t = PENDING \<longrightarrow> s = PENDING)"
  using assms unfolding life_path_def
proof (induction rule: rtranclp_induct)
  case (step t u)
  with may_become_final [OF step.hyps(2)] show ?case by blast
qed simp

text \<open>
  C19. The life of an order, over any interleaving of the statements of any number of instances,
  live or not: its id and its data never change; a CANCELLED order stays CANCELLED, a SHIPPED order
  SHIPPED, a PLACED order becomes nothing but SHIPPED; no order goes back to PENDING.
\<close>

theorem order_lifecycle:
  assumes "life_reach db" and "life_steps db db'" and "order_at db oid = Some r"
  shows "\<exists>r'. order_at db' oid = Some r' \<and> order_ident r' = order_ident r \<and>
    (o_status r = CANCELLED \<longrightarrow> o_status r' = CANCELLED) \<and> (o_status r = SHIPPED \<longrightarrow> o_status r' = SHIPPED) \<and>
    (o_status r = PLACED \<longrightarrow> o_status r' = PLACED \<or> o_status r' = SHIPPED) \<and>
    (o_status r' = PENDING \<longrightarrow> o_status r = PENDING)"
  using life_steps_row [OF assms(2) life_reach_inv [OF assms(1)] assms(3)] life_path_final by blast

text \<open>One order: loaded, claimed, undone; then a zombie claims and a person presses Ship.\<close>

definition some_values :: order_values where
  "some_values = \<lparr>v_order_id = ''A'', v_sku = ''S1'', v_qty = Finite 2, v_amount = ''10.00'',
     v_fail_at = None, v_comp_fail_at = None, v_source_batch = ''b''\<rparr>"

definition loaded_saga :: saga_db where
  "loaded_saga = empty_saga\<lparr>saga_orders := add_order some_values (saga_orders empty_saga)\<rparr>"

definition claimed_saga :: saga_db where
  "claimed_saga = snd (claim_batch_work 50 (\<lambda>_. False) ''me'' 10 60 loaded_saga)"

definition undone_saga :: saga_db where
  "undone_saga = snd (setOrderStatus ''A'' ''me'' CANCELLED True None 60 claimed_saga)"

lemma life_samples: "life_reach loaded_saga" "life_reach claimed_saga" "life_reach undone_saga"
proof -
  show 1: "life_reach loaded_saga"
    unfolding loaded_saga_def by (rule life_reach.step [OF life_reach.start life_step.loads])
  show 2: "life_reach claimed_saga"
    unfolding claimed_saga_def by (rule life_reach.step [OF 1 life_step.claims])
  show "life_reach undone_saga"
    unfolding undone_saga_def by (rule life_reach.step [OF 2 life_step.finishes]) simp
qed

lemma claimed_order: "order_at claimed_saga ''A'' = Some (claim_stamp 50 ''me'' 60 (new_order some_values []))"
  by (simp add: claimed_saga_def loaded_saga_def empty_saga_def add_order_def order_at_def claim_work_eq
      claim_select_def claimable_def new_order_def some_values_def Let_def row_at_def claim_stamp_def next_id_def)

lemma undone_order: "\<exists>r. order_at undone_saga ''A'' = Some r \<and> o_status r = CANCELLED \<and> o_qty r = 2"
  by (simp add: undone_saga_def claimed_saga_def loaded_saga_def empty_saga_def add_order_def order_at_def
      claim_work_eq claim_select_def claimable_def new_order_def some_values_def Let_def row_at_def
      claim_stamp_def next_id_def setOrderStatus_def sql_update_def owned_by_def status_write_def)

theorem order_lifecycle_witness:
  "\<exists>r'. order_at (snd (markShipped ''A'' 999 (snd (claim_batch_work 500 (\<lambda>_. False) ''zombie'' 10 60 undone_saga)))) ''A'' =
     Some r' \<and> o_status r' = CANCELLED \<and> o_qty r' = 2"
proof -
  from undone_order obtain r where r: "order_at undone_saga ''A'' = Some r" "o_status r = CANCELLED" "o_qty r = 2"
    by blast
  have "life_steps undone_saga
      (snd (markShipped ''A'' 999 (snd (claim_batch_work 500 (\<lambda>_. False) ''zombie'' 10 60 undone_saga))))"
    by (rule life_steps.more [OF life_steps.more [OF life_steps.none life_step.claims] life_step.ships])
  from order_lifecycle [OF life_samples(3) this r(1)] r(2,3) show ?thesis
    by (auto simp: order_ident_def)
qed

text \<open>
  No order is lost: whatever was sent by whom and whichever instance died in between, an order
  is finished (or waits for a human), or from some time on every claim query selects it. An order
  without a worker is PENDING or carries a lease that runs out.
\<close>

theorem unfinished_orders_claimable:
  assumes "life_reach db" and "order_at db oid = Some r"
    and "o_status r \<notin> {PLACED, CANCELLED, NEEDS_ATTENTION, SHIPPED}"
  shows "\<exists>t. \<forall>now > t. r \<in> set (claim_select now (\<lambda>_. False) (length (saga_orders db)) (saga_orders db))"
proof -
  have r: "r \<in> set (saga_orders db)" using row_at_Some_in assms(2) by (auto simp: order_at_def)
  have inv: "row_inv r" using life_reach_inv [OF assms(1)] r by (auto simp: orders_inv_def list_all_iff)
  have all: "claimable now r \<Longrightarrow> r \<in> set (claim_select now (\<lambda>_. False) (length (saga_orders db)) (saga_orders db))" for now
    using r by (simp add: claim_select_def)
  show ?thesis
  proof (cases "o_status r = PENDING")
    case True
    then show ?thesis using all by (auto simp: claimable_def)
  next
    case False
    with assms(3) have w: "working (o_status r)" by (cases "o_status r") (auto simp: working_def)
    with inv obtain t where "o_lease_expires_at r = Some t" by (auto simp: row_inv_def)
    with w all show ?thesis by (auto simp: claimable_def lease_expired_def working_def intro!: exI [of _ t])
  qed
qed

theorem unfinished_orders_claimable_witness:
  "\<exists>t now r. t < now \<and> order_at claimed_saga ''A'' = Some r \<and> o_status r = IN_PROGRESS \<and>
     r \<in> set (claim_select now (\<lambda>_. False) (length (saga_orders claimed_saga)) (saga_orders claimed_saga))"
proof -
  have st: "o_status (claim_stamp 50 ''me'' 60 (new_order some_values [])) = IN_PROGRESS"
    by (simp add: claim_stamp_def new_order_def)
  then have "o_status (claim_stamp 50 ''me'' 60 (new_order some_values [])) \<notin>
      {PLACED, CANCELLED, NEEDS_ATTENTION, SHIPPED}" by simp
  from unfinished_orders_claimable [OF life_samples(2) claimed_order this] obtain t where
    "\<forall>now > t. claim_stamp 50 ''me'' 60 (new_order some_values []) \<in>
       set (claim_select now (\<lambda>_. False) (length (saga_orders claimed_saga)) (saga_orders claimed_saga))" ..
  then have "t < t + 1 \<and> claim_stamp 50 ''me'' 60 (new_order some_values []) \<in>
       set (claim_select (t + 1) (\<lambda>_. False) (length (saga_orders claimed_saga)) (saga_orders claimed_saga))"
    by simp
  with claimed_order st show ?thesis by blast
qed

end
