(* ===== verification/Service.thy ===== *)
theory Service
  imports Idempotency
begin

text \<open>
  packages/shared/src/service.ts: what every step endpoint does between the HTTP request and the
  response. A request body is the JSON value that express.json parsed (None for undefined);
  numbers are the integers, since the columns they end up in are INT. A handler is an action on
  the tables of its service at a time of the database clock; it runs as the work of
  runIdempotent, with the default options, against the service's cache.
\<close>

section \<open>JSON values\<close>

datatype json =
    J_null
  | J_bool bool
  | J_num int
  | J_str string
  | J_arr "json list"
  | J_obj "(string \<times> json) list"

fun join_comma :: "string list \<Rightarrow> string" where
  "join_comma [] = []"
| "join_comma [x] = x"
| "join_comma (x # xs) = x @ '','' @ join_comma xs"

text \<open>\<open>String(v)\<close>: the elements of an array are joined by commas, null being empty there.\<close>

fun js_String :: "json \<Rightarrow> string" where
  "js_String J_null = ''null''"
| "js_String (J_bool b) = (if b then ''true'' else ''false'')"
| "js_String (J_num i) = show_int i"
| "js_String (J_str s) = s"
| "js_String (J_arr xs) = join_comma (map (\<lambda>x. if x = J_null then [] else js_String x) xs)"
| "js_String (J_obj _) = ''[object Object]''"

text \<open>Property access: an array has none of the properties the code asks for.\<close>

fun js_get :: "json \<Rightarrow> string \<Rightarrow> json option" where
  "js_get (J_obj ps) k = map_of ps k"
| "js_get _ _ = None"

fun as_string :: "json option \<Rightarrow> string option" where
  "as_string (Some (J_str s)) = Some s"
| "as_string _ = None"

fun as_number :: "json option \<Rightarrow> int option" where
  "as_number (Some (J_num i)) = Some i"
| "as_number _ = None"

text \<open>\<open>typeof v === 'string' ? v : String(v ?? '0')\<close>\<close>

fun amount_text :: "json option \<Rightarrow> string" where
  "amount_text (Some (J_str s)) = s"
| "amount_text (Some J_null) = ''0''"
| "amount_text None = ''0''"
| "amount_text (Some v) = js_String v"

fun is_object :: "json option \<Rightarrow> bool" where
  "is_object (Some (J_obj _)) = True"
| "is_object (Some (J_arr _)) = True"
| "is_object _ = False"

section \<open>The request\<close>

definition validateBody :: "json option \<Rightarrow> js_value + StepRequestBody" where
  "validateBody raw =
    (if \<not> is_object raw then Inl (BusinessRuleError ''body must be an object'')
     else
       (let b = js_get (the raw)
        in case as_string (b ''orderId'') of
             None \<Rightarrow> Inl (BusinessRuleError ''orderId is required'')
           | Some oid \<Rightarrow>
               if oid = [] then Inl (BusinessRuleError ''orderId is required'')
               else Inr \<lparr>orderId = oid,
                 sku = (case as_string (b ''sku'') of Some s \<Rightarrow> s | None \<Rightarrow> []),
                 qty = (case as_number (b ''qty'') of Some n \<Rightarrow> n | None \<Rightarrow> 0),
                 amount = amount_text (b ''amount''),
                 failAt = as_string (b ''failAt''),
                 compFailAt = as_string (b ''compFailAt''),
                 force = (b ''force'' = Some (J_bool True))\<rparr>))"

definition assertNoInjectedFailure :: "step \<Rightarrow> StepRequestBody \<Rightarrow> js_value + unit" where
  "assertNoInjectedFailure step body =
    (if isForwardStep step then
       if failAt body = Some (step_name step) then Inl (InjectedFailureError step) else Inr ()
     else if compFailAt body = Some (step_name step) \<and> \<not> force body then Inl (InjectedFailureError step)
     else Inr ())"

type_synonym 'd handler = "StepRequestBody \<Rightarrow> int \<Rightarrow> ('d, js_value, jobject) act"

type_synonym 'd step_service = "('d, jobject, jobject redis_cache) service"

definition step_context :: "step \<Rightarrow> StepRequestBody \<Rightarrow> idem_context" where
  "step_context step body = \<lparr>ctx_key = idempotencyKey (orderId body) step,
     ctx_operation = step_name step, ctx_orderId = orderId body\<rparr>"

text \<open>The try block of the route.\<close>

definition step_route ::
  "idem_env \<Rightarrow> step \<Rightarrow> 'd handler \<Rightarrow> json option \<Rightarrow> ('d step_service, js_value, StepResponseBody) act" where
  "step_route env step handler raw s =
    (case validateBody raw of
       Inl e \<Rightarrow> (Inl e, s)
     | Inr body \<Rightarrow>
        (case assertNoInjectedFailure step body of
           Inl e \<Rightarrow> (Inl e, s)
         | Inr _ \<Rightarrow>
            (case runIdempotent env redis_ops (step_context step body) (handler body)
                default_idem_options s of
               (Inl e, s') \<Rightarrow> (Inl e, s')
             | (Inr (result, replayed), s') \<Rightarrow>
                 (Inr \<lparr>resp_operation = step, resp_orderId = orderId body, resp_replayed = replayed,
                       resp_data = result\<rparr>, s'))))"

section \<open>The response\<close>

record http_response =
  http_status :: int
  http_body :: "ErrorResponseBody + StepResponseBody"

definition error_response :: "int \<Rightarrow> string \<Rightarrow> string \<Rightarrow> http_response" where
  "error_response st m code = \<lparr>http_status = st, http_body = Inl \<lparr>err_error = m, err_code = code\<rparr>\<rparr>"

definition errorMiddleware :: "js_value \<Rightarrow> http_response" where
  "errorMiddleware err =
    (case err of
       OperationInProgressError _ \<Rightarrow> error_response 409 (error_message err) ''IN_PROGRESS''
     | BusinessRuleError m \<Rightarrow> error_response 422 m ''BUSINESS_RULE''
     | InjectedFailureError _ \<Rightarrow> error_response 500 (error_message err) ''INJECTED_FAILURE''
     | _ \<Rightarrow> error_response 500 (if is_Error err then error_message err else ''internal error'') ''INTERNAL'')"

definition registerStep ::
  "idem_env \<Rightarrow> step \<Rightarrow> 'd handler \<Rightarrow> json option \<Rightarrow> 'd step_service \<Rightarrow> http_response \<times> 'd step_service" where
  "registerStep env step handler raw s =
    (case step_route env step handler raw s of
       (Inr payload, s') \<Rightarrow> (\<lparr>http_status = 200, http_body = Inr payload\<rparr>, s')
     | (Inl err, s') \<Rightarrow> (errorMiddleware err, s'))"

text \<open>\<open>GET /health\<close>: the verdict is the database's; the cache is reported beside it.\<close>

record health =
  health_status :: int
  health_ok :: bool
  health_cache :: "bool option"

definition service_health :: "js_value option \<Rightarrow> 'd step_service \<Rightarrow> health" where
  "service_health select1 s =
    (case select1 of
       None \<Rightarrow> \<lparr>health_status = 200, health_ok = True, health_cache = Some (redis_isReady (svc_cache s))\<rparr>
     | Some _ \<Rightarrow> \<lparr>health_status = 503, health_ok = False, health_cache = None\<rparr>)"

section \<open>Lemmas\<close>

lemma step_context_simps [simp]:
  "ctx_key (step_context step body) = idempotencyKey (orderId body) step"
  "ctx_orderId (step_context step body) = orderId body"
  "ctx_operation (step_context step body) = step_name step"
  by (simp_all add: step_context_def)

lemma validateBody_error: "validateBody raw = Inl e \<Longrightarrow> \<exists>m. e = BusinessRuleError m"
  by (auto simp: validateBody_def Let_def split: if_splits option.splits)

lemma validateBody_orderId: "validateBody raw = Inr body \<Longrightarrow> orderId body \<noteq> []"
  by (auto simp: validateBody_def Let_def split: if_splits option.splits)

lemma assertNoInjectedFailure_Inl:
  "assertNoInjectedFailure step body = Inl e \<Longrightarrow> e = InjectedFailureError step"
  by (auto simp: assertNoInjectedFailure_def split: if_splits)

text \<open>What the coordinator sends: JSON.stringify of a StepRequestBody; force only when it is set.\<close>

definition nullable :: "string option \<Rightarrow> json" where
  "nullable v = (case v of None \<Rightarrow> J_null | Some s \<Rightarrow> J_str s)"

definition body_json :: "StepRequestBody \<Rightarrow> json" where
  "body_json b = J_obj
     ([(''orderId'', J_str (orderId b)), (''sku'', J_str (sku b)), (''qty'', J_num (qty b)),
       (''amount'', J_str (amount b)), (''failAt'', nullable (failAt b)),
       (''compFailAt'', nullable (compFailAt b))] @
      (if force b then [(''force'', J_bool True)] else []))"

lemma as_string_nullable [simp]: "as_string (Some (nullable v)) = v"
  by (cases v) (simp_all add: nullable_def)

text \<open>
  C34. The body the coordinator serialises for a step comes out of the service's validation as it
  went in, whatever the order holds; only an order without an id is turned away, and with an error
  the coordinator does not retry.
\<close>

theorem validateBody_roundtrip:
  "validateBody (Some (body_json b)) =
     (if orderId b = [] then Inl (BusinessRuleError ''orderId is required'') else Inr b)"
  by (simp add: validateBody_def body_json_def Let_def)

text \<open>What an endpoint may have done to its service when it answers.\<close>

lemma step_route_spec:
  assumes ok: "redis.svc_ok s" and run: "step_route env step handler raw s = (r, s')"
  shows "redis.svc_ok s' \<and>
    (case r of
       Inl e \<Rightarrow> domain s' = domain s \<and> completed (records s') = completed (records s) \<or>
         (\<exists>body v. validateBody raw = Inr body \<and> commit_fate env = Commit_ack_lost e \<and>
            completed (records s) (idempotencyKey (orderId body) step) = None \<and>
            (\<exists>t. handler body t (domain s) = (Inr v, domain s')) \<and>
            completed (records s') = (completed (records s))(idempotencyKey (orderId body) step \<mapsto> v))
     | Inr p \<Rightarrow> (\<exists>body. validateBody raw = Inr body \<and> assertNoInjectedFailure step body = Inr () \<and>
         resp_operation p = step \<and> resp_orderId p = orderId body \<and>
         completed (records s') (idempotencyKey (orderId body) step) = Some (resp_data p) \<and>
         (if resp_replayed p
          then domain s' = domain s \<and> completed (records s') = completed (records s)
          else completed (records s) (idempotencyKey (orderId body) step) = None \<and>
            (\<exists>t. handler body t (domain s) = (Inr (resp_data p), domain s')) \<and>
            completed (records s') =
              (completed (records s))(idempotencyKey (orderId body) step \<mapsto> resp_data p))))"
proof (cases "validateBody raw")
  case (Inl e)
  with run ok show ?thesis by (auto simp: step_route_def)
next
  case (Inr body)
  show ?thesis
  proof (cases "assertNoInjectedFailure step body")
    case (Inl e)
    with run ok \<open>validateBody raw = Inr body\<close> show ?thesis by (auto simp: step_route_def)
  next
    case inj: (Inr u)
    obtain q s1 where q: "runIdempotent env redis.ops (step_context step body) (handler body)
        default_idem_options s = (q, s1)" by fastforce
    note P = redis.runIdempotent_spec [OF ok q]
    have s': "s' = s1" using run Inr inj q
      by (auto simp: step_route_def redis_ops_def split: sum.splits)
    show ?thesis
    proof (cases q)
      case (Inl e)
      with run Inr inj q have "r = Inl e" by (simp add: step_route_def redis_ops_def)
      with P Inl s' Inr show ?thesis by (auto split: option.splits)
    next
      case R: (Inr v)
      obtain w b where v: "v = (w, b)" by fastforce
      with run Inr inj q R have "r = Inr \<lparr>resp_operation = step, resp_orderId = orderId body,
          resp_replayed = b, resp_data = w\<rparr>" by (simp add: step_route_def redis_ops_def)
      with P R s' Inr v inj show ?thesis by (auto split: if_splits option.splits)
    qed
  qed
qed

end
