(* ===== verification/Http.thy ===== *)
theory Http
  imports Service Retry
begin

text \<open>
  callStep of packages/shared/src/http.ts: the coordinator's call of one step. \<open>fetch\<close> and the
  network behind it are arguments: given the URL, the idempotency-key header, the body and the time
  limit, fetch answers or throws what fetch throws (a DOMException named TimeoutError when the
  signal fires, a TypeError whose cause is a network error, ...). Reading the body of a good
  response as JSON may throw as well.
\<close>

record fetch_response =
  fr_status :: int
  fr_json :: "js_value + StepResponseBody"

type_synonym 's fetch =
  "string \<Rightarrow> string \<Rightarrow> StepRequestBody \<Rightarrow> nat \<Rightarrow> ('s, js_value, fetch_response) act"

text \<open>What withRetry takes from its environment when no option overrides it.\<close>

record 's runtime =
  rt_sleep :: "int \<Rightarrow> 's \<Rightarrow> 's"
  rt_random :: "'s \<Rightarrow> rat \<times> 's"
  rt_clock :: "'s \<Rightarrow> int"

record 's call_options =
  co_baseUrl :: string
  co_step :: step
  co_body :: StepRequestBody
  co_timeoutMs :: nat
  co_maxAttempts :: nat
  co_baseDelayMs :: nat
  co_maxDelayMs :: nat
  co_onAttempt :: "attempt_info \<Rightarrow> ('s, js_value, unit) act"

text \<open>\<open>baseUrl.replace(/\/$/, '')\<close>: one slash at the end goes.\<close>

definition trim_slash :: "string \<Rightarrow> string" where
  "trim_slash u = (if u \<noteq> [] \<and> last u = CHR ''/'' then butlast u else u)"

definition response_ok :: "fetch_response \<Rightarrow> bool" where
  "response_ok r \<longleftrightarrow> 200 \<le> fr_status r \<and> fr_status r \<le> 299"

definition http_error :: "step \<Rightarrow> int \<Rightarrow> js_value" where
  "http_error st status = HttpError status (step_name st @ '' -> HTTP '' @ show_int status)"

text \<open>The function that withRetry repeats.\<close>

definition call_attempt :: "'s fetch \<Rightarrow> 's call_options \<Rightarrow> ('s, js_value, StepResponseBody) act" where
  "call_attempt fetch opts s =
    (let url = trim_slash (co_baseUrl opts) @ stepPath (co_step opts);
         key = idempotencyKey (orderId (co_body opts)) (co_step opts)
     in case fetch url key (co_body opts) (co_timeoutMs opts) s of
          (Inl err, s') \<Rightarrow>
            if is_abort err then (Inl (StepTimeoutError (int (co_timeoutMs opts))), s') else (Inl err, s')
        | (Inr response, s') \<Rightarrow>
            if \<not> response_ok response then (Inl (http_error (co_step opts) (fr_status response)), s')
            else (fr_json response, s'))"

definition call_retry_options :: "'s runtime \<Rightarrow> 's call_options \<Rightarrow> 's retry_options" where
  "call_retry_options rt opts = \<lparr>maxAttempts = co_maxAttempts opts, baseDelayMs = co_baseDelayMs opts,
     maxDelayMs = co_maxDelayMs opts, isRetryable = isRetryableError, onAttempt = co_onAttempt opts,
     sleep = rt_sleep rt, random = rt_random rt, clock = rt_clock rt\<rparr>"

definition callStep :: "'s fetch \<Rightarrow> 's runtime \<Rightarrow> 's call_options \<Rightarrow> ('s, js_value, StepResponseBody) act" where
  "callStep fetch rt opts = withRetry (\<lambda>_. call_attempt fetch opts) (call_retry_options rt opts)"

section \<open>Lemmas\<close>

definition call_url :: "'s call_options \<Rightarrow> string" where
  "call_url opts = trim_slash (co_baseUrl opts) @ stepPath (co_step opts)"

definition call_key :: "'s call_options \<Rightarrow> string" where
  "call_key opts = idempotencyKey (orderId (co_body opts)) (co_step opts)"

text \<open>The only request a call makes is the POST of its own body to the URL of its own step.\<close>

lemma call_attempt_preserves [preserves_intro]:
  assumes "preserves P (fetch (call_url opts) (call_key opts) (co_body opts) (co_timeoutMs opts))"
  shows "preserves P (call_attempt fetch opts)"
proof (rule preservesI)
  fix s assume "P s"
  with assms show "P (snd (call_attempt fetch opts s))"
    unfolding preserves_def call_attempt_def Let_def call_url_def call_key_def
    by (auto split: prod.splits sum.splits)
qed

lemma callStep_preserves [preserves_intro]:
  assumes "preserves P (fetch (call_url opts) (call_key opts) (co_body opts) (co_timeoutMs opts))"
    and "\<And>i. preserves P (co_onAttempt opts i)"
    and "\<And>d s. P s \<Longrightarrow> P (rt_sleep rt d s)" and "\<And>s. P s \<Longrightarrow> P (snd (rt_random rt s))"
  shows "preserves P (callStep fetch rt opts)"
  unfolding callStep_def
  by (rule withRetry_preserves)
     (use assms in \<open>auto simp: call_retry_options_def intro: call_attempt_preserves\<close>)

text \<open>Which responses of a service make the coordinator try again.\<close>

lemma http_error_retryable: "isRetryableError (http_error st status) \<longleftrightarrow>
    status \<ge> 500 \<or> status = 429 \<or> status = 409"
  by (simp add: http_error_def)

text \<open>
  Across the wire the retry decision means what the service meant: for any error a step
  endpoint ends in, the coordinator's classification of the response (status code to HttpError to
  isRetryableError) says do not retry exactly when the error was a broken business rule; an
  operation still in progress, an injected failure and anything unexpected are retried.
\<close>

theorem service_error_retried:
  "\<not> isRetryableError (http_error st (http_status (errorMiddleware e))) \<longleftrightarrow> (\<exists>m. e = BusinessRuleError m)"
  by (cases e) (simp_all add: http_error_retryable errorMiddleware_def error_response_def)

text \<open>
  A time limit that fires is reported as StepTimeoutError with that limit, whatever name the
  platform's abort had, and is retried; a response outside 200-299 is never taken for a result.
\<close>

theorem call_attempt_errors:
  "case fetch (trim_slash (co_baseUrl opts) @ stepPath (co_step opts))
      (idempotencyKey (orderId (co_body opts)) (co_step opts)) (co_body opts) (co_timeoutMs opts) s of
     (Inl e, s') \<Rightarrow>
       (if is_abort e
        then call_attempt fetch opts s = (Inl (StepTimeoutError (int (co_timeoutMs opts))), s') \<and>
          isRetryableError (StepTimeoutError (int (co_timeoutMs opts)))
        else call_attempt fetch opts s = (Inl e, s'))
   | (Inr r, s') \<Rightarrow>
       snd (call_attempt fetch opts s) = s' \<and>
       ((\<exists>b. fst (call_attempt fetch opts s) = Inr b) = (response_ok r \<and> (\<exists>b. fr_json r = Inr b)))"
  by (cases "fst (fetch (trim_slash (co_baseUrl opts) @ stepPath (co_step opts))
      (idempotencyKey (orderId (co_body opts)) (co_step opts)) (co_body opts) (co_timeoutMs opts) s)")
     (auto simp: call_attempt_def Let_def split: prod.splits)

end
