(* ===== verification/Saga.thy ===== *)
theory Saga
  imports Http Repository
begin

text \<open>
  services/coordinator/src/saga.ts: one order from its claim to a terminal status. The coordinator's
  state is its database, the clock, the world behind fetch (type 'w) and a counter that indexes
  what the environment does: the fate of each statement and the jitter of each backoff. \<open>fetch\<close>
  also says how long it took. While a heartbeat is on, the time that passes renews the lease at
  every multiple of the interval. The branches of \<open>runConcurrently\<close> take effect one after another
  in an order the environment chooses; they write different rows and call different services.
\<close>

section \<open>State and environment\<close>

datatype stmt_fate = Stmt_ok | Stmt_fails js_value | Stmt_ack_lost js_value

record 'w coord =
  cs_db :: saga_db
  cs_now :: int
  cs_world :: 'w
  cs_tick :: nat
  cs_heartbeat :: "(string \<times> int) option"

record 'w SagaDeps =
  instanceId :: string
  serviceUrls :: "service_name \<Rightarrow> string"
  step_timeoutMs :: nat
  step_maxAttempts :: nat
  step_baseDelayMs :: nat
  step_maxDelayMs :: nat
  lease_ttlMs :: nat
  lease_heartbeatMs :: nat
  dep_fetch :: "string \<Rightarrow> string \<Rightarrow> StepRequestBody \<Rightarrow> nat \<Rightarrow> 'w \<Rightarrow> (js_value + fetch_response) \<times> nat \<times> 'w"
  dep_fate :: "nat \<Rightarrow> stmt_fate"
  dep_jitter :: "nat \<Rightarrow> rat"
  dep_schedule :: "step list \<Rightarrow> step list"

text \<open>\<open>pool.query\<close>: a statement may fail, and it may fail after it has taken effect.\<close>

definition query :: "'w SagaDeps \<Rightarrow> (int \<Rightarrow> saga_db \<Rightarrow> 'a \<times> saga_db) \<Rightarrow> ('w coord, js_value, 'a) act" where
  "query deps q s =
    (let s1 = s\<lparr>cs_tick := Suc (cs_tick s)\<rparr>
     in case dep_fate deps (cs_tick s) of
          Stmt_ok \<Rightarrow> (case q (cs_now s) (cs_db s) of (a, db) \<Rightarrow> (Inr a, s1\<lparr>cs_db := db\<rparr>))
        | Stmt_fails e \<Rightarrow> (Inl e, s1)
        | Stmt_ack_lost e \<Rightarrow> (Inl e, s1\<lparr>cs_db := snd (q (cs_now s) (cs_db s))\<rparr>))"

section \<open>The heartbeat\<close>

text \<open>The firings of \<open>setInterval\<close> started at \<open>t0\<close>, after \<open>frm\<close> and up to \<open>til\<close>.\<close>

definition beat_times :: "int \<Rightarrow> nat \<Rightarrow> int \<Rightarrow> int \<Rightarrow> int list" where
  "beat_times t0 hb frm til =
     filter (\<lambda>t. frm < t) (map (\<lambda>k. t0 + int (k * max 1 hb)) [1..<Suc (nat (til - t0) div max 1 hb)])"

definition beat :: "'w SagaDeps \<Rightarrow> string \<Rightarrow> int \<Rightarrow> saga_db \<Rightarrow> saga_db" where
  "beat deps oid t db = snd (renewLease oid (instanceId deps) (lease_ttlMs deps) t db)"

definition elapse :: "'w SagaDeps \<Rightarrow> nat \<Rightarrow> 'w coord \<Rightarrow> 'w coord" where
  "elapse deps d s =
    (case cs_heartbeat s of
       None \<Rightarrow> s\<lparr>cs_now := cs_now s + int d\<rparr>
     | Some (oid, t0) \<Rightarrow> s\<lparr>cs_now := cs_now s + int d,
         cs_db := fold (beat deps oid)
           (beat_times t0 (lease_heartbeatMs deps) (cs_now s) (cs_now s + int d)) (cs_db s)\<rparr>)"

definition startHeartbeat :: "string \<Rightarrow> 'w coord \<Rightarrow> 'w coord" where
  "startHeartbeat oid s = s\<lparr>cs_heartbeat := Some (oid, cs_now s)\<rparr>"

definition stopHeartbeat :: "'w coord \<Rightarrow> 'w coord" where
  "stopHeartbeat s = s\<lparr>cs_heartbeat := None\<rparr>"

section \<open>One step\<close>

text \<open>The state of executeStep has its local variable \<open>attempts\<close> beside the coordinator's.\<close>

definition on_fst :: "('s, 'e, 'a) act \<Rightarrow> ('s \<times> 'n, 'e, 'a) act" where
  "on_fst m = (\<lambda>(s, n). case m s of (r, s') \<Rightarrow> (r, (s', n)))"

definition coord_fetch :: "'w SagaDeps \<Rightarrow> ('w coord \<times> nat) fetch" where
  "coord_fetch deps url key body t = (\<lambda>(s, n).
     case dep_fetch deps url key body t (cs_world s) of
       (r, d, w) \<Rightarrow> (r, (elapse deps d (s\<lparr>cs_world := w\<rparr>), n)))"

definition coord_runtime :: "'w SagaDeps \<Rightarrow> ('w coord \<times> nat) runtime" where
  "coord_runtime deps = \<lparr>rt_sleep = (\<lambda>d (s, n). (elapse deps (nat d) s, n)),
     rt_random = (\<lambda>(s, n). (dep_jitter deps (cs_tick s), (s\<lparr>cs_tick := Suc (cs_tick s)\<rparr>, n))),
     rt_clock = (\<lambda>(s, n). cs_now s)\<rparr>"

definition step_body :: "ClaimedOrder \<Rightarrow> bool \<Rightarrow> StepRequestBody" where
  "step_body order frc = \<lparr>orderId = orderId order, sku = sku order, qty = qty order,
     amount = amount order, failAt = failAt order, compFailAt = compFailAt order, force = frc\<rparr>"

definition on_attempt ::
  "'w SagaDeps \<Rightarrow> ClaimedOrder \<Rightarrow> step \<Rightarrow> attempt_info \<Rightarrow> ('w coord \<times> nat, js_value, unit) act" where
  "on_attempt deps order st info = (\<lambda>(s, attempts).
     on_fst (query deps (recordAttempt (orderId order) st info)) (s, ai_attempt info))"

definition step_call_options ::
  "'w SagaDeps \<Rightarrow> ClaimedOrder \<Rightarrow> step \<Rightarrow> bool \<Rightarrow> ('w coord \<times> nat) call_options" where
  "step_call_options deps order st frc = \<lparr>co_baseUrl = serviceUrls deps (STEP_SERVICE st), co_step = st,
     co_body = step_body order frc, co_timeoutMs = step_timeoutMs deps,
     co_maxAttempts = step_maxAttempts deps, co_baseDelayMs = step_baseDelayMs deps,
     co_maxDelayMs = step_maxDelayMs deps, co_onAttempt = on_attempt deps order st\<rparr>"

record StepOutcome =
  out_step :: step
  out_ok :: bool
  out_error :: "js_value option"

definition execute_try ::
  "'w SagaDeps \<Rightarrow> ClaimedOrder \<Rightarrow> step \<Rightarrow> bool \<Rightarrow> ('w coord \<times> nat, js_value, StepOutcome) act" where
  "execute_try deps order st frc =
     seq_act (on_fst (query deps (markStepRunning (orderId order) st)))
       (bind_act (callStep (coord_fetch deps) (coord_runtime deps) (step_call_options deps order st frc))
         (\<lambda>_ (s, attempts).
           seq_act (on_fst (query deps (markStepResult (orderId order) st S_SUCCEEDED attempts None)))
             (ret_act \<lparr>out_step = st, out_ok = True, out_error = None\<rparr>) (s, attempts)))"

definition executeStep ::
  "'w SagaDeps \<Rightarrow> ClaimedOrder \<Rightarrow> step \<Rightarrow> bool \<Rightarrow> ('w coord, js_value, StepOutcome) act" where
  "executeStep deps order st frc s =
    (case execute_try deps order st frc (s, 0) of
       (Inr out, (s', _)) \<Rightarrow> (Inr out, s')
     | (Inl err, (s', attempts)) \<Rightarrow>
         seq_act (query deps (markStepResult (orderId order) st S_FAILED attempts (Some (error_message err))))
           (ret_act \<lparr>out_step = st, out_ok = False, out_error = Some err\<rparr>) s')"

section \<open>Several steps\<close>

fun run_branches ::
  "'w SagaDeps \<Rightarrow> ClaimedOrder \<Rightarrow> bool \<Rightarrow> step list \<Rightarrow> 'w coord \<Rightarrow>
     (step \<times> (js_value + StepOutcome)) list \<times> 'w coord" where
  "run_branches deps order frc [] s = ([], s)"
| "run_branches deps order frc (st # sts) s =
     (case executeStep deps order st frc s of (r, s1) \<Rightarrow>
       (case run_branches deps order frc sts s1 of (rs, s2) \<Rightarrow> ((st, r) # rs, s2)))"

text \<open>The order in which the branches take effect: a permutation of the steps.\<close>

definition arrange :: "'w SagaDeps \<Rightarrow> step list \<Rightarrow> step list" where
  "arrange deps steps =
     (if sort (dep_schedule deps steps) = sort steps then dep_schedule deps steps else steps)"

definition settled :: "(step \<times> (js_value + StepOutcome)) list \<Rightarrow> step \<Rightarrow> StepOutcome" where
  "settled rs st =
    (case map_of rs st of
       Some (Inr out) \<Rightarrow> out
     | Some (Inl e) \<Rightarrow> \<lparr>out_step = st, out_ok = False, out_error = Some e\<rparr>
     | None \<Rightarrow> \<lparr>out_step = st, out_ok = False, out_error = None\<rparr>)"

definition runConcurrently ::
  "'w SagaDeps \<Rightarrow> ClaimedOrder \<Rightarrow> step list \<Rightarrow> bool \<Rightarrow> ('w coord, js_value, StepOutcome list) act" where
  "runConcurrently deps order steps frc s =
    (case run_branches deps order frc (arrange deps steps) s of
       (rs, s') \<Rightarrow> (Inr (map (settled rs) steps), s'))"

section \<open>Compensation\<close>

fun mark_skipped ::
  "'w SagaDeps \<Rightarrow> string \<Rightarrow> compensation_step list \<Rightarrow> compensation_step list \<Rightarrow> ('w coord, js_value, unit) act"
where
  "mark_skipped deps oid needed [] = ret_act ()"
| "mark_skipped deps oid needed (c # cs) =
     (if List.member needed c then mark_skipped deps oid needed cs
      else seq_act (query deps (markStepResult oid (Comp c) S_SKIPPED 0 None))
             (mark_skipped deps oid needed cs))"

definition compensate ::
  "'w SagaDeps \<Rightarrow> ClaimedOrder \<Rightarrow> bool \<Rightarrow> ('w coord, js_value, order_status) act" where
  "compensate deps order frc =
     bind_act (query deps (getSucceededForwardSteps (orderId order))) (\<lambda>succeeded.
       let needed = map COMPENSATION_OF succeeded;
           toRun = filter (List.member needed) COMPENSATION_STEPS
       in seq_act (query deps (initSteps (orderId order) (map Comp COMPENSATION_STEPS)))
           (seq_act (mark_skipped deps (orderId order) needed COMPENSATION_STEPS)
             (if toRun = [] then ret_act CANCELLED
              else bind_act (runConcurrently deps order (map Comp toRun) frc) (\<lambda>outcomes.
                ret_act (if filter (\<lambda>out. \<not> out_ok out) outcomes = [] then CANCELLED else NEEDS_ATTENTION)))))"

text \<open>The terminal write; its answer (whether the lease was still held) is not looked at.\<close>

definition finish_order ::
  "'w SagaDeps \<Rightarrow> ClaimedOrder \<Rightarrow> order_status \<Rightarrow> ('w coord, js_value, order_status) act" where
  "finish_order deps order status =
     bind_act (query deps (setOrderStatus (orderId order) (instanceId deps) status True None))
       (\<lambda>_. ret_act status)"

section \<open>The saga\<close>

definition first_error_text :: "StepOutcome list \<Rightarrow> string" where
  "first_error_text failed = (case failed of [] \<Rightarrow> [] | out # _ \<Rightarrow>
     (case out_error out of None \<Rightarrow> [] | Some e \<Rightarrow> error_message e))"

definition forward_phase :: "'w SagaDeps \<Rightarrow> ClaimedOrder \<Rightarrow> ('w coord, js_value, StepOutcome list) act" where
  "forward_phase deps order =
     seq_act (query deps (initSteps (orderId order) (map Fwd FORWARD_STEPS)))
       (bind_act (query deps (getStepStatuses (orderId order))) (\<lambda>existing.
         runConcurrently deps order
           (filter (\<lambda>st. existing st \<noteq> Some S_SUCCEEDED) (map Fwd FORWARD_STEPS)) False))"

definition saga_body :: "'w SagaDeps \<Rightarrow> ClaimedOrder \<Rightarrow> ('w coord, js_value, order_status) act" where
  "saga_body deps order =
    (if claimed_status order = COMPENSATING then
       bind_act (compensate deps order False) (finish_order deps order)
     else
       bind_act (forward_phase deps order) (\<lambda>outcomes.
         let failed = filter (\<lambda>out. \<not> out_ok out) outcomes
         in if failed = [] then finish_order deps order PLACED
            else bind_act (query deps (setOrderStatus (orderId order) (instanceId deps) COMPENSATING False
                     (Some (first_error_text failed))))
                   (\<lambda>_. bind_act (compensate deps (order\<lparr>claimed_status := COMPENSATING\<rparr>) False)
                     (finish_order deps order))))"

definition runSaga :: "'w SagaDeps \<Rightarrow> ClaimedOrder \<Rightarrow> ('w coord, js_value, order_status) act" where
  "runSaga deps order s =
    (case saga_body deps order (startHeartbeat (orderId order) s) of (r, s') \<Rightarrow> (r, stopHeartbeat s'))"

definition retryCompensation :: "'w SagaDeps \<Rightarrow> ClaimedOrder \<Rightarrow> ('w coord, js_value, order_status) act" where
  "retryCompensation deps order = bind_act (compensate deps order True) (finish_order deps order)"

end
