(* ===== verification/SagaFrame.thy ===== *)
theory SagaFrame
  imports Saga
begin

text \<open>
  What the actions of the saga engine can touch. \<open>keeps_step\<close> says that a predicate of the
  database and the world survives everything executeStep may do for one step; the lemmas carry it
  through branches and phases, whatever fails on the way.
\<close>

section \<open>Queries\<close>

lemma query_cases:
  assumes "query deps q s = (r, s')"
  obtains (ok) "r = Inr (fst (q (cs_now s) (cs_db s)))" "cs_db s' = snd (q (cs_now s) (cs_db s))"
      "cs_world s' = cs_world s" "cs_now s' = cs_now s"
  | (failed) e where "r = Inl e" "cs_db s' = cs_db s \<or> cs_db s' = snd (q (cs_now s) (cs_db s))"
      "cs_world s' = cs_world s" "cs_now s' = cs_now s"
  using assms by (auto simp: query_def Let_def split: stmt_fate.splits prod.splits)

definition db_pred :: "(saga_db \<Rightarrow> 'w \<Rightarrow> bool) \<Rightarrow> 'w coord \<Rightarrow> bool" where
  "db_pred I s \<longleftrightarrow> I (cs_db s) (cs_world s)"

lemma preserves_query [preserves_intro]:
  assumes "\<And>t db w. I db w \<Longrightarrow> I (snd (q t db)) w"
  shows "preserves (db_pred I) (query deps q)"
proof (rule preservesI)
  fix s assume s: "db_pred I s"
  obtain r s' where "query deps q s = (r, s')" by fastforce
  then have "db_pred I s'"
    by (cases rule: query_cases) (use s assms in \<open>auto simp: db_pred_def\<close>)
  with \<open>query deps q s = (r, s')\<close> show "db_pred I (snd (query deps q s))" by simp
qed

lemma preserves_read [preserves_intro]:
  "(\<And>t db. snd (q t db) = db) \<Longrightarrow> preserves (db_pred I) (query deps q)"
  by (rule preserves_query) simp

lemma preserves_on_fst [preserves_intro]:
  "preserves P m \<Longrightarrow> preserves (\<lambda>x. P (fst x)) (on_fst m)"
  by (auto simp: preserves_def on_fst_def split: prod.splits)

section \<open>Time\<close>

definition keeps_beat :: "'w SagaDeps \<Rightarrow> (saga_db \<Rightarrow> 'w \<Rightarrow> bool) \<Rightarrow> bool" where
  "keeps_beat deps I \<longleftrightarrow> (\<forall>oid t db w. I db w \<longrightarrow> I (beat deps oid t db) w)"

lemma fold_beat: "keeps_beat deps I \<Longrightarrow> I db w \<Longrightarrow> I (fold (beat deps oid) ts db) w"
  by (induction ts arbitrary: db) (auto simp: keeps_beat_def)

lemma elapse_keeps: "keeps_beat deps I \<Longrightarrow> db_pred I s \<Longrightarrow> db_pred I (elapse deps d s)"
  by (auto simp: elapse_def db_pred_def fold_beat split: option.splits)

lemma elapse_simps [simp]: "cs_world (elapse deps d s) = cs_world s"
  by (auto simp: elapse_def split: option.splits)

section \<open>One step\<close>

definition step_url :: "'w SagaDeps \<Rightarrow> step \<Rightarrow> string" where
  "step_url deps st = trim_slash (serviceUrls deps (STEP_SERVICE st)) @ stepPath st"

text \<open>The one request that executeStep repeats.\<close>

definition post_step ::
  "'w SagaDeps \<Rightarrow> ClaimedOrder \<Rightarrow> step \<Rightarrow> bool \<Rightarrow> 'w \<Rightarrow> (js_value + fetch_response) \<times> nat \<times> 'w" where
  "post_step deps order st frc =
     dep_fetch deps (step_url deps st) (idempotencyKey (orderId order) st) (step_body order frc)
       (step_timeoutMs deps)"

text \<open>\<open>keeps_call\<close>: what precedes the step's result; \<open>keeps_step\<close>: all of it.\<close>

definition keeps_call ::
  "'w SagaDeps \<Rightarrow> ClaimedOrder \<Rightarrow> bool \<Rightarrow> (saga_db \<Rightarrow> 'w \<Rightarrow> bool) \<Rightarrow> step \<Rightarrow> bool" where
  "keeps_call deps order frc I st \<longleftrightarrow> keeps_beat deps I \<and>
     (\<forall>t db w. I db w \<longrightarrow> I (snd (markStepRunning (orderId order) st t db)) w) \<and>
     (\<forall>i t db w. I db w \<longrightarrow> I (snd (recordAttempt (orderId order) st i t db)) w) \<and>
     (\<forall>db w. I db w \<longrightarrow> I db (snd (snd (post_step deps order st frc w))))"

definition keeps_step ::
  "'w SagaDeps \<Rightarrow> ClaimedOrder \<Rightarrow> bool \<Rightarrow> (saga_db \<Rightarrow> 'w \<Rightarrow> bool) \<Rightarrow> step \<Rightarrow> bool" where
  "keeps_step deps order frc I st \<longleftrightarrow> keeps_call deps order frc I st \<and>
     (\<forall>x n e t db w. x = S_SUCCEEDED \<or> x = S_FAILED \<longrightarrow> I db w \<longrightarrow>
        I (snd (markStepResult (orderId order) st x n e t db)) w)"

lemma keeps_step_call: "keeps_step deps order frc I st \<Longrightarrow> keeps_call deps order frc I st"
  by (simp add: keeps_step_def)

lemma step_call_simps [simp]:
  "co_step (step_call_options deps order st frc) = st"
  "co_body (step_call_options deps order st frc) = step_body order frc"
  "co_timeoutMs (step_call_options deps order st frc) = step_timeoutMs deps"
  "co_maxAttempts (step_call_options deps order st frc) = step_maxAttempts deps"
  "call_url (step_call_options deps order st frc) = step_url deps st"
  "call_key (step_call_options deps order st frc) = idempotencyKey (orderId order) st"
  "co_onAttempt (step_call_options deps order st frc) = on_attempt deps order st"
  by (simp_all add: step_call_options_def call_url_def call_key_def step_url_def step_body_def)

lemma coord_fetch_keeps:
  fixes deps :: "'w SagaDeps"
  assumes "keeps_call deps order frc I st"
  shows "preserves (\<lambda>x. db_pred I (fst x)) (coord_fetch deps (step_url deps st)
    (idempotencyKey (orderId order) st) (step_body order frc) (step_timeoutMs deps))"
proof (rule preservesI)
  fix x :: "'w coord \<times> nat"
  assume x: "db_pred I (fst x)"
  obtain s n where sn: "x = (s, n)" by fastforce
  obtain r d w where p: "post_step deps order st frc (cs_world s) = (r, d, w)" by (metis prod.collapse)
  have "I (cs_db s) (snd (snd (post_step deps order st frc (cs_world s))))"
    using assms x unfolding keeps_call_def db_pred_def sn by simp
  then have "db_pred I (s\<lparr>cs_world := w\<rparr>)" by (simp add: db_pred_def p)
  then show "db_pred I (fst (snd (coord_fetch deps (step_url deps st) (idempotencyKey (orderId order) st)
      (step_body order frc) (step_timeoutMs deps) x)))"
    using assms p by (simp add: coord_fetch_def post_step_def keeps_call_def elapse_keeps sn)
qed

lemma on_attempt_keeps:
  fixes deps :: "'w SagaDeps"
  assumes "keeps_call deps order frc I st"
  shows "preserves (\<lambda>x. db_pred I (fst x)) (on_attempt deps order st info)"
proof -
  have "preserves (\<lambda>x. db_pred I (fst x))
      (on_fst (query deps (recordAttempt (orderId order) st info)) :: ('w coord \<times> nat, js_value, unit) act)"
    by (intro preserves_on_fst preserves_query) (use assms in \<open>simp add: keeps_call_def\<close>)
  then show ?thesis by (auto simp: preserves_def on_attempt_def)
qed

lemma call_keeps:
  fixes deps :: "'w SagaDeps"
  assumes "keeps_call deps order frc I st"
  shows "preserves (\<lambda>x. db_pred I (fst x))
    (callStep (coord_fetch deps) (coord_runtime deps) (step_call_options deps order st frc))"
proof (rule callStep_preserves)
  show "db_pred I (fst (rt_sleep (coord_runtime deps) d x))"
    if "db_pred I (fst x)" for d and x :: "'w coord \<times> nat"
    using that assms by (auto simp: coord_runtime_def keeps_call_def elapse_keeps split: prod.splits)
  show "db_pred I (fst (snd (rt_random (coord_runtime deps) x)))"
    if "db_pred I (fst x)" for x :: "'w coord \<times> nat"
    using that by (auto simp: coord_runtime_def db_pred_def split: prod.splits)
qed (simp_all add: coord_fetch_keeps [OF assms] on_attempt_keeps [OF assms])

lemma mark_result_keeps:
  assumes "keeps_step deps order frc I st" and "x = S_SUCCEEDED \<or> x = S_FAILED"
  shows "preserves (db_pred I) (query deps (markStepResult (orderId order) st x n e))"
  by (rule preserves_query) (use assms in \<open>auto simp: keeps_step_def\<close>)

lemma execute_try_keeps:
  fixes deps :: "'w SagaDeps"
  assumes "keeps_step deps order frc I st"
  shows "preserves (\<lambda>x. db_pred I (fst x)) (execute_try deps order st frc)"
proof -
  have run: "preserves (\<lambda>x. db_pred I (fst x)) (on_fst (query deps (markStepRunning (orderId order) st)))"
    by (rule preserves_on_fst, rule preserves_query) (use assms in \<open>simp add: keeps_step_def keeps_call_def\<close>)
  have fin: "preserves (\<lambda>x. db_pred I (fst x))
      (seq_act (on_fst (query deps (markStepResult (orderId order) st S_SUCCEEDED n None)))
        (ret_act out) :: ('w coord \<times> nat, js_value, StepOutcome) act)"
    for n and out :: StepOutcome
    by (rule preserves_seq, rule preserves_on_fst, rule mark_result_keeps [OF assms], simp, rule preserves_ret)
  have fin': "preserves (\<lambda>x. db_pred I (fst x)) (\<lambda>(s, attempts).
      seq_act (on_fst (query deps (markStepResult (orderId order) st S_SUCCEEDED attempts None)))
        (ret_act out) (s, attempts))" for out :: StepOutcome
  proof (rule preservesI)
    fix x :: "'w coord \<times> nat" assume "db_pred I (fst x)"
    with fin [of "snd x" out] show "db_pred I (fst (snd ((\<lambda>(s, attempts).
      seq_act (on_fst (query deps (markStepResult (orderId order) st S_SUCCEEDED attempts None)))
        (ret_act out) (s, attempts)) x)))"
      by (cases x) (simp add: preserves_def)
  qed
  show ?thesis
    unfolding execute_try_def
    by (rule preserves_seq [OF run], rule preserves_bind [OF call_keeps [OF keeps_step_call [OF assms]]], rule fin')
qed

lemma executeStep_keeps:
  assumes "keeps_step deps order frc I st"
  shows "preserves (db_pred I) (executeStep deps order st frc)"
proof (rule preservesI)
  fix s assume s: "db_pred I s"
  obtain r s1 n where t: "execute_try deps order st frc (s, 0) = (r, (s1, n))" by (metis prod.collapse)
  have s1: "db_pred I s1"
    using preservesD [OF execute_try_keeps [OF assms] _ t] s by simp
  show "db_pred I (snd (executeStep deps order st frc s))"
  proof (cases r)
    case (Inl e)
    have "preserves (db_pred I) (seq_act
        (query deps (markStepResult (orderId order) st S_FAILED n (Some (error_message e))))
        (ret_act \<lparr>out_step = st, out_ok = False, out_error = Some e\<rparr>))"
      by (intro preserves_seq preserves_ret mark_result_keeps [OF assms]) simp
    with t Inl s1 show ?thesis by (simp add: executeStep_def preserves_def)
  qed (use t s1 in \<open>simp add: executeStep_def\<close>)
qed

section \<open>Branches\<close>

lemma run_branches_keeps:
  assumes "\<And>st. st \<in> set sts \<Longrightarrow> keeps_step deps order frc I st" and "db_pred I s"
    and "run_branches deps order frc sts s = (rs, s')"
  shows "db_pred I s'"
  using assms
proof (induction sts arbitrary: s rs)
  case (Cons st sts)
  obtain r s1 where 1: "executeStep deps order st frc s = (r, s1)" by fastforce
  obtain rs1 where 2: "run_branches deps order frc sts s1 = (rs1, s')"
    using Cons.prems(3) 1 by (auto split: prod.splits)
  have "db_pred I s1"
    by (rule preservesD [OF executeStep_keeps [OF Cons.prems(1)] Cons.prems(2) 1]) simp
  with Cons.IH [OF _ _ 2] Cons.prems(1) show ?case by simp
qed simp

lemma arrange_set [simp]: "set (arrange deps steps) = set steps"
  by (auto simp: arrange_def) (metis set_sort)+

lemma arrange_distinct [simp]: "distinct (arrange deps steps) = distinct steps"
  by (auto simp: arrange_def) (metis distinct_sort)+

lemma runConcurrently_keeps [preserves_intro]:
  assumes "\<And>st. st \<in> set steps \<Longrightarrow> keeps_step deps order frc I st"
  shows "preserves (db_pred I) (runConcurrently deps order steps frc)"
proof (rule preservesI)
  fix s assume s: "db_pred I s"
  obtain rs s' where b: "run_branches deps order frc (arrange deps steps) s = (rs, s')" by fastforce
  have "db_pred I s'" by (rule run_branches_keeps [OF _ s b]) (use assms in simp)
  with b show "db_pred I (snd (runConcurrently deps order steps frc s))"
    by (simp add: runConcurrently_def)
qed

lemma mark_skipped_keeps [preserves_intro]:
  assumes "\<And>c t db w. c \<in> set cs \<Longrightarrow> \<not> List.member needed c \<Longrightarrow> I db w \<Longrightarrow>
      I (snd (markStepResult oid (Comp c) S_SKIPPED 0 None t db)) w"
  shows "preserves (db_pred I) (mark_skipped deps oid needed cs)"
  using assms
proof (induction cs)
  case (Cons c cs)
  then have IH: "preserves (db_pred I) (mark_skipped deps oid needed cs)" by simp
  have "preserves (db_pred I) (query deps (markStepResult oid (Comp c) S_SKIPPED 0 None))"
    if "\<not> List.member needed c"
    by (rule preserves_query) (use Cons.prems that in simp)
  with IH show ?case by (auto intro: preserves_seq)
qed (simp add: preserves_ret)

end
