(* ===== verification/SagaSpec.thy ===== *)
theory SagaSpec
  imports SagaFrame
begin

text \<open>
  What the saga engine guarantees about the step rows and the order row, for any services, any
  schedule of the branches and any failing statements: outcomes agree with the recorded statuses,
  compensation undoes exactly the recorded successes, and the returned status is the classification
  of the rows.
\<close>

section \<open>Frames\<close>

text \<open>The orders without the column the heartbeat writes.\<close>

definition orders_core :: "saga_db \<Rightarrow> order_row list" where
  "orders_core db = map (\<lambda>r. r\<lparr>o_lease_expires_at := None\<rparr>) (saga_orders db)"

definition near :: "string \<Rightarrow> step set \<Rightarrow> saga_db \<Rightarrow> saga_db \<Rightarrow> bool" where
  "near oid sts db0 db \<longleftrightarrow> db_ok db \<and> orders_core db = orders_core db0 \<and>
     (\<forall>oid' st. \<not> (oid' = oid \<and> st \<in> sts) \<longrightarrow> step_status_of db oid' st = step_status_of db0 oid' st)"

definition has_rows :: "string \<Rightarrow> step set \<Rightarrow> saga_db \<Rightarrow> bool" where
  "has_rows oid sts db \<longleftrightarrow> (\<forall>st \<in> sts. step_status_of db oid st \<noteq> None)"

lemma near_refl [simp]: "db_ok db \<Longrightarrow> near oid sts db db"
  by (simp add: near_def)

lemma near_trans: "near oid sts a b \<Longrightarrow> near oid sts' b c \<Longrightarrow> near oid (sts \<union> sts') a c"
  by (simp add: near_def)

lemma near_mono: "near oid sts a b \<Longrightarrow> sts \<subseteq> sts' \<Longrightarrow> near oid sts' a b"
  by (auto simp: near_def)

lemma near_ok [simp]: "near oid sts a b \<Longrightarrow> db_ok b"
  by (simp add: near_def)

lemma near_status: "near oid sts a b \<Longrightarrow> st \<notin> sts \<Longrightarrow> step_status_of b oid st = step_status_of a oid st"
  by (simp add: near_def)

lemma beat_frame [simp]:
  "saga_steps (beat deps oid t db) = saga_steps db"
  "step_status_of (beat deps oid t db) = step_status_of db"
  "orders_core (beat deps oid t db) = orders_core db"
  "db_ok db \<Longrightarrow> db_ok (beat deps oid t db)"
proof -
  show "saga_steps (beat deps oid t db) = saga_steps db"
    by (simp add: beat_def renew.tables)
  then show "step_status_of (beat deps oid t db) = step_status_of db"
    by (simp add: step_status_of_def fun_eq_iff)
  show "orders_core (beat deps oid t db) = orders_core db"
    by (simp add: beat_def renewLease_def orders_core_def sql_update_def)
  show "db_ok db \<Longrightarrow> db_ok (beat deps oid t db)"
    by (simp add: beat_def renew.keeps_ok)
qed

lemma orders_core_steps [simp]:
  "orders_core (snd (initSteps oid steps t db)) = orders_core db"
  "orders_core (snd (markStepRunning oid st t db)) = orders_core db"
  "orders_core (snd (markStepResult oid st x n e t db)) = orders_core db"
  "orders_core (snd (recordAttempt oid st i t db)) = orders_core db"
  by (simp_all add: orders_core_def sql_simps)

lemma near_keeps_step:
  assumes "st \<in> sts" and "\<And>w. J w \<Longrightarrow> J (snd (snd (post_step deps order st frc w)))"
  shows "keeps_step deps order frc
    (\<lambda>db w. near (orderId order) sts db0 db \<and> has_rows (orderId order) rows db \<and> J w) st"
  using assms unfolding keeps_step_def keeps_call_def keeps_beat_def near_def has_rows_def
  by (auto simp: sql_simps)

section \<open>One step\<close>

lemma seq_bind_assoc: "seq_act a (bind_act b k) = bind_act (seq_act a b) k"
  by (simp add: seq_act_def bind_act_assoc)

text \<open>A successful outcome was preceded by the statement that records it.\<close>

lemma execute_try_Inr:
  assumes "keeps_step deps order frc I st" and "db_pred I s"
    and "execute_try deps order st frc (s, 0) = (Inr out, (s', m))"
  shows "\<exists>s1 n. db_pred I s1 \<and>
    query deps (markStepResult (orderId order) st S_SUCCEEDED n None) s1 = (Inr (), s') \<and>
    out = \<lparr>out_step = st, out_ok = True, out_error = None\<rparr>"
proof -
  let ?pre = "seq_act (on_fst (query deps (markStepRunning (orderId order) st)))
       (callStep (coord_fetch deps) (coord_runtime deps) (step_call_options deps order st frc))"
  have "preserves (db_pred I) (query deps (markStepRunning (orderId order) st))"
    by (rule preserves_query) (use assms(1) in \<open>simp add: keeps_step_def keeps_call_def\<close>)
  then have pre: "preserves (\<lambda>x. db_pred I (fst x)) ?pre"
    by (intro preserves_seq preserves_on_fst call_keeps [OF keeps_step_call [OF assms(1)]])
  obtain r s1 n where p: "?pre (s, 0) = (r, (s1, n))" by (metis prod.collapse)
  have s1: "db_pred I s1" using preservesD [OF pre _ p] assms(2) by simp
  show ?thesis
  proof (cases r)
    case (Inl e)
    with p have p': "?pre (s, 0) = (Inl e, (s1, n))" by simp
    from assms(3) show ?thesis
      unfolding execute_try_def seq_bind_assoc bind_act_Inl [where m = ?pre, OF p'] by simp
  next
    case (Inr a)
    with p have p': "?pre (s, 0) = (Inr a, (s1, n))" by simp
    obtain q s2 where q: "query deps (markStepResult (orderId order) st S_SUCCEEDED n None) s1 = (q, s2)"
      by fastforce
    with assms(3) show ?thesis
      unfolding execute_try_def seq_bind_assoc bind_act_Inr [where m = ?pre, OF p']
      by (cases q) (use s1 in \<open>auto simp: seq_act_def bind_act_def on_fst_def ret_act_def\<close>)
  qed
qed

definition recorded :: "saga_db \<Rightarrow> string \<Rightarrow> step \<Rightarrow> js_value + StepOutcome \<Rightarrow> bool" where
  "recorded db oid st r \<longleftrightarrow> (\<forall>out. r = Inr out \<longrightarrow> out_step out = st \<and>
     step_status_of db oid st = Some (if out_ok out then S_SUCCEEDED else S_FAILED))"

lemma query_Inr_db:
  "query deps q s = (Inr a, s') \<Longrightarrow> cs_db s' = snd (q (cs_now s) (cs_db s)) \<and> a = fst (q (cs_now s) (cs_db s)) \<and>
    cs_world s' = cs_world s"
  by (auto elim: query_cases)

lemma executeStep_result:
  assumes J: "\<And>w. J w \<Longrightarrow> J (snd (snd (post_step deps order st frc w)))" "J (cs_world s)"
    and db: "db_ok (cs_db s)" "has_rows (orderId order) rows (cs_db s)" "st \<in> rows"
    and run: "executeStep deps order st frc s = (r, s')"
  shows "near (orderId order) {st} (cs_db s) (cs_db s') \<and> has_rows (orderId order) rows (cs_db s') \<and>
    J (cs_world s') \<and> recorded (cs_db s') (orderId order) st r"
proof -
  let ?I = "\<lambda>db w. near (orderId order) {st} (cs_db s) db \<and> has_rows (orderId order) rows db \<and> J w"
  have keep: "keeps_step deps order frc ?I st" by (rule near_keeps_step) (use J in auto)
  have I: "db_pred ?I s" using J db by (simp add: db_pred_def)
  have end_: "db_pred ?I s'" by (rule preservesD [OF executeStep_keeps [OF keep] I run])
  have mark: "recorded (cs_db s') (orderId order) st (Inr out)"
    if "query deps (markStepResult (orderId order) st x n e) s1 = (Inr (), s')" "db_pred ?I s1"
      "out_step out = st" "x = (if out_ok out then S_SUCCEEDED else S_FAILED)" for x n e s1 out
    using query_Inr_db [OF that(1)] that(2,3,4) db(3)
    by (auto simp: recorded_def db_pred_def has_rows_def sql_simps)
  obtain q s1 n where t: "execute_try deps order st frc (s, 0) = (q, (s1, n))" by (metis prod.collapse)
  have s1: "db_pred ?I s1" using preservesD [OF execute_try_keeps [OF keep] _ t] I by simp
  have "recorded (cs_db s') (orderId order) st r"
  proof (cases q)
    case (Inr out)
    with run t have r: "r = Inr out" "s' = s1" by (auto simp: executeStep_def)
    from execute_try_Inr [OF keep I t [unfolded Inr]] r mark show ?thesis by auto
  next
    case (Inl e)
    let ?q = "query deps (markStepResult (orderId order) st S_FAILED n (Some (error_message e)))"
    obtain p s2 where p: "?q s1 = (p, s2)" by fastforce
    show ?thesis
    proof (cases p)
      case Inl': (Inl e')
      with run t Inl p show ?thesis by (auto simp: executeStep_def recorded_def seq_act_Inl)
    next
      case (Inr u)
      with run t Inl p have r: "r = Inr \<lparr>out_step = st, out_ok = False, out_error = Some e\<rparr>" "s' = s2"
        by (auto simp: executeStep_def seq_act_Inr ret_act_def)
      from mark [of S_FAILED n "Some (error_message e)" s1] p Inr s1 r show ?thesis by auto
    qed
  qed
  with end_ show ?thesis by (simp add: db_pred_def)
qed

section \<open>Several steps\<close>

lemma run_branches_result:
  assumes J: "\<And>st w. st \<in> set sts \<Longrightarrow> J w \<Longrightarrow> J (snd (snd (post_step deps order st frc w)))" "J (cs_world s)"
    and db: "db_ok (cs_db s)" "has_rows (orderId order) rows (cs_db s)" "set sts \<subseteq> rows" "distinct sts"
    and run: "run_branches deps order frc sts s = (rs, s')"
  shows "near (orderId order) (set sts) (cs_db s) (cs_db s') \<and> has_rows (orderId order) rows (cs_db s') \<and>
    J (cs_world s') \<and>
    (\<forall>st \<in> set sts. \<exists>r. map_of rs st = Some r \<and> recorded (cs_db s') (orderId order) st r)"
  using assms
proof (induction sts arbitrary: s rs)
  case (Cons st sts)
  obtain r s1 where 1: "executeStep deps order st frc s = (r, s1)" by fastforce
  obtain rs1 where 2: "run_branches deps order frc sts s1 = (rs1, s')" and rs: "rs = (st, r) # rs1"
    using Cons.prems(7) 1 by (auto split: prod.splits)
  have E: "near (orderId order) {st} (cs_db s) (cs_db s1) \<and> has_rows (orderId order) rows (cs_db s1) \<and>
    J (cs_world s1) \<and> recorded (cs_db s1) (orderId order) st r"
    by (rule executeStep_result [where J = J, OF _ Cons.prems(2,3,4) _ 1]) (use Cons.prems in auto)
  have R: "near (orderId order) (set sts) (cs_db s1) (cs_db s') \<and> has_rows (orderId order) rows (cs_db s') \<and>
    J (cs_world s') \<and>
    (\<forall>st \<in> set sts. \<exists>r. map_of rs1 st = Some r \<and> recorded (cs_db s') (orderId order) st r)"
    by (rule Cons.IH [OF _ _ _ _ _ _ 2])  (use Cons.prems E in auto)
  have "step_status_of (cs_db s') (orderId order) st = step_status_of (cs_db s1) (orderId order) st"
    by (rule near_status [where sts = "set sts"]) (use R Cons.prems(6) in auto)
  then have "recorded (cs_db s') (orderId order) st r"
    using E by (simp add: recorded_def)
  moreover have "near (orderId order) (set (st # sts)) (cs_db s) (cs_db s')"
    using near_trans [of "orderId order" "{st}" "cs_db s" "cs_db s1" "set sts"] E R by simp
  ultimately show ?case using E R Cons.prems(6) by (auto simp: rs)
qed simp

lemma runConcurrently_result:
  assumes J: "\<And>st w. st \<in> set steps \<Longrightarrow> J w \<Longrightarrow> J (snd (snd (post_step deps order st frc w)))" "J (cs_world s)"
    and db: "db_ok (cs_db s)" "has_rows (orderId order) rows (cs_db s)" "set steps \<subseteq> rows" "distinct steps"
    and run: "runConcurrently deps order steps frc s = (r, s')"
  shows "near (orderId order) (set steps) (cs_db s) (cs_db s') \<and> has_rows (orderId order) rows (cs_db s') \<and>
    J (cs_world s') \<and>
    (\<exists>g. r = Inr (map g steps) \<and> (\<forall>st \<in> set steps. out_ok (g st) \<longrightarrow>
       step_status_of (cs_db s') (orderId order) st = Some S_SUCCEEDED))"
proof -
  obtain rs s1 where b: "run_branches deps order frc (arrange deps steps) s = (rs, s1)" by fastforce
  with run have r: "r = Inr (map (settled rs) steps)" "s' = s1" by (auto simp: runConcurrently_def)
  have B: "near (orderId order) (set (arrange deps steps)) (cs_db s) (cs_db s1) \<and>
    has_rows (orderId order) rows (cs_db s1) \<and> J (cs_world s1) \<and>
    (\<forall>st \<in> set (arrange deps steps). \<exists>r. map_of rs st = Some r \<and> recorded (cs_db s1) (orderId order) st r)"
    by (rule run_branches_result [where J = J, OF _ J(2) db(1,2) _ _ b]) (use J(1) db in auto)
  have "out_ok (settled rs st) \<longrightarrow> step_status_of (cs_db s1) (orderId order) st = Some S_SUCCEEDED"
    if "st \<in> set steps" for st
    using B that by (auto simp: settled_def recorded_def split: sum.splits dest!: bspec [where x = st])
  with B r show ?thesis by auto
qed

section \<open>Compensation\<close>

lemma query_near:
  assumes "query deps q s = (r, s')" and "near oid sts (cs_db s) (snd (q (cs_now s) (cs_db s)))"
    and "db_ok (cs_db s)"
  shows "near oid sts (cs_db s) (cs_db s') \<and> cs_world s' = cs_world s"
  using assms(1) by (cases rule: query_cases) (use assms(2,3) in auto)

lemma near_mark [simp]:
  "db_ok db \<Longrightarrow> near oid {st} db (snd (markStepResult oid st x n e t db))"
  by (auto simp: near_def sql_simps)

lemma near_init [simp]:
  "db_ok db \<Longrightarrow> near oid (set sts) db (snd (initSteps oid sts t db))"
  by (auto simp: near_def sql_simps)

lemma mark_skipped_result:
  assumes "mark_skipped deps oid needed cs s = (r, s')" and "db_ok (cs_db s)" and "distinct cs"
    and "has_rows oid rows (cs_db s)"
  shows "near oid (Comp ` {c \<in> set cs. \<not> List.member needed c}) (cs_db s) (cs_db s') \<and>
    has_rows oid rows (cs_db s') \<and> cs_world s' = cs_world s \<and>
    (r = Inr () \<longrightarrow> (\<forall>c \<in> set cs. \<not> List.member needed c \<longrightarrow> Comp c \<in> rows \<longrightarrow>
       step_status_of (cs_db s') oid (Comp c) = Some S_SKIPPED))"
  using assms
proof (induction cs arbitrary: s)
  case Nil
  then show ?case by (auto simp: ret_act_def)
next
  case (Cons c cs)
  show ?case
  proof (cases "List.member needed c")
    case True
    with Cons.prems have run: "mark_skipped deps oid needed cs s = (r, s')" by simp
    have "{c' \<in> set (c # cs). \<not> List.member needed c'} = {c' \<in> set cs. \<not> List.member needed c'}"
      using True by auto
    with Cons.IH [OF run] Cons.prems True show ?thesis by simp
  next
    case False
    let ?q = "markStepResult oid (Comp c) S_SKIPPED 0 None"
    obtain p s1 where p: "query deps ?q s = (p, s1)" by fastforce
    have n1: "near oid {Comp c} (cs_db s) (cs_db s1)" "cs_world s1 = cs_world s"
      using query_near [OF p, of oid "{Comp c}"] Cons.prems(2) by auto
    have rows1: "has_rows oid rows (cs_db s1)"
      using p by (cases rule: query_cases) (use Cons.prems(4) in \<open>auto simp: has_rows_def sql_simps\<close>)
    let ?todo = "{c' \<in> set cs. \<not> List.member needed c'}"
    have todo: "Comp ` {c' \<in> set (c # cs). \<not> List.member needed c'} = {Comp c} \<union> Comp ` ?todo"
      using False by auto
    show ?thesis
    proof (cases p)
      case (Inl e)
      with p Cons.prems(1) False have "r = Inl e" "s' = s1" by (auto simp: seq_act_Inl)
      with n1 rows1 near_mono [OF n1(1), of "{Comp c} \<union> Comp ` ?todo"] show ?thesis
        unfolding todo by auto
    next
      case (Inr u)
      with p Cons.prems(1) False have rec: "mark_skipped deps oid needed cs s1 = (r, s')"
        by (simp add: seq_act_Inr)
      have R: "near oid (Comp ` ?todo) (cs_db s1) (cs_db s') \<and>
        has_rows oid rows (cs_db s') \<and> cs_world s' = cs_world s1 \<and>
        (r = Inr () \<longrightarrow> (\<forall>c \<in> set cs. \<not> List.member needed c \<longrightarrow> Comp c \<in> rows \<longrightarrow>
          step_status_of (cs_db s') oid (Comp c) = Some S_SKIPPED))"
        by (rule Cons.IH [OF rec]) (use n1 rows1 Cons.prems(3) in auto)
      have "near oid ({Comp c} \<union> Comp ` ?todo) (cs_db s) (cs_db s')"
        using near_trans n1 R by blast
      moreover have "step_status_of (cs_db s') oid (Comp c) = step_status_of (cs_db s1) oid (Comp c)"
        by (rule near_status [where sts = "Comp ` ?todo"]) (use R Cons.prems(3) in auto)
      moreover have "Comp c \<in> rows \<longrightarrow> step_status_of (cs_db s1) oid (Comp c) = Some S_SKIPPED"
        using query_Inr_db [OF p [unfolded Inr]] Cons.prems(4) by (auto simp: has_rows_def sql_simps)
      ultimately show ?thesis using R n1 unfolding todo by auto
    qed
  qed
qed

text \<open>Compensation in two parts: preparing the rows of the undo steps, and calling those that are needed.\<close>

definition prepare_undo :: "'w SagaDeps \<Rightarrow> string \<Rightarrow> compensation_step list \<Rightarrow> ('w coord, js_value, unit) act" where
  "prepare_undo deps oid needed =
     seq_act (query deps (initSteps oid (map Comp COMPENSATION_STEPS))) (mark_skipped deps oid needed COMPENSATION_STEPS)"

definition undo_needed :: "'w SagaDeps \<Rightarrow> ClaimedOrder \<Rightarrow> bool \<Rightarrow> step list \<Rightarrow> ('w coord, js_value, order_status) act" where
  "undo_needed deps order frc toRun =
    (if toRun = [] then ret_act CANCELLED
     else bind_act (runConcurrently deps order toRun frc) (\<lambda>outcomes.
       ret_act (if filter (\<lambda>out. \<not> out_ok out) outcomes = [] then CANCELLED else NEEDS_ATTENTION)))"

definition undo_steps :: "forward_step list \<Rightarrow> step list" where
  "undo_steps succeeded = map Comp (filter (List.member (map COMPENSATION_OF succeeded)) COMPENSATION_STEPS)"

lemma compensate_eq:
  "compensate deps order frc = bind_act (query deps (getSucceededForwardSteps (orderId order))) (\<lambda>succeeded.
     seq_act (prepare_undo deps (orderId order) (map COMPENSATION_OF succeeded))
       (undo_needed deps order frc (undo_steps succeeded)))"
  by (simp add: compensate_def prepare_undo_def undo_needed_def undo_steps_def seq_act_def bind_act_assoc Let_def)

lemma undo_steps_set: "Comp (COMPENSATION_OF f) \<in> set (undo_steps succeeded) \<longleftrightarrow> f \<in> set succeeded"
  by (auto simp: undo_steps_def COMPENSATION_OF_inj compensation_step_cases)

lemma undo_stepsE: "st \<in> set (undo_steps succeeded) \<Longrightarrow> \<exists>f \<in> set succeeded. st = Comp (COMPENSATION_OF f)"
  by (auto simp: undo_steps_def)

lemma undo_steps_range: "set (undo_steps succeeded) \<subseteq> range Comp"
  by (auto simp: undo_steps_def)

lemma undo_steps_distinct [simp]: "distinct (undo_steps succeeded)"
  using distinct_COMPENSATION_STEPS by (auto simp: undo_steps_def distinct_map inj_on_def)

lemma range_Comp: "range Comp = Comp ` set COMPENSATION_STEPS"
  using compensation_step_cases by auto

lemma prepare_result:
  assumes run: "prepare_undo deps oid needed s = (r, s')" and ok: "db_ok (cs_db s)"
  shows "near oid (range Comp) (cs_db s) (cs_db s') \<and> cs_world s' = cs_world s \<and>
    (r = Inr () \<longrightarrow> has_rows oid (range Comp) (cs_db s') \<and>
      (\<forall>c. c \<notin> set needed \<longrightarrow> step_status_of (cs_db s') oid (Comp c) = Some S_SKIPPED))"
proof -
  have comps: "set (map Comp COMPENSATION_STEPS) = range Comp" by (simp add: range_Comp)
  obtain r1 s1 where q1: "query deps (initSteps oid (map Comp COMPENSATION_STEPS)) s = (r1, s1)" by fastforce
  have n1: "near oid (range Comp) (cs_db s) (cs_db s1)" "cs_world s1 = cs_world s"
    using query_near [OF q1, of oid "range Comp"] near_init [of "cs_db s" oid "map Comp COMPENSATION_STEPS"] ok
    unfolding comps by auto
  show ?thesis
  proof (cases r1)
    case (Inl e)
    with run q1 n1 show ?thesis by (auto simp: prepare_undo_def seq_act_Inl)
  next
    case (Inr u)
    with run q1 have q2: "mark_skipped deps oid needed COMPENSATION_STEPS s1 = (r, s')"
      by (simp add: prepare_undo_def seq_act_Inr)
    have rows: "has_rows oid (range Comp) (cs_db s1)"
      using query_Inr_db [OF q1 [unfolded Inr]] by (auto simp: has_rows_def sql_simps compensation_step_cases)
    have n2: "near oid (Comp ` {c \<in> set COMPENSATION_STEPS. \<not> List.member needed c}) (cs_db s1) (cs_db s') \<and>
        has_rows oid (range Comp) (cs_db s') \<and> cs_world s' = cs_world s1 \<and>
        (r = Inr () \<longrightarrow> (\<forall>c \<in> set COMPENSATION_STEPS. \<not> List.member needed c \<longrightarrow> Comp c \<in> range Comp \<longrightarrow>
          step_status_of (cs_db s') oid (Comp c) = Some S_SKIPPED))"
      by (rule mark_skipped_result [OF q2 _ distinct_COMPENSATION_STEPS rows]) (use n1 in simp)
    have "near oid (range Comp) (cs_db s) (cs_db s')"
      using near_trans [OF n1(1) conjunct1 [OF n2]] by (rule near_mono) auto
    with n1 n2 show ?thesis by (simp add: compensation_step_cases)
  qed
qed

lemma undo_result:
  assumes J: "\<And>st w. st \<in> set toRun \<Longrightarrow> J w \<Longrightarrow> J (snd (snd (post_step deps order st frc w)))" "J (cs_world s)"
    and db: "db_ok (cs_db s)" "has_rows (orderId order) (range Comp) (cs_db s)" "set toRun \<subseteq> range Comp" "distinct toRun"
    and run: "undo_needed deps order frc toRun s = (r, s')"
  shows "near (orderId order) (set toRun) (cs_db s) (cs_db s') \<and> J (cs_world s') \<and> r \<in> {Inr CANCELLED, Inr NEEDS_ATTENTION} \<and>
    (r = Inr CANCELLED \<longrightarrow> (\<forall>st \<in> set toRun. step_status_of (cs_db s') (orderId order) st = Some S_SUCCEEDED))"
proof (cases "toRun = []")
  case True
  with run J(2) db(1) show ?thesis by (auto simp: undo_needed_def ret_act_def)
next
  case False
  obtain r1 s1 where q: "runConcurrently deps order toRun frc s = (r1, s1)" by fastforce
  from runConcurrently_result [where J = J, OF J db q] obtain g where
    R: "near (orderId order) (set toRun) (cs_db s) (cs_db s1)" "J (cs_world s1)" "r1 = Inr (map g toRun)"
      "\<forall>st \<in> set toRun. out_ok (g st) \<longrightarrow> step_status_of (cs_db s1) (orderId order) st = Some S_SUCCEEDED"
    by blast
  with run q False show ?thesis
    by (auto simp: undo_needed_def bind_act_Inr ret_act_def filter_empty_conv split: if_splits)
qed

text \<open>The steps compensation may call: the undo of a recorded success.\<close>

definition undo_calls_keep :: "'w SagaDeps \<Rightarrow> ClaimedOrder \<Rightarrow> bool \<Rightarrow> saga_db \<Rightarrow> ('w \<Rightarrow> bool) \<Rightarrow> bool" where
  "undo_calls_keep deps order frc db J \<longleftrightarrow>
     (\<forall>f w. step_status_of db (orderId order) (Fwd f) = Some S_SUCCEEDED \<longrightarrow> J w \<longrightarrow>
        J (snd (snd (post_step deps order (Comp (COMPENSATION_OF f)) frc w))))"

definition classified :: "saga_db \<Rightarrow> string \<Rightarrow> bool" where
  "classified db oid \<longleftrightarrow> (\<forall>f. step_status_of db oid (Comp (COMPENSATION_OF f)) =
     Some (if step_status_of db oid (Fwd f) = Some S_SUCCEEDED then S_SUCCEEDED else S_SKIPPED))"

lemma compensate_result:
  assumes J: "undo_calls_keep deps order frc (cs_db s) J" "J (cs_world s)" and ok: "db_ok (cs_db s)"
    and run: "compensate deps order frc s = (r, s')"
  shows "near (orderId order) (range Comp) (cs_db s) (cs_db s') \<and> J (cs_world s') \<and>
    (\<forall>x. r = Inr x \<longrightarrow> x \<in> {CANCELLED, NEEDS_ATTENTION}) \<and>
    (r = Inr CANCELLED \<longrightarrow> classified (cs_db s') (orderId order))"
proof -
  let ?oid = "orderId order" and ?db = "cs_db s"
  obtain r0 s0 where q0: "query deps (getSucceededForwardSteps ?oid) s = (r0, s0)" by fastforce
  have s0: "cs_db s0 = ?db" "cs_world s0 = cs_world s"
    using q0 by (cases rule: query_cases; auto)+
  show ?thesis
  proof (cases r0)
    case (Inl e)
    with run q0 s0 J ok show ?thesis by (auto simp: compensate_eq bind_act_Inl)
  next
    case (Inr succeeded)
    have need: "f \<in> set succeeded \<longleftrightarrow> step_status_of ?db ?oid (Fwd f) = Some S_SUCCEEDED" for f
      using query_Inr_db [OF q0 [unfolded Inr]] succeeded_forward_iff [OF ok, of f ?oid] by simp
    let ?needed = "map COMPENSATION_OF succeeded" and ?toRun = "undo_steps succeeded"
    obtain r1 s1 where q1: "prepare_undo deps ?oid ?needed s0 = (r1, s1)" by fastforce
    note P = prepare_result [OF q1, unfolded s0, OF ok]
    show ?thesis
    proof (cases r1)
      case Inl1: (Inl e)
      with run q0 Inr q1 P J show ?thesis by (auto simp: compensate_eq bind_act_Inr seq_act_Inl)
    next
      case Inr1: (Inr u)
      with run q0 Inr q1 have q2: "undo_needed deps order frc ?toRun s1 = (r, s')"
        by (simp add: compensate_eq bind_act_Inr seq_act_Inr)
      have call: "J (snd (snd (post_step deps order st frc w)))" if "st \<in> set ?toRun" "J w" for st w
        using undo_stepsE [OF that(1)] that(2) J(1) need by (auto simp: undo_calls_keep_def)
      have U: "near ?oid (set ?toRun) (cs_db s1) (cs_db s') \<and> J (cs_world s') \<and> r \<in> {Inr CANCELLED, Inr NEEDS_ATTENTION} \<and>
        (r = Inr CANCELLED \<longrightarrow> (\<forall>st \<in> set ?toRun. step_status_of (cs_db s') ?oid st = Some S_SUCCEEDED))"
        by (rule undo_result [where J = J, OF call _ _ _ _ _ q2]) (use P J(2) Inr1 undo_steps_range in auto)
      have n: "near ?oid (range Comp) ?db (cs_db s')"
        using near_trans [OF conjunct1 [OF P] conjunct1 [OF U]] by (rule near_mono) (auto simp: undo_steps_def)
      have fwd: "step_status_of (cs_db s') ?oid (Fwd f) = step_status_of ?db ?oid (Fwd f)" for f
        by (rule near_status [OF n]) auto
      have "step_status_of (cs_db s') ?oid (Comp (COMPENSATION_OF f)) = Some S_SKIPPED" if f: "f \<notin> set succeeded" for f
      proof -
        have "COMPENSATION_OF f \<notin> set ?needed" using f by (auto simp: COMPENSATION_OF_inj)
        with near_status [OF conjunct1 [OF U], of "Comp (COMPENSATION_OF f)"] P Inr1 f
        show ?thesis by (simp add: undo_steps_set)
      qed
      then have "classified (cs_db s') ?oid" if "r = Inr CANCELLED"
        using U that need fwd by (auto simp: classified_def undo_steps_set)
      with n U show ?thesis by auto
    qed
  qed
qed

end
