(* ===== verification/SagaRun.thy ===== *)
theory SagaRun
  imports SagaSpec Claim
begin

text \<open>
  Whole runs of an order: what runSaga and retryCompensation answer, what they leave in the tables,
  which calls they make. The database may fail any statement, fetch may answer anything.
\<close>

section \<open>The order row\<close>

definition order_core_at :: "saga_db \<Rightarrow> string \<rightharpoonup> order_row" where
  "order_core_at db oid = map_option (\<lambda>r. r\<lparr>o_lease_expires_at := None\<rparr>) (order_at db oid)"

lemma row_at_map: "(\<And>r. k (g r) = k r) \<Longrightarrow> row_at k x (map g rs) = map_option g (row_at k x rs)"
  by (induction rs) auto

lemma order_core_at_core: "order_core_at db oid = row_at o_order_id oid (orders_core db)"
  by (simp add: order_core_at_def order_at_def orders_core_def row_at_map)

lemma near_order: "near oid sts a b \<Longrightarrow> order_core_at b oid' = order_core_at a oid'"
  by (simp add: near_def order_core_at_core)

text \<open>The row the terminal write leaves: untouched unless the instance still holds the lease.\<close>

definition closed_row :: "string \<Rightarrow> order_status \<Rightarrow> order_row \<Rightarrow> order_row" where
  "closed_row me status r = (if o_lease_owner r = Some me then status_write status True None r else r)"

lemma set_status_at:
  assumes "db_ok db"
  shows "order_at (snd (setOrderStatus oid me status clear err now db)) oid =
    map_option (\<lambda>r. if o_lease_owner r = Some me then status_write status clear err r else r) (order_at db oid)"
proof -
  have k: "o_order_id (status_write status clear err r) = o_order_id r" for r
    by (simp add: status_write_def)
  show ?thesis
    by (cases "row_at o_order_id oid (saga_orders db)")
       (auto simp: setOrderStatus_def order_at_def case_prod_beta row_at_update [where k = o_order_id, OF k]
         owned_by_def dest: row_at_Some_key)
qed

lemma set_status_near:
  assumes "db_ok db"
  shows "db_ok (snd (setOrderStatus oid me status clear err now db)) \<and>
    step_status_of (snd (setOrderStatus oid me status clear err now db)) = step_status_of db"
  using set_status.keeps_ok [OF assms] by (simp add: step_status_of_def fun_eq_iff set_status.tables)

lemma query_status:
  assumes "query deps (setOrderStatus oid me status clear err) s = (r, s')" and "db_ok (cs_db s)"
  shows "db_ok (cs_db s') \<and> step_status_of (cs_db s') = step_status_of (cs_db s) \<and> cs_world s' = cs_world s"
  using assms(1) by (cases rule: query_cases) (use set_status_near [OF assms(2)] assms(2) in auto)

lemma finish_order_result:
  assumes "finish_order deps order st s = (r, s')" and "db_ok (cs_db s)"
  shows "db_ok (cs_db s') \<and> step_status_of (cs_db s') = step_status_of (cs_db s) \<and> cs_world s' = cs_world s \<and>
    (\<forall>x. r = Inr x \<longrightarrow> x = st \<and> order_core_at (cs_db s') (orderId order) =
       map_option (closed_row (instanceId deps) st) (order_core_at (cs_db s) (orderId order)))"
proof -
  let ?q = "setOrderStatus (orderId order) (instanceId deps) st True None"
  obtain p s1 where q: "query deps ?q s = (p, s1)" by fastforce
  have s1: "s' = s1" "\<And>x. r = Inr x \<Longrightarrow> x = st \<and> (\<exists>b. p = Inr b)"
    using assms(1) q by (cases p; auto simp: finish_order_def bind_act_Inl bind_act_Inr ret_act_def)+
  have "order_core_at (cs_db s1) (orderId order) =
       map_option (closed_row (instanceId deps) st) (order_core_at (cs_db s) (orderId order))" if "p = Inr b" for b
    using query_Inr_db [OF q [unfolded that]] set_status_at [OF assms(2), of "orderId order"]
    by (cases "order_at (cs_db s) (orderId order)")
       (simp_all add: order_core_at_def closed_row_def status_write_def)
  with s1 query_status [OF q assms(2)] show ?thesis by blast
qed

section \<open>The forward phase\<close>

definition forward_calls_keep :: "'w SagaDeps \<Rightarrow> ClaimedOrder \<Rightarrow> saga_db \<Rightarrow> ('w \<Rightarrow> bool) \<Rightarrow> bool" where
  "forward_calls_keep deps order db J \<longleftrightarrow>
     (\<forall>f w. step_status_of db (orderId order) (Fwd f) \<noteq> Some S_SUCCEEDED \<longrightarrow> J w \<longrightarrow>
        J (snd (snd (post_step deps order (Fwd f) False w))))"

lemma range_Fwd: "range Fwd = Fwd ` set FORWARD_STEPS"
  using forward_step_cases by auto

text \<open>The steps that are pending, once their rows are there.\<close>

lemma pending_result:
  assumes J: "\<And>f w. step_status_of (cs_db s) (orderId order) (Fwd f) \<noteq> Some S_SUCCEEDED \<Longrightarrow> J w \<Longrightarrow>
      J (snd (snd (post_step deps order (Fwd f) False w)))" "J (cs_world s)"
    and db: "db_ok (cs_db s)" "has_rows (orderId order) (range Fwd) (cs_db s)"
    and run: "runConcurrently deps order (filter (\<lambda>st. step_status_of (cs_db s) (orderId order) st \<noteq> Some S_SUCCEEDED)
      (map Fwd FORWARD_STEPS)) False s = (r, s')"
  shows "near (orderId order) (range Fwd) (cs_db s) (cs_db s') \<and> J (cs_world s') \<and>
    (\<forall>outs. r = Inr outs \<longrightarrow> filter (\<lambda>out. \<not> out_ok out) outs = [] \<longrightarrow>
       (\<forall>f. step_status_of (cs_db s') (orderId order) (Fwd f) = Some S_SUCCEEDED))"
proof -
  let ?oid = "orderId order"
  let ?pending = "filter (\<lambda>st. step_status_of (cs_db s) ?oid st \<noteq> Some S_SUCCEEDED) (map Fwd FORWARD_STEPS)"
  have pend: "Fwd f \<in> set ?pending \<longleftrightarrow> step_status_of (cs_db s) ?oid (Fwd f) \<noteq> Some S_SUCCEEDED" for f
    using forward_step_cases [of f] by auto
  have call: "J (snd (snd (post_step deps order st False w)))" if "st \<in> set ?pending" "J w" for st w
    using that J(1) by auto
  have d: "distinct ?pending" using distinct_FORWARD_STEPS by (simp add: distinct_map inj_on_def)
  have R: "near ?oid (set ?pending) (cs_db s) (cs_db s') \<and> has_rows ?oid (range Fwd) (cs_db s') \<and> J (cs_world s') \<and>
    (\<exists>g. r = Inr (map g ?pending) \<and> (\<forall>st \<in> set ?pending. out_ok (g st) \<longrightarrow>
       step_status_of (cs_db s') ?oid st = Some S_SUCCEEDED))"
    by (rule runConcurrently_result [where J = J, OF call _ db(1,2) _ d run]) (use J(2) in auto)
  have "step_status_of (cs_db s') ?oid (Fwd f) = Some S_SUCCEEDED"
    if "r = Inr outs" "filter (\<lambda>out. \<not> out_ok out) outs = []" for outs f
  proof (cases "Fwd f \<in> set ?pending")
    case True
    with R that show ?thesis by (auto simp: filter_empty_conv)
  next
    case False
    with pend [of f] near_status [OF conjunct1 [OF R] False] show ?thesis by simp
  qed
  moreover have "near ?oid (range Fwd) (cs_db s) (cs_db s')"
    using conjunct1 [OF R] by (rule near_mono) auto
  ultimately show ?thesis using R by auto
qed

lemma forward_phase_result:
  assumes J: "forward_calls_keep deps order (cs_db s) J" "J (cs_world s)" and ok: "db_ok (cs_db s)"
    and run: "forward_phase deps order s = (r, s')"
  shows "near (orderId order) (range Fwd) (cs_db s) (cs_db s') \<and> J (cs_world s') \<and>
    (\<forall>outs. r = Inr outs \<longrightarrow> filter (\<lambda>out. \<not> out_ok out) outs = [] \<longrightarrow>
       (\<forall>f. step_status_of (cs_db s') (orderId order) (Fwd f) = Some S_SUCCEEDED))"
proof -
  let ?oid = "orderId order"
  obtain r1 s1 where q1: "query deps (initSteps ?oid (map Fwd FORWARD_STEPS)) s = (r1, s1)" by fastforce
  have fwds: "set (map Fwd FORWARD_STEPS) = range Fwd" by (simp add: range_Fwd)
  have n1: "near ?oid (range Fwd) (cs_db s) (cs_db s1)" "cs_world s1 = cs_world s"
    using query_near [OF q1, of ?oid "range Fwd"] near_init [of "cs_db s" ?oid "map Fwd FORWARD_STEPS"]
      ok unfolding fwds by auto
  show ?thesis
  proof (cases r1)
    case (Inl e)
    with run q1 have "r = Inl e" "s' = s1" by (auto simp: forward_phase_def seq_act_Inl)
    with n1 J show ?thesis by simp
  next
    case (Inr u)
    have st1: "step_status_of (cs_db s1) ?oid (Fwd f) = Some (rearm (step_status_of (cs_db s) ?oid (Fwd f)))" for f
      using query_Inr_db [OF q1 [unfolded Inr]] by (simp add: sql_simps forward_step_cases)
    obtain r2 s2 where q2: "query deps (getStepStatuses ?oid) s1 = (r2, s2)" by fastforce
    have s2: "cs_db s2 = cs_db s1" "cs_world s2 = cs_world s"
      using q2 n1(2) by (cases rule: query_cases; auto)+
    show ?thesis
    proof (cases r2)
      case Inl2: (Inl e)
      with run q1 Inr q2 have "r = Inl e" "s' = s2"
        by (auto simp: forward_phase_def seq_act_Inr bind_act_Inl)
      with n1 s2 J show ?thesis by simp
    next
      case Inr2: (Inr existing)
      have ex: "existing = step_status_of (cs_db s1) ?oid"
        using query_Inr_db [OF q2 [unfolded Inr2]] step_statuses_eq [of "cs_db s1"] n1 by simp
      have st2: "step_status_of (cs_db s2) ?oid (Fwd f) = Some (rearm (step_status_of (cs_db s) ?oid (Fwd f)))" for f
        using st1 s2 by simp
      have q3: "runConcurrently deps order (filter (\<lambda>st. step_status_of (cs_db s2) ?oid st \<noteq> Some S_SUCCEEDED)
          (map Fwd FORWARD_STEPS)) False s2 = (r, s')"
        using run q1 Inr q2 Inr2 ex s2 by (simp add: forward_phase_def seq_act_Inr bind_act_Inr)
      have R: "near ?oid (range Fwd) (cs_db s2) (cs_db s') \<and> J (cs_world s') \<and>
        (\<forall>outs. r = Inr outs \<longrightarrow> filter (\<lambda>out. \<not> out_ok out) outs = [] \<longrightarrow>
           (\<forall>f. step_status_of (cs_db s') ?oid (Fwd f) = Some S_SUCCEEDED))"
      proof (rule pending_result [OF _ _ _ _ q3])
        show "J (snd (snd (post_step deps order (Fwd f) False w)))"
          if "step_status_of (cs_db s2) ?oid (Fwd f) \<noteq> Some S_SUCCEEDED" "J w" for f w
          using that st2 [of f] J(1) by (auto simp: rearm_def forward_calls_keep_def split: if_splits)
      qed (use s2 J(2) n1 st2 in \<open>auto simp: has_rows_def\<close>)
      moreover have "near ?oid (range Fwd \<union> range Fwd) (cs_db s) (cs_db s')"
        by (rule near_trans [OF n1(1)]) (use R s2 in simp)
      ultimately show ?thesis by simp
    qed
  qed
qed

section \<open>The saga\<close>

text \<open>What a finished run says of the step rows.\<close>

definition status_fits :: "saga_db \<Rightarrow> string \<Rightarrow> order_status \<Rightarrow> bool" where
  "status_fits db oid st \<longleftrightarrow> st \<in> {PLACED, CANCELLED, NEEDS_ATTENTION} \<and>
     (st = PLACED \<longrightarrow> (\<forall>f. step_status_of db oid (Fwd f) = Some S_SUCCEEDED)) \<and>
     (st = CANCELLED \<longrightarrow> classified db oid)"

lemma compensate_finish_result:
  assumes J: "undo_calls_keep deps order frc (cs_db s) J" "J (cs_world s)" and ok: "db_ok (cs_db s)"
    and run: "bind_act (compensate deps order frc) (finish_order deps order) s = (r, s')"
  shows "db_ok (cs_db s') \<and> J (cs_world s') \<and>
    (\<forall>f. step_status_of (cs_db s') (orderId order) (Fwd f) = step_status_of (cs_db s) (orderId order) (Fwd f)) \<and>
    (\<forall>x. r = Inr x \<longrightarrow> x \<noteq> PLACED \<and> status_fits (cs_db s') (orderId order) x \<and>
       order_core_at (cs_db s') (orderId order) =
         map_option (closed_row (instanceId deps) x) (order_core_at (cs_db s) (orderId order)))"
proof -
  obtain p s1 where c: "compensate deps order frc s = (p, s1)" by fastforce
  note C = compensate_result [where J = J, OF J ok c]
  have fwd: "step_status_of (cs_db s1) (orderId order) (Fwd f) = step_status_of (cs_db s) (orderId order) (Fwd f)" for f
    by (rule near_status [OF conjunct1 [OF C]]) auto
  have core: "order_core_at (cs_db s1) (orderId order) = order_core_at (cs_db s) (orderId order)"
    using C near_order by blast
  show ?thesis
  proof (cases p)
    case (Inl e)
    with run c have "r = Inl e" "s' = s1" by (auto simp: bind_act_Inl)
    with C fwd show ?thesis by auto
  next
    case (Inr x)
    with run c have f: "finish_order deps order x s1 = (r, s')" by (simp add: bind_act_Inr)
    have ok1: "db_ok (cs_db s1)" using C by auto
    from finish_order_result [OF f ok1] C Inr fwd core show ?thesis
      by (auto simp: status_fits_def classified_def)
  qed
qed

lemma start_stop_simps [simp]:
  "cs_db (startHeartbeat oid s) = cs_db s" "cs_world (startHeartbeat oid s) = cs_world s"
  "cs_db (stopHeartbeat s) = cs_db s" "cs_world (stopHeartbeat s) = cs_world s"
  by (simp_all add: startHeartbeat_def stopHeartbeat_def)

lemma runSaga_body:
  "runSaga deps order s = (r, s') \<Longrightarrow>
    \<exists>s1. saga_body deps order (startHeartbeat (orderId order) s) = (r, s1) \<and> cs_db s' = cs_db s1 \<and>
      cs_world s' = cs_world s1"
  by (auto simp: runSaga_def split: prod.splits)

lemma undo_calls_compensating:
  "undo_calls_keep deps (order\<lparr>claimed_status := x\<rparr>) frc db J = undo_calls_keep deps order frc db J"
  by (simp add: undo_calls_keep_def post_step_def step_body_def)

lemma finish_compensating: "finish_order deps (order\<lparr>claimed_status := x\<rparr>) = finish_order deps order"
  by (simp add: finish_order_def fun_eq_iff)

text \<open>A run of an order that was not being compensated when it was claimed.\<close>

lemma saga_forward_result:
  assumes J: "forward_calls_keep deps order (cs_db s) J" "J (cs_world s)"
      "\<And>c w. J w \<Longrightarrow> J (snd (snd (post_step deps order (Comp c) False w)))"
    and ok: "db_ok (cs_db s)" and new: "claimed_status order \<noteq> COMPENSATING"
    and run: "saga_body deps order s = (r, s')"
  shows "db_ok (cs_db s') \<and> J (cs_world s') \<and>
    (\<forall>x. r = Inr x \<longrightarrow> status_fits (cs_db s') (orderId order) x \<and>
       order_core_at (cs_db s') (orderId order) =
         map_option (closed_row (instanceId deps) x) (order_core_at (cs_db s) (orderId order)))"
proof -
  let ?oid = "orderId order"
  obtain p s1 where f: "forward_phase deps order s = (p, s1)" by fastforce
  note F = forward_phase_result [where J = J, OF J(1,2) ok f]
  have core: "order_core_at (cs_db s1) ?oid = order_core_at (cs_db s) ?oid"
    using F near_order by blast
  have ok1: "db_ok (cs_db s1)" using F by auto
  show ?thesis
  proof (cases p)
    case (Inl e)
    with run f new have "r = Inl e" "s' = s1" by (auto simp: saga_body_def bind_act_Inl)
    with F show ?thesis by auto
  next
    case (Inr outs)
    show ?thesis
    proof (cases "filter (\<lambda>out. \<not> out_ok out) outs = []")
      case True
      with run f new Inr have "finish_order deps order PLACED s1 = (r, s')"
        by (simp add: saga_body_def bind_act_Inr)
      from finish_order_result [OF this ok1] F True Inr core show ?thesis by (auto simp: status_fits_def)
    next
      case False
      let ?q = "setOrderStatus ?oid (instanceId deps) COMPENSATING False
        (Some (first_error_text (filter (\<lambda>out. \<not> out_ok out) outs)))"
      obtain p2 s2 where q: "query deps ?q s1 = (p2, s2)" by fastforce
      note Q = query_status [OF q ok1]
      show ?thesis
      proof (cases p2)
        case Inl2: (Inl e)
        with run f new Inr False q have "r = Inl e" "s' = s2"
          by (auto simp: saga_body_def bind_act_Inr bind_act_Inl Let_def)
        with F Q show ?thesis by auto
      next
        case Inr2: (Inr b)
        have rest: "bind_act (compensate deps (order\<lparr>claimed_status := COMPENSATING\<rparr>) False)
            (finish_order deps (order\<lparr>claimed_status := COMPENSATING\<rparr>)) s2 = (r, s')"
          using run f new Inr False q Inr2
          by (simp add: saga_body_def bind_act_Inr Let_def finish_compensating)
        have u: "undo_calls_keep deps (order\<lparr>claimed_status := COMPENSATING\<rparr>) False (cs_db s2) J"
          using J(3) by (simp add: undo_calls_keep_def post_step_def step_body_def)
        have j: "J (cs_world s2)" "db_ok (cs_db s2)" using F Q by auto
        have twice: "map_option (closed_row (instanceId deps) x) (order_core_at (cs_db s2) ?oid) =
            map_option (closed_row (instanceId deps) x) (order_core_at (cs_db s1) ?oid)" for x
          using query_Inr_db [OF q [unfolded Inr2]] set_status_at [OF ok1, of ?oid]
          by (cases "order_at (cs_db s1) ?oid")
             (simp_all add: order_core_at_def closed_row_def status_write_def)
        from compensate_finish_result [where J = J, OF u j rest] twice core show ?thesis by auto
      qed
    qed
  qed
qed

section \<open>Sample runs\<close>

text \<open>Services that answer every call with one status and keep the keys they were called with.\<close>

definition log_fetch ::
  "int \<Rightarrow> string \<Rightarrow> string \<Rightarrow> StepRequestBody \<Rightarrow> nat \<Rightarrow> string list \<Rightarrow>
     (js_value + fetch_response) \<times> nat \<times> string list" where
  "log_fetch status url key body t w =
     (Inr \<lparr>fr_status = status, fr_json = Inr \<lparr>resp_operation = Fwd CREATE_ORDER, resp_orderId = orderId body,
        resp_replayed = False, resp_data = []\<rparr>\<rparr>, 5, w @ [key])"

definition log_deps :: "int \<Rightarrow> (nat \<Rightarrow> stmt_fate) \<Rightarrow> string list SagaDeps" where
  "log_deps status fate = \<lparr>instanceId = ''me'', serviceUrls = (\<lambda>_. ''http://svc/''), step_timeoutMs = 3000,
     step_maxAttempts = 3, step_baseDelayMs = 100, step_maxDelayMs = 2000, lease_ttlMs = 60000,
     lease_heartbeatMs = 20000, dep_fetch = log_fetch status, dep_fate = fate, dep_jitter = (\<lambda>_. 0),
     dep_schedule = rev\<rparr>"

definition sample_order :: ClaimedOrder where
  "sample_order = \<lparr>orderId = ''A'', sku = ''S1'', qty = 2, amount = ''10.00'', failAt = None,
     compFailAt = None, claimed_id = 1, claimed_status = COMPENSATING\<rparr>"

definition sample_step :: "step \<Rightarrow> step_status \<Rightarrow> step_row" where
  "sample_step st x = \<lparr>ss_order_id = ''A'', ss_step = st, ss_kind = stepKind st, ss_status = x,
     ss_attempts = 0, ss_idempotency_key = idempotencyKey ''A'' st, ss_last_error = None,
     ss_started_at = None, ss_finished_at = None\<rparr>"

definition sample_saga :: "step_status \<Rightarrow> string list coord" where
  "sample_saga charge = \<lparr>cs_db = \<lparr>saga_orders = [(pending_row 1 ''A'')\<lparr>o_status := COMPENSATING,
       o_lease_owner := Some ''me'', o_lease_expires_at := Some 60000\<rparr>],
     saga_steps = [sample_step (Fwd CREATE_ORDER) S_FAILED, sample_step (Fwd CHARGE_PAYMENT) charge],
     saga_step_attempts = []\<rparr>, cs_now = 0, cs_world = [], cs_tick = 0, cs_heartbeat = None\<rparr>"

lemmas saga_eval =
  runSaga_def saga_body_def compensate_def finish_order_def query_def bind_act_def seq_act_def ret_act_def
  log_deps_def log_fetch_def sample_order_def sample_step_def sample_saga_def Let_def startHeartbeat_def
  stopHeartbeat_def getSucceededForwardSteps_def is_forward_row_def initSteps_def init_step_def sql_upsert_def
  step_key_def COMPENSATION_STEPS_def markStepResult_def markStepRunning_def sql_update_def
  runConcurrently_def arrange_def settled_def executeStep_def execute_try_def on_fst_def callStep_def
  withRetry_def retry_loop_turn retry_turn_def call_attempt_def coord_fetch_def coord_runtime_def
  step_call_options_def call_retry_options_def step_body_def on_attempt_def recordAttempt_def
  response_ok_def elapse_def beat_times_def setOrderStatus_def owned_by_def status_write_def pending_row_def

lemma sample_saga_ok [simp]: "db_ok (cs_db (sample_saga x))"
  by (simp add: db_ok_def sample_saga_def unique_key_def step_key_def sample_step_def step_row_ok_def)

lemma post_log: "snd (snd (post_step (log_deps n fate) sample_order st frc w)) = w @ [idempotencyKey ''A'' st]"
  by (simp add: post_step_def log_deps_def log_fetch_def sample_order_def)

lemma sample_status: "step_status_of (cs_db (sample_saga x)) ''A'' (Fwd f) =
    (if f = CREATE_ORDER then Some S_FAILED else if f = CHARGE_PAYMENT then Some x else None)"
  by (auto simp: sample_saga_def step_status_of_def row_view_def sample_step_def step_key_def)

lemma sample_order_id [simp]: "orderId sample_order = ''A''"
  by (simp add: sample_order_def)

lemma runSaga_closes:
  assumes "db_ok (cs_db s)" and "runSaga deps order s = (Inr st, s')"
  shows "status_fits (cs_db s') (orderId order) st \<and>
    order_core_at (cs_db s') (orderId order) =
      map_option (\<lambda>r. if o_lease_owner r = Some (instanceId deps)
         then r\<lparr>o_status := st, o_lease_owner := None, o_lease_expires_at := None, o_last_error := None\<rparr> else r)
       (order_core_at (cs_db s) (orderId order))"
proof -
  obtain s1 where b: "saga_body deps order (startHeartbeat (orderId order) s) = (Inr st, s1)"
    and s1: "cs_db s' = cs_db s1" using runSaga_body [OF assms(2)] by auto
  have c: "closed_row (instanceId deps) st = (\<lambda>r. if o_lease_owner r = Some (instanceId deps)
         then r\<lparr>o_status := st, o_lease_owner := None, o_lease_expires_at := None, o_last_error := None\<rparr> else r)"
    by (auto simp: closed_row_def status_write_def fun_eq_iff)
  show ?thesis
  proof (cases "claimed_status order = COMPENSATING")
    case True
    with b have "bind_act (compensate deps order False) (finish_order deps order)
        (startHeartbeat (orderId order) s) = (Inr st, s1)" by (simp add: saga_body_def)
    from compensate_finish_result [where J = "\<lambda>_. True", OF _ _ _ this] assms(1) s1
    show ?thesis by (simp add: undo_calls_keep_def c)
  next
    case False
    from saga_forward_result [where J = "\<lambda>_. True", OF _ _ _ _ False b] assms(1) s1
    show ?thesis by (simp add: forward_calls_keep_def c)
  qed
qed

text \<open>
  C12. Whatever the services answer and whichever statements fail, when runSaga returns a status
  the rows bear it out. It is PLACED, CANCELLED or NEEDS_ATTENTION; PLACED means all four forward
  steps are recorded SUCCEEDED; CANCELLED means the undo of every recorded success is recorded
  SUCCEEDED and every other undo SKIPPED. The order row then carries that status and no lease, if
  the instance still held the lease; if it did not, the row is as it was.
\<close>

theorem runSaga_status_fits:
  assumes "db_ok (cs_db s)" and "runSaga deps order s = (Inr st, s')"
  shows "status_fits (cs_db s') (orderId order) st \<and>
    order_core_at (cs_db s') (orderId order) =
      map_option (\<lambda>r. if o_lease_owner r = Some (instanceId deps)
         then r\<lparr>o_status := st, o_lease_owner := None, o_lease_expires_at := None, o_last_error := None\<rparr> else r)
       (order_core_at (cs_db s) (orderId order))"
  by (rule runSaga_closes [OF assms])

theorem runSaga_status_fits_witness:
  "\<exists>s. runSaga (log_deps 200 (\<lambda>_. Stmt_ok)) sample_order (sample_saga S_FAILED) = (Inr CANCELLED, s) \<and>
     classified (cs_db s) ''A'' \<and> map_option o_status (order_core_at (cs_db s) ''A'') = Some CANCELLED"
proof -
  let ?run = "runSaga (log_deps 200 (\<lambda>_. Stmt_ok)) sample_order (sample_saga S_FAILED)"
  have "fst ?run = Inr CANCELLED" by (simp add: saga_eval)
  then have run: "?run = (Inr CANCELLED, snd ?run)" by (metis prod.collapse)
  have row: "order_core_at (cs_db (sample_saga S_FAILED)) ''A'' =
      Some ((pending_row 1 ''A'')\<lparr>o_status := COMPENSATING, o_lease_owner := Some ''me''\<rparr>)"
    by (simp add: sample_saga_def order_core_at_def order_at_def pending_row_def)
  from runSaga_status_fits [OF sample_saga_ok run] row
  have "classified (cs_db (snd ?run)) ''A'' \<and> map_option o_status (order_core_at (cs_db (snd ?run)) ''A'') = Some CANCELLED"
    by (simp add: status_fits_def log_deps_def sample_order_def)
  with run show ?thesis by blast
qed

text \<open>
  C16. An order claimed while COMPENSATING (its coordinator died mid-rollback) is only ever rolled
  back: the run calls no forward step, and no undo but those of forward steps recorded SUCCEEDED.
  Anything about the services that those calls keep holds after the run, finished or not, and the
  forward rows are as they were.
\<close>

theorem recovery_only_undoes:
  assumes "db_ok (cs_db s)" and "claimed_status order = COMPENSATING" and "J (cs_world s)"
    and "\<And>f w. step_status_of (cs_db s) (orderId order) (Fwd f) = Some S_SUCCEEDED \<Longrightarrow> J w \<Longrightarrow>
      J (snd (snd (post_step deps order (Comp (COMPENSATION_OF f)) False w)))"
    and "runSaga deps order s = (r, s')"
  shows "J (cs_world s') \<and> r \<noteq> Inr PLACED \<and>
    (\<forall>f. step_status_of (cs_db s') (orderId order) (Fwd f) = step_status_of (cs_db s) (orderId order) (Fwd f))"
proof -
  obtain s1 where b: "saga_body deps order (startHeartbeat (orderId order) s) = (r, s1)"
    and s1: "cs_db s' = cs_db s1" "cs_world s' = cs_world s1" using runSaga_body [OF assms(5)] by auto
  from b assms(2) have "bind_act (compensate deps order False) (finish_order deps order)
        (startHeartbeat (orderId order) s) = (r, s1)" by (simp add: saga_body_def)
  from compensate_finish_result [where J = J, OF _ _ _ this] assms s1
  show ?thesis by (auto simp: undo_calls_keep_def)
qed

theorem recovery_only_undoes_witness:
  "set (cs_world (snd (runSaga (log_deps 200 (\<lambda>_. Stmt_ok)) sample_order (sample_saga S_SUCCEEDED))))
     \<subseteq> {''A:REFUND_PAYMENT''}"
proof -
  let ?run = "runSaga (log_deps 200 (\<lambda>_. Stmt_ok)) sample_order (sample_saga S_SUCCEEDED)"
  have run: "?run = (fst ?run, snd ?run)" by simp
  let ?J = "\<lambda>w. set w \<subseteq> {''A:REFUND_PAYMENT''}"
  have j: "?J (cs_world (sample_saga S_SUCCEEDED))" by (simp add: sample_saga_def)
  have c: "claimed_status sample_order = COMPENSATING" by (simp add: sample_order_def)
  have call: "?J (snd (snd (post_step (log_deps 200 (\<lambda>_. Stmt_ok)) sample_order (Comp (COMPENSATION_OF f)) False w)))"
    if "step_status_of (cs_db (sample_saga S_SUCCEEDED)) (orderId sample_order) (Fwd f) = Some S_SUCCEEDED" "?J w" for f w
    using that by (auto simp: sample_status post_log idempotencyKey_def split: if_splits)
  from recovery_only_undoes [where J = ?J, OF sample_saga_ok c j call run] show ?thesis by simp
qed

text \<open>
  C17. A recovered order does not repeat what was done: a run calls no forward step that is recorded
  SUCCEEDED. Anything about the services that is kept by the calls of the other forward steps and by
  the compensations holds after the run.
\<close>

theorem recorded_steps_not_called_again:
  assumes "db_ok (cs_db s)" and "J (cs_world s)"
    and "\<And>f w. step_status_of (cs_db s) (orderId order) (Fwd f) \<noteq> Some S_SUCCEEDED \<Longrightarrow> J w \<Longrightarrow>
      J (snd (snd (post_step deps order (Fwd f) False w)))"
    and "\<And>c w. J w \<Longrightarrow> J (snd (snd (post_step deps order (Comp c) False w)))"
    and "runSaga deps order s = (r, s')"
  shows "J (cs_world s')"
proof -
  obtain s1 where b: "saga_body deps order (startHeartbeat (orderId order) s) = (r, s1)"
    and s1: "cs_world s' = cs_world s1" using runSaga_body [OF assms(5)] by auto
  show ?thesis
  proof (cases "claimed_status order = COMPENSATING")
    case True
    with b have "bind_act (compensate deps order False) (finish_order deps order)
        (startHeartbeat (orderId order) s) = (r, s1)" by (simp add: saga_body_def)
    from compensate_finish_result [where J = J, OF _ _ _ this] assms s1
    show ?thesis by (simp add: undo_calls_keep_def)
  next
    case False
    from saga_forward_result [where J = J, OF _ _ _ _ False b] assms s1
    show ?thesis by (simp add: forward_calls_keep_def)
  qed
qed

theorem recorded_steps_not_called_again_witness:
  "''A:CHARGE_PAYMENT'' \<notin> set (cs_world (snd (runSaga (log_deps 503 (\<lambda>_. Stmt_ok))
     (sample_order\<lparr>claimed_status := IN_PROGRESS\<rparr>) (sample_saga S_SUCCEEDED))))"
proof -
  let ?o = "sample_order\<lparr>claimed_status := IN_PROGRESS\<rparr>"
  let ?run = "runSaga (log_deps 503 (\<lambda>_. Stmt_ok)) ?o (sample_saga S_SUCCEEDED)"
  have run: "?run = (fst ?run, snd ?run)" by simp
  let ?J = "\<lambda>w. ''A:CHARGE_PAYMENT'' \<notin> set w"
  have j: "?J (cs_world (sample_saga S_SUCCEEDED))" by (simp add: sample_saga_def)
  have post: "snd (snd (post_step (log_deps 503 (\<lambda>_. Stmt_ok)) ?o st frc w)) = w @ [idempotencyKey ''A'' st]" for st frc w
    by (simp add: post_step_def log_deps_def log_fetch_def sample_order_def)
  have key: "''A:CHARGE_PAYMENT'' = idempotencyKey ''A'' (Fwd CHARGE_PAYMENT)" by (simp add: idempotencyKey_def)
  have fwd: "?J (snd (snd (post_step (log_deps 503 (\<lambda>_. Stmt_ok)) ?o (Fwd f) False w)))"
    if "step_status_of (cs_db (sample_saga S_SUCCEEDED)) (orderId ?o) (Fwd f) \<noteq> Some S_SUCCEEDED" "?J w" for f w
    using that unfolding post key by (auto simp: sample_status idempotencyKey_inj split: if_splits)
  have comp: "?J (snd (snd (post_step (log_deps 503 (\<lambda>_. Stmt_ok)) ?o (Comp c) False w)))" if "?J w" for c w
    using that unfolding post key by (simp add: idempotencyKey_inj)
  show ?thesis by (rule recorded_steps_not_called_again [where J = ?J, OF sample_saga_ok j fwd comp run])
qed

end
