(* ===== verification/Api.thy ===== *)
theory Api
  imports Lifecycle SagaRun
begin

text \<open>
  services/coordinator/src/api.ts: the routes of the coordinator. A request is a route with what the
  code reads of it, a query parameter being what Express hands over (absent, one text, a repeated
  parameter, or an object). Every route is an action on the coordinator's state; what it throws
  becomes the reply of the error middleware. The CSV file behind a path and the fate of each INSERT
  of an ingest are arguments. CORS headers and logging change no state and are left out.
\<close>

section \<open>Requests and replies\<close>

datatype query_param = Q_absent | Q_text string | Q_list "string list" | Q_object

datatype api_request =
    Options
  | Get_health
  | Get_stats
  | Get_orders query_param query_param query_param
  | Get_order string
  | Post_retry string
  | Post_mark_shipped string
  | Post_ingest "string option"

datatype api_body =
    B_empty
  | B_health string
  | B_stats "(order_status \<times> nat) list"
  | B_page OrderListPage
  | B_detail OrderDetail
  | B_status string order_status
  | B_ingest IngestResult
  | B_error string

record api_reply =
  rep_status :: int
  rep_body :: api_body

definition json_reply :: "api_body \<Rightarrow> api_reply" where
  "json_reply b = \<lparr>rep_status = 200, rep_body = b\<rparr>"

definition error_reply :: "int \<Rightarrow> string \<Rightarrow> api_reply" where
  "error_reply st m = \<lparr>rep_status = st, rep_body = B_error m\<rparr>"

section \<open>Query parameters\<close>

definition VALID_STATUSES :: "(string \<times> order_status) list" where
  "VALID_STATUSES = [(''PENDING'', PENDING), (''IN_PROGRESS'', IN_PROGRESS), (''PLACED'', PLACED),
     (''COMPENSATING'', COMPENSATING), (''CANCELLED'', CANCELLED),
     (''NEEDS_ATTENTION'', NEEDS_ATTENTION), (''SHIPPED'', SHIPPED)]"

definition status_param :: "query_param \<Rightarrow> order_status option" where
  "status_param q = (case q of Q_text s \<Rightarrow> map_of VALID_STATUSES s | _ \<Rightarrow> None)"

text \<open>\<open>Number(req.query[name] ?? d)\<close>; the text of an array is its elements joined by commas.\<close>

definition number_param :: "rat \<Rightarrow> query_param \<Rightarrow> js_num" where
  "number_param d q = (case q of
     Q_absent \<Rightarrow> Finite d
   | Q_text s \<Rightarrow> js_Number s
   | Q_list ss \<Rightarrow> js_Number (join_comma ss)
   | Q_object \<Rightarrow> NaN)"

definition page_param :: "query_param \<Rightarrow> js_num" where
  "page_param q = clamp_from 1 1 (number_param 1 q)"

definition size_param :: "query_param \<Rightarrow> js_num" where
  "size_param q = clamp_between 1 200 25 (number_param 25 q)"

section \<open>Routes\<close>

record 'w api_deps =
  ad_saga :: "'w SagaDeps"
  ad_leaseTtlMs :: nat
  ad_ingestBatchSize :: nat
  ad_read_csv :: "string option \<Rightarrow> js_value + OrderRow list"

type_synonym 'w route = "('w coord, js_value, api_reply) act"

definition read_db :: "'w SagaDeps \<Rightarrow> (saga_db \<Rightarrow> 'a) \<Rightarrow> ('w coord, js_value, 'a) act" where
  "read_db deps f = query deps (\<lambda>_ db. (f db, db))"

definition health_route :: "'w SagaDeps \<Rightarrow> 'w route" where
  "health_route deps = bind_act (read_db deps (\<lambda>_. ())) (\<lambda>_. ret_act (json_reply (B_health (instanceId deps))))"

definition stats_route :: "'w SagaDeps \<Rightarrow> 'w route" where
  "stats_route deps = bind_act (read_db deps getStats) (\<lambda>s. ret_act (json_reply (B_stats s)))"

definition list_route :: "'w SagaDeps \<Rightarrow> query_param \<Rightarrow> query_param \<Rightarrow> query_param \<Rightarrow> 'w route" where
  "list_route deps status page psize =
     bind_act (read_db deps id) (\<lambda>count_db. bind_act (read_db deps id) (\<lambda>rows_db.
       (case listOrders (status_param status) (page_param page) (size_param psize) count_db rows_db of
          Inl e \<Rightarrow> throw_act e
        | Inr pg \<Rightarrow> ret_act (json_reply (B_page pg)))))"

definition detail_route :: "'w SagaDeps \<Rightarrow> string \<Rightarrow> 'w route" where
  "detail_route deps oid = bind_act (read_db deps (getOrderDetail oid)) (\<lambda>detail.
     ret_act (case detail of
        None \<Rightarrow> error_reply 404 ''order not found''
      | Some d \<Rightarrow> json_reply (B_detail d)))"

definition retry_route :: "'w SagaDeps \<Rightarrow> nat \<Rightarrow> string \<Rightarrow> 'w route" where
  "retry_route deps leaseTtlMs oid =
     bind_act (query deps (claimForRetry oid (instanceId deps) leaseTtlMs)) (\<lambda>claimed.
       (case claimed of
          None \<Rightarrow> ret_act (error_reply 409 ''order is not in NEEDS_ATTENTION, or a retry is already running'')
        | Some order \<Rightarrow> bind_act (retryCompensation deps order) (\<lambda>status.
            ret_act (json_reply (B_status oid status)))))"

definition shipped_route :: "'w SagaDeps \<Rightarrow> string \<Rightarrow> 'w route" where
  "shipped_route deps oid = bind_act (query deps (markShipped oid)) (\<lambda>ok.
     ret_act (if ok then json_reply (B_status oid SHIPPED)
              else error_reply 409 ''only a PLACED order can be marked shipped''))"

text \<open>The INSERTs of an ingest meet the fates of the coordinator's statements.\<close>

definition flush_fates :: "'w SagaDeps \<Rightarrow> nat \<Rightarrow> nat \<Rightarrow> flush_fate" where
  "flush_fates deps tick k = (case dep_fate deps (tick + k) of
     Stmt_ok \<Rightarrow> Flush_ok | Stmt_fails e \<Rightarrow> Flush_fails e | Stmt_ack_lost e \<Rightarrow> Flush_ack_lost e)"

definition ingest_route :: "'w api_deps \<Rightarrow> string option \<Rightarrow> 'w route" where
  "ingest_route ad file s =
    (case ad_read_csv ad file of
       Inl e \<Rightarrow> (Inl e, s)
     | Inr csv \<Rightarrow>
        (case ingestOrders (flush_fates (ad_saga ad) (cs_tick s)) (ad_ingestBatchSize ad)
            (''ingest-'' @ show_int (cs_now s)) csv (saga_orders (cs_db s)) of
           (r, rows) \<Rightarrow> (map_sum id (\<lambda>res. json_reply (B_ingest res)) r,
             s\<lparr>cs_tick := cs_tick s + length csv + 1, cs_db := (cs_db s)\<lparr>saga_orders := rows\<rparr>\<rparr>)))"

definition route :: "'w api_deps \<Rightarrow> api_request \<Rightarrow> 'w route" where
  "route ad req =
    (let deps = ad_saga ad
     in case req of
          Options \<Rightarrow> ret_act \<lparr>rep_status = 204, rep_body = B_empty\<rparr>
        | Get_health \<Rightarrow> health_route deps
        | Get_stats \<Rightarrow> stats_route deps
        | Get_orders status page psize \<Rightarrow> list_route deps status page psize
        | Get_order oid \<Rightarrow> detail_route deps oid
        | Post_retry oid \<Rightarrow> retry_route deps (ad_leaseTtlMs ad) oid
        | Post_mark_shipped oid \<Rightarrow> shipped_route deps oid
        | Post_ingest file \<Rightarrow> ingest_route ad file)"

definition api_error :: "js_value \<Rightarrow> api_reply" where
  "api_error err = error_reply 500 (if is_Error err then error_message err else ''internal error'')"

definition createApi :: "'w api_deps \<Rightarrow> api_request \<Rightarrow> 'w coord \<Rightarrow> api_reply \<times> 'w coord" where
  "createApi ad req s =
    (case route ad req s of
       (Inr rep, s') \<Rightarrow> (rep, s')
     | (Inl err, s') \<Rightarrow> (api_error err, s'))"

section \<open>Reading\<close>

lemma read_db_cases:
  assumes "read_db deps f s = (r, s')"
  obtains (ok) "r = Inr (f (cs_db s))" "cs_db s' = cs_db s" "cs_world s' = cs_world s"
  | (failed) e where "r = Inl e" "cs_db s' = cs_db s" "cs_world s' = cs_world s"
  using assms unfolding read_db_def by (cases rule: query_cases) auto

lemma read_db_ok:
  "dep_fate deps (cs_tick s) = Stmt_ok \<Longrightarrow> read_db deps f s = (Inr (f (cs_db s)), s\<lparr>cs_tick := Suc (cs_tick s)\<rparr>)"
  by (simp add: read_db_def query_def Let_def)

lemma listOrders_page:
  assumes "listOrders status page psize d1 d2 = Inr pg"
  shows "\<exists>n off. psize = Finite (of_nat n) \<and> lp_pageSize pg = psize \<and>
    lp_items pg = map (list_item d2) (take n (drop off (newest_first status d2))) \<and>
    lp_total pg = length (newest_first status d1)"
proof -
  from assms obtain n off where n: "sql_count psize = Some n" "lp_pageSize pg = psize"
      "lp_items pg = map (list_item d2) (take n (drop off (newest_first status d2)))"
      "lp_total pg = length (newest_first status d1)"
    by (auto simp: listOrders_def newest_first_length split: option.splits)
  from n(1) obtain q where "psize = Finite q" by (auto simp: sql_count_def split: js_num.splits)
  with n sql_count_limit [of q n] show ?thesis by auto
qed

lemma list_route_result:
  assumes "createApi ad (Get_orders status page psize) s = (rep, s')"
  shows "cs_db s' = cs_db s \<and> cs_world s' = cs_world s \<and>
    ((\<exists>e. rep = api_error e) \<or>
     (\<exists>pg. listOrders (status_param status) (page_param page) (size_param psize) (cs_db s) (cs_db s) = Inr pg \<and>
        rep = json_reply (B_page pg)))"
proof -
  obtain r1 s1 where 1: "read_db (ad_saga ad) id s = (r1, s1)" by fastforce
  obtain r2 s2 where 2: "read_db (ad_saga ad) id s1 = (r2, s2)" by fastforce
  have run: "(rep, s') =
      (case r1 of Inl e \<Rightarrow> (api_error e, s1)
       | Inr d1 \<Rightarrow> (case r2 of Inl e \<Rightarrow> (api_error e, s2)
         | Inr d2 \<Rightarrow> (case listOrders (status_param status) (page_param page) (size_param psize) d1 d2 of
             Inl e \<Rightarrow> (api_error e, s2) | Inr pg \<Rightarrow> (json_reply (B_page pg), s2))))"
    using 1 2 assms by (auto simp: createApi_def route_def list_route_def bind_act_def throw_act_def ret_act_def Let_def
        split: sum.splits)
  have s1: "cs_db s1 = cs_db s" "cs_world s1 = cs_world s" "r1 = Inr (cs_db s) \<or> isl r1"
    using 1 by (cases rule: read_db_cases; auto)+
  have s2: "cs_db s2 = cs_db s" "cs_world s2 = cs_world s" "r2 = Inr (cs_db s) \<or> isl r2"
    using 2 s1 by (cases rule: read_db_cases; auto)+
  show ?thesis using run s1 s2 by (auto split: sum.splits)
qed

text \<open>
  Whatever a client writes into the query string of the list route: nothing changes, the reply
  is a page or an error, and a page has between 1 and 200 places, no more items than places, every
  item an order with the status asked for, and the number of all such orders as its total.
\<close>

theorem list_route_bounded:
  "case createApi ad (Get_orders status page psize) s of (rep, s') \<Rightarrow>
    cs_db s' = cs_db s \<and> cs_world s' = cs_world s \<and>
    (case rep_body rep of
       B_page pg \<Rightarrow> rep_status rep = 200 \<and>
         (\<exists>n. lp_pageSize pg = Finite (of_nat n) \<and> 1 \<le> n \<and> n \<le> 200 \<and> length (lp_items pg) \<le> n) \<and>
         (\<exists>rows. lp_items pg = map (list_item (cs_db s)) rows \<and>
            set rows \<subseteq> {r \<in> set (saga_orders (cs_db s)). list_where (status_param status) r}) \<and>
         lp_total pg = length (filter (list_where (status_param status)) (saga_orders (cs_db s)))
     | _ \<Rightarrow> rep_status rep = 500)"
proof -
  obtain rep s' where run: "createApi ad (Get_orders status page psize) s = (rep, s')" by fastforce
  obtain q where q: "size_param psize = Finite q" "1 \<le> q" "q \<le> 200"
    using clamp_between_cases [of 1 200] by (auto simp: size_param_def)
  note R = list_route_result [OF run]
  from R consider e where "rep = api_error e"
    | pg where "listOrders (status_param status) (page_param page) (size_param psize) (cs_db s) (cs_db s) = Inr pg"
      "rep = json_reply (B_page pg)" by blast
  then show ?thesis
  proof cases
    case 1
    with run R show ?thesis by (simp add: api_error_def error_reply_def)
  next
    case 2
    from listOrders_page [OF 2(1)] obtain n off where n: "size_param psize = Finite (of_nat n)"
      "lp_pageSize pg = size_param psize"
      "lp_items pg = map (list_item (cs_db s)) (take n (drop off (newest_first (status_param status) (cs_db s))))"
      "lp_total pg = length (newest_first (status_param status) (cs_db s))" by blast
    have "1 \<le> n" "n \<le> 200" using q n(1) by simp_all
    moreover have "set (take n (drop off (newest_first (status_param status) (cs_db s)))) \<subseteq>
        {r \<in> set (saga_orders (cs_db s)). list_where (status_param status) r}"
      unfolding newest_first_set [symmetric] by (blast dest: in_set_takeD in_set_dropD)
    ultimately show ?thesis
      using n R run 2(2) by (auto simp: json_reply_def newest_first_length)
  qed
qed

text \<open>The reply to well-formed page numbers, as the notification service sends them.\<close>

lemma small_number: "n < 2 ^ 64 \<Longrightarrow> js_Number (show_int (int n)) = Finite (of_nat n)"
proof -
  assume "n < 2 ^ 64"
  then have "(of_nat n :: rat) < of_nat (2 ^ 64)" by (simp only: of_nat_less_iff)
  then have "to_double (of_nat n) = Finite (of_nat n)" by (intro to_double_small) simp_all
  with Number_show_int [of "int n"] show ?thesis by simp
qed

lemma page_param_numeral: "1 \<le> p \<Longrightarrow> p < 2 ^ 64 \<Longrightarrow> page_param (Q_text (show_int (int p))) = Finite (of_nat p)"
  by (simp add: page_param_def number_param_def small_number clamp_from_id)

lemma size_param_numeral:
  assumes "1 \<le> n" and "n < 2 ^ 64"
  shows "size_param (Q_text (show_int (int n))) = Finite (of_nat (min 200 n))"
proof -
  have "js_or (Finite (of_nat n)) (Finite 25) = Finite (of_nat n)" using assms(1) by (simp add: js_or_def truthy_def)
  moreover have "js_max (Finite 1) (Finite (of_nat n)) = Finite (of_nat n)"
    using assms(1) by (simp add: js_max_def)
  moreover have "js_min (Finite 200) (Finite (of_nat n)) = Finite (of_nat (min 200 n))"
    by (auto simp: js_min_def min_def)
  ultimately show ?thesis
    using small_number [OF assms(2)]
    by (simp add: size_param_def number_param_def clamp_between_def clamp_from_def)
qed

lemma list_route_page:
  assumes "dep_fate (ad_saga ad) (cs_tick s) = Stmt_ok" and "dep_fate (ad_saga ad) (Suc (cs_tick s)) = Stmt_ok"
    and "1 \<le> n" and "n < 2 ^ 64" and "Suc p < 2 ^ 64" and "p * 200 < 2 ^ 64"
  shows "createApi ad (Get_orders status (Q_text (show_int (int (Suc p)))) (Q_text (show_int (int n)))) s =
    (json_reply (B_page \<lparr>lp_items = map (list_item (cs_db s))
          (take (min 200 n) (drop (p * min 200 n) (newest_first (status_param status) (cs_db s)))),
        lp_total = length (newest_first (status_param status) (cs_db s)),
        lp_page = Finite (of_nat (Suc p)), lp_pageSize = Finite (of_nat (min 200 n))\<rparr>),
     s\<lparr>cs_tick := cs_tick s + 2\<rparr>)"
proof -
  have "p * min 200 n \<le> p * 200" by simp
  with assms(6) have "p * min 200 n < 2 ^ 64" by linarith
  moreover have "min 200 n < 2 ^ 64" by (simp add: min_def)
  ultimately have "listOrders (status_param status) (Finite (of_nat (Suc p))) (Finite (of_nat (min 200 n))) (cs_db s) (cs_db s) =
      Inr \<lparr>lp_items = map (list_item (cs_db s))
          (take (min 200 n) (drop (p * min 200 n) (newest_first (status_param status) (cs_db s)))),
        lp_total = length (newest_first (status_param status) (cs_db s)),
        lp_page = Finite (of_nat (Suc p)), lp_pageSize = Finite (of_nat (min 200 n))\<rparr>"
    using list_page [of p "min 200 n"] by (simp add: newest_first_length)
  then show ?thesis
    using assms(1,2) page_param_numeral [OF _ assms(5)] size_param_numeral [OF assms(3,4)]
    by (simp add: createApi_def route_def list_route_def bind_act_def read_db_ok ret_act_def Let_def)
qed

text \<open>
  A fractional page number is not rejected and not rounded: it reaches OFFSET, and the list
  route fails with status 500.
\<close>

theorem fractional_page_fails:
  "rep_status (fst (createApi ad (Get_orders status (Q_text ''1.5'') Q_absent) s)) = 500"
proof -
  have "js_Number ''1.5'' = to_double (3 / 2)"
    by (simp add: js_Number_def js_trim_def is_space_def starts_with_def unsigned_number_def decimal_def
        is_digit_def digit_value_def digits_value_def power10_def Let_def)
  then have "js_Number ''1.5'' = Finite (3 / 2)" using to_double_small [of "3 / 2"] by simp
  then have "page_param (Q_text ''1.5'') = Finite (3 / 2)"
    by (simp add: page_param_def number_param_def clamp_from_id)
  moreover have "size_param Q_absent = Finite 25"
    by (simp add: size_param_def number_param_def clamp_between_id)
  moreover have "sql_count (page_offset (Finite (3 / 2)) (Finite 25)) = None"
  proof -
    have "\<lfloor>25 / 2 :: rat\<rfloor> = 12" by (rule floor_unique) simp_all
    then show ?thesis by (simp add: sql_count_def page_offset_def)
  qed
  ultimately have "listOrders (status_param status) (page_param (Q_text ''1.5'')) (size_param Q_absent) d1 d2 =
      Inl parse_error" for d1 d2
    by (simp add: listOrders_def split: option.splits)
  then show ?thesis
    by (auto simp: createApi_def route_def list_route_def bind_act_def throw_act_def Let_def api_error_def
        error_reply_def split: prod.splits sum.splits)
qed

section \<open>Actions\<close>

text \<open>
  The ship button: 200 exactly when the statement found the order PLACED (then it is SHIPPED
  and nothing else of it has changed), 409 when it found it in any other status or not at all (then
  nothing has changed), 500 only when the database failed.
\<close>

theorem mark_shipped_reply:
  assumes "db_ok (cs_db s)" and "createApi ad (Post_mark_shipped oid) s = (rep, s')"
  shows "(rep_status rep = 200 \<and> (\<exists>r. order_at (cs_db s) oid = Some r \<and> o_status r = PLACED \<and>
      order_at (cs_db s') oid = Some (r\<lparr>o_status := SHIPPED\<rparr>))) \<or>
    (rep_status rep = 409 \<and> cs_db s' = cs_db s \<and> map_option o_status (order_at (cs_db s) oid) \<noteq> Some PLACED) \<or>
    (rep_status rep = 500 \<and> (\<exists>tick e. dep_fate (ad_saga ad) tick \<in> {Stmt_fails e, Stmt_ack_lost e}))"
proof -
  obtain q s1 where q: "query (ad_saga ad) (markShipped oid) s = (q, s1)" by fastforce
  show ?thesis
  proof (cases q)
    case (Inl e)
    with q have "\<exists>tick e. dep_fate (ad_saga ad) tick \<in> {Stmt_fails e, Stmt_ack_lost e}"
      by (auto simp: query_def Let_def split: stmt_fate.splits prod.splits)
    moreover have "rep_status rep = 500"
      using assms(2) q Inl by (auto simp: createApi_def route_def Let_def shipped_route_def bind_act_def
          api_error_def error_reply_def)
    ultimately show ?thesis by blast
  next
    case (Inr ok)
    have ok: "ok = fst (markShipped oid (cs_now s) (cs_db s))" "cs_db s1 = snd (markShipped oid (cs_now s) (cs_db s))"
      using query_Inr_db [OF q [unfolded Inr]] by simp_all
    have rep: "s' = s1" "rep_status rep = (if ok then 200 else 409)"
      using assms(2) q Inr by (auto simp: createApi_def route_def Let_def shipped_route_def bind_act_def
          ret_act_def json_reply_def error_reply_def)
    show ?thesis
    proof (cases ok)
      case True
      with ok ship.fires [OF assms(1)] obtain r where "order_at (cs_db s) oid = Some r" "o_status r = PLACED"
        by auto
      moreover from this have "order_at (cs_db s1) oid = Some (r\<lparr>o_status := SHIPPED\<rparr>)"
        using guarded_update(2) [of "\<lambda>r. r\<lparr>o_status := SHIPPED\<rparr>" SHIPPED PLACED "cs_db s" oid] assms(1) ok(2)
        by (simp add: markShipped_def case_prod_beta)
      ultimately show ?thesis using rep True by auto
    next
      case False
      with ok ship.fires [OF assms(1)] ship.refused [OF assms(1)] rep show ?thesis by auto
    qed
  qed
qed

definition sample_api :: "int \<Rightarrow> string list api_deps" where
  "sample_api status = \<lparr>ad_saga = log_deps status (\<lambda>_. Stmt_ok), ad_leaseTtlMs = 60000,
     ad_ingestBatchSize = 500, ad_read_csv = (\<lambda>_. Inr [])\<rparr>"

definition sample_state :: "order_status \<Rightarrow> string list coord" where
  "sample_state st = \<lparr>cs_db = \<lparr>saga_orders = [(pending_row 1 ''A'')\<lparr>o_status := st\<rparr>],
     saga_steps = [sample_step (Fwd CHARGE_PAYMENT) S_SUCCEEDED], saga_step_attempts = []\<rparr>,
     cs_now = 0, cs_world = [], cs_tick = 0, cs_heartbeat = None\<rparr>"

lemma sample_state_ok [simp]: "db_ok (cs_db (sample_state st))"
  by (simp add: db_ok_def sample_state_def unique_key_def step_key_def sample_step_def step_row_ok_def)

lemma sample_state_row: "order_at (cs_db (sample_state st)) ''A'' = Some ((pending_row 1 ''A'')\<lparr>o_status := st\<rparr>)"
  by (simp add: sample_state_def order_at_def pending_row_def)

theorem mark_shipped_reply_witness:
  "rep_status (fst (createApi (sample_api 200) (Post_mark_shipped ''A'') (sample_state PLACED))) = 200 \<and>
   rep_status (fst (createApi (sample_api 200) (Post_mark_shipped ''A'') (sample_state PENDING))) = 409"
proof -
  have run: "createApi (sample_api 200) (Post_mark_shipped ''A'') (sample_state st) =
      (fst (createApi (sample_api 200) (Post_mark_shipped ''A'') (sample_state st)),
       snd (createApi (sample_api 200) (Post_mark_shipped ''A'') (sample_state st)))" for st
    by simp
  have ok: "dep_fate (ad_saga (sample_api 200)) t = Stmt_ok" for t
    by (simp add: sample_api_def log_deps_def)
  note R = mark_shipped_reply [OF sample_state_ok run, unfolded ok sample_state_row]
  have id: "order_at (snd (markShipped ''A'' 0 (cs_db (sample_state PLACED)))) ''A'' \<noteq>
      order_at (cs_db (sample_state PLACED)) ''A''"
    by (simp add: sample_state_def order_at_def pending_row_def markShipped_def sql_update_def)
  from R [of PENDING] R [of PLACED] show ?thesis by auto
qed

lemma claim_retry_steps: "db_ok db \<Longrightarrow>
    step_status_of (snd (claimForRetry oid me ttl now db)) = step_status_of db"
  by (auto simp: claimForRetry_eq step_status_of_def fun_eq_iff split: option.splits)

lemma retry_claimed:
  assumes ok: "db_ok (cs_db s)" and q: "query deps (claimForRetry oid me ttl) s = (Inr claimed, s1)"
  shows "case claimed of
      None \<Rightarrow> cs_db s1 = cs_db s \<and> map_option o_status (order_at (cs_db s) oid) \<noteq> Some NEEDS_ATTENTION
    | Some order \<Rightarrow> orderId order = oid \<and> db_ok (cs_db s1) \<and> (\<exists>r. order_at (cs_db s) oid = Some r \<and>
        o_status r = NEEDS_ATTENTION \<and> order_at (cs_db s1) oid = Some (retry_row me ttl (cs_now s) r))"
proof -
  note C = query_Inr_db [OF q]
  note granted = claimForRetry_eq [OF ok, of oid me ttl "cs_now s"]
  show ?thesis
  proof (cases claimed)
    case None
    with C granted show ?thesis by (auto split: option.splits if_splits)
  next
    case (Some order)
    with granted C obtain r where r: "order_at (cs_db s) oid = Some r" "o_status r = NEEDS_ATTENTION"
      "order = toClaimedOrder (retry_row me ttl (cs_now s) r)" by (auto split: option.splits if_splits)
    have "orderId order = oid"
      using r row_at_Some_key [of o_order_id oid] by (simp add: order_at_def toClaimedOrder_def retry_row_def)
    moreover have "order_at (cs_db s1) oid = Some (retry_row me ttl (cs_now s) r)"
      using guarded_update(2) [OF retry_keys _ ok, of NEEDS_ATTENTION oid] C r granted by simp
    moreover have "db_ok (cs_db s1)" using C retry.keeps_ok [OF ok] by simp
    ultimately show ?thesis using r Some by simp
  qed
qed

definition retried :: "saga_db \<Rightarrow> string \<Rightarrow> order_row \<Rightarrow> order_status \<Rightarrow> bool" where
  "retried db oid r x \<longleftrightarrow> x \<in> {CANCELLED, NEEDS_ATTENTION} \<and> (x = CANCELLED \<longrightarrow> classified db oid) \<and>
     order_core_at db oid = Some (r\<lparr>o_status := x, o_last_error := None, o_lease_owner := None, o_lease_expires_at := None\<rparr>)"

lemma forced_rollback:
  assumes J: "undo_calls_keep deps order True (cs_db s1) J" "J (cs_world s1)" and ok: "db_ok (cs_db s1)"
    and at: "order_at (cs_db s1) (orderId order) = Some (retry_row (instanceId deps) ttl now r)"
    and run: "retryCompensation deps order s1 = (p, s2)"
  shows "J (cs_world s2) \<and>
    (\<forall>f. step_status_of (cs_db s2) (orderId order) (Fwd f) = step_status_of (cs_db s1) (orderId order) (Fwd f)) \<and>
    (case p of Inl e \<Rightarrow> True | Inr x \<Rightarrow> retried (cs_db s2) (orderId order) r x)"
proof -
  note R = compensate_finish_result [where J = J, OF J ok run [unfolded retryCompensation_def]]
  show ?thesis
  proof (cases p)
    case (Inl e)
    with R show ?thesis by auto
  next
    case (Inr x)
    with R have "order_core_at (cs_db s2) (orderId order) = Some (r\<lparr>o_status := x, o_last_error := None,
        o_lease_owner := None, o_lease_expires_at := None\<rparr>)"
      by (simp add: order_core_at_def at closed_row_def retry_row_def status_write_def)
    moreover from R Inr have "x \<noteq> PLACED" "status_fits (cs_db s2) (orderId order) x" by auto
    then have "x \<in> {CANCELLED, NEEDS_ATTENTION}" "x = CANCELLED \<longrightarrow> classified (cs_db s2) (orderId order)"
      by (auto simp: status_fits_def)
    ultimately show ?thesis using R Inr by (auto simp: retried_def)
  qed
qed



end
