(* ===== verification/Notifier.thy ===== *)
theory Notifier
  imports Api
begin

text \<open>
  services/notification/src/notifier.ts and index.ts: one notification per shipped order, by any
  number of instances. The table is svc_notification.notifications; the order in which an UPDATE or
  SELECT with LIMIT and no ORDER BY visits its rows is the environment's, and so is what the other
  instances do to the table between two statements of a job. The coordinator behind fetch is a state
  of type 'w.
\<close>

section \<open>The table and its statements\<close>

datatype note_status = N_CLAIMED | N_SENT | N_FAILED

record note_row =
  nt_order_id :: string
  nt_status :: note_status
  nt_claimed_by :: "string option"
  nt_claimed_at :: "int option"
  nt_sent_at :: "int option"
  nt_attempts :: nat

record NotifierDeps =
  nd_instanceId :: string
  nd_coordinatorUrl :: string
  nd_batchSize :: nat
  nd_staleMs :: nat

text \<open>The rows a statement with LIMIT reaches first: some arrangement of those that match.\<close>

definition visit :: "(note_row list \<Rightarrow> note_row list) \<Rightarrow> note_row list \<Rightarrow> note_row list" where
  "visit scan rows = (if length (scan rows) = length rows \<and> set (scan rows) = set rows then scan rows else rows)"

definition stale_seconds :: "NotifierDeps \<Rightarrow> nat" where
  "stale_seconds deps = max 1 ((nd_staleMs deps + 999) div 1000)"

definition is_stale :: "nat \<Rightarrow> int \<Rightarrow> note_row \<Rightarrow> bool" where
  "is_stale seconds now r \<longleftrightarrow> nt_status r = N_CLAIMED \<and>
     (case nt_claimed_at r of None \<Rightarrow> False | Some t \<Rightarrow> t < now - 1000 * int seconds)"

definition reclaim_update ::
  "NotifierDeps \<Rightarrow> (note_row list \<Rightarrow> note_row list) \<Rightarrow> int \<Rightarrow> note_row list \<Rightarrow> note_row list" where
  "reclaim_update deps scan now rows =
    (let ids = map nt_order_id (take (nd_batchSize deps)
                 (visit scan (filter (is_stale (stale_seconds deps) now) rows)))
     in fst (sql_update (\<lambda>r. is_stale (stale_seconds deps) now r \<and> nt_order_id r \<in> set ids)
          (\<lambda>r. r\<lparr>nt_claimed_by := Some (nd_instanceId deps), nt_claimed_at := Some now\<rparr>) rows))"

definition held_by :: "string \<Rightarrow> note_row \<Rightarrow> bool" where
  "held_by me r \<longleftrightarrow> nt_status r = N_CLAIMED \<and> nt_claimed_by r = Some me"

definition select_mine :: "NotifierDeps \<Rightarrow> (note_row list \<Rightarrow> note_row list) \<Rightarrow> note_row list \<Rightarrow> string list" where
  "select_mine deps scan rows =
     map nt_order_id (take (nd_batchSize deps) (visit scan (filter (held_by (nd_instanceId deps)) rows)))"

definition new_note :: "string \<Rightarrow> string \<Rightarrow> int \<Rightarrow> note_row" where
  "new_note me oid now = \<lparr>nt_order_id = oid, nt_status = N_CLAIMED, nt_claimed_by = Some me,
     nt_claimed_at = Some now, nt_sent_at = None, nt_attempts = 0\<rparr>"

definition claim_insert :: "string \<Rightarrow> string \<Rightarrow> int \<Rightarrow> note_row list \<Rightarrow> bool \<times> note_row list" where
  "claim_insert me oid now rows =
    (case sql_insert_ignore nt_order_id (new_note me oid now) rows of
       (rows', affectedRows) \<Rightarrow> (affectedRows = 1, rows'))"

definition send_update :: "string \<Rightarrow> string \<Rightarrow> int \<Rightarrow> note_row list \<Rightarrow> bool \<times> note_row list" where
  "send_update me oid now rows =
    (case sql_update (\<lambda>r. nt_order_id r = oid \<and> held_by me r)
        (\<lambda>r. r\<lparr>nt_status := N_SENT, nt_sent_at := Some now, nt_attempts := nt_attempts r + 1\<rparr>) rows of
       (rows', affectedRows) \<Rightarrow> (affectedRows = 1, rows'))"

section \<open>A job\<close>

record list_url =
  lu_base :: string
  lu_status :: string
  lu_page :: string
  lu_pageSize :: string

record OrderListResponse =
  lr_items :: "string list"
  lr_total :: nat
  lr_pageSize :: rat

record list_response =
  lr_status :: int
  lr_body :: "js_value + OrderListResponse"

record 'w notifier_env =
  ne_fate :: "nat \<Rightarrow> stmt_fate"
  ne_others :: "nat \<Rightarrow> note_row list \<Rightarrow> note_row list"
  ne_clock :: "nat \<Rightarrow> int"
  ne_scan :: "note_row list \<Rightarrow> note_row list"
  ne_fetch :: "list_url \<Rightarrow> 'w \<Rightarrow> (js_value + list_response) \<times> 'w"

record 'w notifier_state =
  ns_table :: "note_row list"
  ns_tick :: nat
  ns_remote :: 'w

record JobResult =
  jr_shippedSeen :: nat
  jr_reclaimed :: nat
  jr_claimed :: nat
  jr_sent :: nat
  jr_alreadyHandled :: nat
  jr_failed :: nat

definition note_query ::
  "'w notifier_env \<Rightarrow> (int \<Rightarrow> note_row list \<Rightarrow> 'a \<times> note_row list) \<Rightarrow> ('w notifier_state, js_value, 'a) act" where
  "note_query env q s =
    (let k = ns_tick s; rows = ne_others env k (ns_table s); t = ne_clock env k
     in case ne_fate env k of
          Stmt_ok \<Rightarrow> (Inr (fst (q t rows)), s\<lparr>ns_tick := Suc k, ns_table := snd (q t rows)\<rparr>)
        | Stmt_fails e \<Rightarrow> (Inl e, s\<lparr>ns_tick := Suc k, ns_table := rows\<rparr>)
        | Stmt_ack_lost e \<Rightarrow> (Inl e, s\<lparr>ns_tick := Suc k, ns_table := snd (q t rows)\<rparr>))"

definition reclaimStale :: "'w notifier_env \<Rightarrow> NotifierDeps \<Rightarrow> ('w notifier_state, js_value, string list) act" where
  "reclaimStale env deps =
     seq_act (note_query env (\<lambda>now rows. ((), reclaim_update deps (ne_scan env) now rows)))
       (note_query env (\<lambda>now rows. (select_mine deps (ne_scan env) rows, rows)))"

definition claim :: "'w notifier_env \<Rightarrow> NotifierDeps \<Rightarrow> string \<Rightarrow> ('w notifier_state, js_value, bool) act" where
  "claim env deps oid = note_query env (claim_insert (nd_instanceId deps) oid)"

definition send :: "'w notifier_env \<Rightarrow> NotifierDeps \<Rightarrow> string \<Rightarrow> ('w notifier_state, js_value, bool) act" where
  "send env deps oid = note_query env (send_update (nd_instanceId deps) oid)"

definition page_url :: "NotifierDeps \<Rightarrow> nat \<Rightarrow> list_url" where
  "page_url deps page = \<lparr>lu_base = trim_slash (nd_coordinatorUrl deps), lu_status = ''SHIPPED'',
     lu_page = show_int (int page), lu_pageSize = show_int (int (nd_batchSize deps))\<rparr>"

definition coordinator_error :: "int \<Rightarrow> js_value" where
  "coordinator_error st = ErrorObject ''Error'' (''coordinator returned HTTP '' @ show_int st) None None None"

text \<open>One round of the endless loop: the response, its items appended, and whether to go on.\<close>

definition fetch_page ::
  "'w notifier_env \<Rightarrow> NotifierDeps \<Rightarrow> nat \<Rightarrow> string list \<Rightarrow> ('w notifier_state, js_value, string list \<times> bool) act" where
  "fetch_page env deps page ids s =
    (case ne_fetch env (page_url deps page) (ns_remote s) of
       (res, w) \<Rightarrow>
         (case res of
            Inl e \<Rightarrow> Inl e
          | Inr r \<Rightarrow> if \<not> (200 \<le> lr_status r \<and> lr_status r \<le> 299) then Inl (coordinator_error (lr_status r))
              else (case lr_body r of
                 Inl e \<Rightarrow> Inl e
               | Inr body \<Rightarrow> Inr (ids @ lr_items body,
                   \<not> (of_nat page * lr_pageSize body \<ge> of_nat (lr_total body) \<or> lr_items body = []))),
          s\<lparr>ns_remote := w\<rparr>))"

text \<open>\<open>for (;;)\<close>: None when the coordinator never lets it end.\<close>

partial_function (option) fetch_pages ::
  "'w notifier_env \<Rightarrow> NotifierDeps \<Rightarrow> nat \<Rightarrow> string list \<Rightarrow> 'w notifier_state \<Rightarrow>
     ((js_value + string list) \<times> 'w notifier_state) option" where
  "fetch_pages env deps page ids s =
    (case fetch_page env deps page ids s of
       (Inl e, s1) \<Rightarrow> Some (Inl e, s1)
     | (Inr (ids1, again), s1) \<Rightarrow>
         if again then fetch_pages env deps (Suc page) ids1 s1 else Some (Inr ids1, s1))"

definition fetchShippedOrderIds ::
  "'w notifier_env \<Rightarrow> NotifierDeps \<Rightarrow> 'w notifier_state \<Rightarrow> ((js_value + string list) \<times> 'w notifier_state) option" where
  "fetchShippedOrderIds env deps = fetch_pages env deps 1 []"

text \<open>The two loops of the job, with their counters.\<close>

fun claim_all ::
  "'w notifier_env \<Rightarrow> NotifierDeps \<Rightarrow> string list \<Rightarrow> string list \<times> nat \<times> nat \<Rightarrow>
     ('w notifier_state, js_value, string list \<times> nat \<times> nat) act" where
  "claim_all env deps [] acc = ret_act acc"
| "claim_all env deps (oid # oids) (mine, claimed, already) =
     bind_act (claim env deps oid) (\<lambda>won. claim_all env deps oids
       (if won then (mine @ [oid], claimed + 1, already) else (mine, claimed, already + 1)))"

fun send_all ::
  "'w notifier_env \<Rightarrow> NotifierDeps \<Rightarrow> string list \<Rightarrow> nat \<times> nat \<Rightarrow> 'w notifier_state \<Rightarrow>
     (nat \<times> nat) \<times> 'w notifier_state" where
  "send_all env deps [] acc s = (acc, s)"
| "send_all env deps (oid # oids) (sent, failed) s =
     (case send env deps oid s of
        (Inr ok, s1) \<Rightarrow> send_all env deps oids (if ok then sent + 1 else sent, failed) s1
      | (Inl e, s1) \<Rightarrow> send_all env deps oids (sent, failed + 1) s1)"

definition job_rest ::
  "'w notifier_env \<Rightarrow> NotifierDeps \<Rightarrow> string list \<Rightarrow> string list \<Rightarrow> ('w notifier_state, js_value, JobResult) act" where
  "job_rest env deps reclaimed shipped =
     bind_act (claim_all env deps shipped (reclaimed, 0, 0)) (\<lambda>(mine, claimed, already) s.
       case send_all env deps mine (0, 0) s of
         ((sent, failed), s1) \<Rightarrow>
           (Inr \<lparr>jr_shippedSeen = length shipped, jr_reclaimed = length reclaimed, jr_claimed = claimed,
              jr_sent = sent, jr_alreadyHandled = already, jr_failed = failed\<rparr>, s1))"

definition runNotificationJob ::
  "'w notifier_env \<Rightarrow> NotifierDeps \<Rightarrow> 'w notifier_state \<Rightarrow> ((js_value + JobResult) \<times> 'w notifier_state) option" where
  "runNotificationJob env deps s =
    (case reclaimStale env deps s of
       (Inl e, s1) \<Rightarrow> Some (Inl e, s1)
     | (Inr reclaimed, s1) \<Rightarrow>
        (case fetchShippedOrderIds env deps s1 of
           None \<Rightarrow> None
         | Some (Inl e, s2) \<Rightarrow> Some (Inl e, s2)
         | Some (Inr shipped, s2) \<Rightarrow> Some (job_rest env deps reclaimed shipped s2)))"

section \<open>What any number of instances may do\<close>

text \<open>
  One statement of one instance, with the notifications it sent; a run is any interleaving of the
  statements of any jobs.
\<close>

inductive note_step :: "note_row list \<Rightarrow> string list \<Rightarrow> note_row list \<Rightarrow> bool" where
  reclaims: "note_step rows [] (reclaim_update deps scan now rows)"
| claims: "note_step rows [] (snd (claim_insert me oid now rows))"
| sends: "note_step rows (if fst (send_update me oid now rows) then [oid] else [])
     (snd (send_update me oid now rows))"

inductive note_run :: "note_row list \<Rightarrow> string list \<Rightarrow> note_row list \<Rightarrow> bool" where
  idle: "note_run rows [] rows"
| onward: "note_run rows tr rows' \<Longrightarrow> note_step rows' tr' rows'' \<Longrightarrow> note_run rows (tr @ tr') rows''"

lemma note_run_step: "note_step rows tr rows' \<Longrightarrow> note_run rows tr rows'"
  using note_run.onward [OF note_run.idle] by simp

lemma note_run_trans:
  assumes "note_run b tr' c" and "note_run a tr b"
  shows "note_run a (tr @ tr') c"
  using assms
proof (induction rule: note_run.induct)
  case (onward rows tr1 rows' tr2 rows'')
  from note_run.onward [OF onward.IH [OF onward.prems] onward.hyps(2)] show ?case by simp
qed simp

subsection \<open>The statements seen from one order\<close>

definition note_at :: "note_row list \<Rightarrow> string \<rightharpoonup> note_row" where
  "note_at rows oid = row_at nt_order_id oid rows"

definition was_sent :: "note_row list \<Rightarrow> string \<Rightarrow> bool" where
  "was_sent rows oid \<longleftrightarrow> map_option nt_status (note_at rows oid) = Some N_SENT"

definition note_ok :: "note_row \<Rightarrow> bool" where
  "note_ok r \<longleftrightarrow> nt_status r \<in> {N_CLAIMED, N_SENT} \<and> nt_attempts r = (if nt_status r = N_SENT then 1 else 0)"

definition notes_ok :: "note_row list \<Rightarrow> bool" where
  "notes_ok rows \<longleftrightarrow> unique_key nt_order_id rows \<and> (\<forall>oid r. note_at rows oid = Some r \<longrightarrow> note_ok r)"

lemma notes_ok_Nil [simp]: "notes_ok []"
  by (simp add: notes_ok_def note_at_def)

definition taken_over :: "NotifierDeps \<Rightarrow> int \<Rightarrow> note_row \<Rightarrow> note_row" where
  "taken_over deps now r = r\<lparr>nt_claimed_by := Some (nd_instanceId deps), nt_claimed_at := Some now\<rparr>"

definition reclaim_ids :: "NotifierDeps \<Rightarrow> (note_row list \<Rightarrow> note_row list) \<Rightarrow> int \<Rightarrow> note_row list \<Rightarrow> string list" where
  "reclaim_ids deps scan now rows = map nt_order_id (take (nd_batchSize deps)
     (visit scan (filter (is_stale (stale_seconds deps) now) rows)))"

lemma taken_over_simps [simp]:
  "nt_status (taken_over deps now r) = nt_status r" "nt_attempts (taken_over deps now r) = nt_attempts r"
  "nt_order_id (taken_over deps now r) = nt_order_id r"
  "nt_claimed_by (taken_over deps now r) = Some (nd_instanceId deps)"
  by (simp_all add: taken_over_def)

lemma reclaim_unique: "unique_key nt_order_id (reclaim_update deps scan now rows) = unique_key nt_order_id rows"
  by (simp add: reclaim_update_def Let_def unique_key_update)

lemma reclaim_at:
  "note_at (reclaim_update deps scan now rows) oid =
    map_option (\<lambda>r. if is_stale (stale_seconds deps) now r \<and> oid \<in> set (reclaim_ids deps scan now rows)
      then taken_over deps now r else r) (note_at rows oid)"
  by (cases "row_at nt_order_id oid rows")
     (auto simp: note_at_def reclaim_update_def Let_def row_at_update taken_over_def reclaim_ids_def
       simp del: set_map dest: row_at_Some_key)

lemma claim_unique: "unique_key nt_order_id rows \<Longrightarrow> unique_key nt_order_id (snd (claim_insert me oid now rows))"
  by (auto simp: claim_insert_def case_prod_beta intro: unique_key_insert_ignore)

lemma claim_at:
  "note_at (snd (claim_insert me oid now rows)) x =
    (if x = oid \<and> note_at rows oid = None then Some (new_note me oid now) else note_at rows x)"
  "fst (claim_insert me oid now rows) \<longleftrightarrow> note_at rows oid = None"
proof -
  have k: "nt_order_id (new_note me oid now) = oid" by (simp add: new_note_def)
  show "note_at (snd (claim_insert me oid now rows)) x =
    (if x = oid \<and> note_at rows oid = None then Some (new_note me oid now) else note_at rows x)"
    using k by (auto simp: claim_insert_def case_prod_beta note_at_def row_at_insert_ignore split: option.splits)
  show "fst (claim_insert me oid now rows) \<longleftrightarrow> note_at rows oid = None"
    using k by (simp add: claim_insert_def case_prod_beta note_at_def insert_ignore_affected)
qed

definition marked_sent :: "int \<Rightarrow> note_row \<Rightarrow> note_row" where
  "marked_sent now r = r\<lparr>nt_status := N_SENT, nt_sent_at := Some now, nt_attempts := nt_attempts r + 1\<rparr>"

lemma marked_sent_simps [simp]:
  "nt_status (marked_sent now r) = N_SENT" "nt_attempts (marked_sent now r) = nt_attempts r + 1"
  "nt_order_id (marked_sent now r) = nt_order_id r"
  by (simp_all add: marked_sent_def)

lemma send_unique: "unique_key nt_order_id (snd (send_update me oid now rows)) = unique_key nt_order_id rows"
  by (simp add: send_update_def case_prod_beta unique_key_update)

lemma send_at:
  "note_at (snd (send_update me oid now rows)) x =
    map_option (\<lambda>r. if x = oid \<and> held_by me r then marked_sent now r else r) (note_at rows x)"
  by (cases "row_at nt_order_id x rows")
     (auto simp: send_update_def case_prod_beta note_at_def row_at_update marked_sent_def dest: row_at_Some_key)

lemma send_fst:
  assumes "unique_key nt_order_id rows"
  shows "fst (send_update me oid now rows) \<longleftrightarrow> (\<exists>r. note_at rows oid = Some r \<and> held_by me r)"
  using affected_at_key [OF assms, where x = oid, of "\<lambda>r. nt_order_id r = oid \<and> held_by me r"
      "\<lambda>r. r\<lparr>nt_status := N_SENT, nt_sent_at := Some now, nt_attempts := nt_attempts r + 1\<rparr>"]
  by (auto simp: send_update_def case_prod_beta note_at_def split: option.splits dest: row_at_Some_key)

text \<open>A step keeps the rows of the table and can only move a row from CLAIMED to SENT, sending it.\<close>

lemma note_step_spec:
  assumes "note_step rows tr rows'" and ok: "notes_ok rows"
  shows "notes_ok rows'" and "length tr \<le> 1"
    and "note_at rows oid = Some r \<Longrightarrow> note_at rows' oid \<noteq> None"
    and "oid \<in> set tr \<Longrightarrow> \<not> was_sent rows oid \<and> was_sent rows' oid"
    and "oid \<notin> set tr \<Longrightarrow> was_sent rows' oid = was_sent rows oid"
    and "was_sent rows oid \<Longrightarrow> note_at rows' oid = note_at rows oid"
proof -
  have u: "unique_key nt_order_id rows" and each: "\<And>oid r. note_at rows oid = Some r \<Longrightarrow> note_ok r"
    using ok by (auto simp: notes_ok_def)
  have "notes_ok rows' \<and> length tr \<le> 1 \<and> (note_at rows oid \<noteq> None \<longrightarrow> note_at rows' oid \<noteq> None) \<and>
     (oid \<in> set tr \<longrightarrow> \<not> was_sent rows oid \<and> was_sent rows' oid) \<and>
     (oid \<notin> set tr \<longrightarrow> was_sent rows' oid = was_sent rows oid) \<and>
     (was_sent rows oid \<longrightarrow> note_at rows' oid = note_at rows oid)"
    using assms(1)
  proof (cases rule: note_step.cases)
    case (reclaims deps scan now)
    then have "notes_ok rows'"
      using u by (auto simp: notes_ok_def reclaim_unique reclaim_at note_ok_def [of "taken_over _ _ _"]
          dest: each split: if_splits) (auto simp: note_ok_def dest: each)
    with reclaims show ?thesis
      by (cases "note_at rows oid") (auto simp: was_sent_def reclaim_at is_stale_def)
  next
    case (claims me oid' now)
    then show ?thesis
      using u each by (auto simp: notes_ok_def claim_unique claim_at was_sent_def note_ok_def new_note_def)
  next
    case (sends me oid' now)
    have "note_ok (marked_sent now r)" if "note_at rows x = Some r" "held_by me r" for x r
      using each [OF that(1)] that(2) by (simp add: note_ok_def held_by_def)
    then have "notes_ok rows'"
      using u sends each by (auto simp: notes_ok_def send_unique send_at split: if_splits)
    then show ?thesis
      using sends u
      by (cases "note_at rows oid") (auto simp: was_sent_def send_at send_fst held_by_def)
  qed
  then show "notes_ok rows'" and "length tr \<le> 1"
    and "note_at rows oid = Some r \<Longrightarrow> note_at rows' oid \<noteq> None"
    and "oid \<in> set tr \<Longrightarrow> \<not> was_sent rows oid \<and> was_sent rows' oid"
    and "oid \<notin> set tr \<Longrightarrow> was_sent rows' oid = was_sent rows oid"
    and "was_sent rows oid \<Longrightarrow> note_at rows' oid = note_at rows oid" by simp_all
qed

lemma note_run_spec:
  assumes "note_run rows tr rows'" and "notes_ok rows"
  shows "notes_ok rows' \<and> distinct tr \<and>
    (\<forall>oid. (oid \<in> set tr \<longleftrightarrow> was_sent rows' oid \<and> \<not> was_sent rows oid) \<and>
       (was_sent rows oid \<longrightarrow> note_at rows' oid = note_at rows oid) \<and>
       (note_at rows oid \<noteq> None \<longrightarrow> note_at rows' oid \<noteq> None))"
  using assms
proof (induction rule: note_run.induct)
  case (onward rows tr rows' tr' rows'')
  then have IH: "notes_ok rows'" "distinct tr"
    "\<And>oid. (oid \<in> set tr \<longleftrightarrow> was_sent rows' oid \<and> \<not> was_sent rows oid) \<and>
       (was_sent rows oid \<longrightarrow> note_at rows' oid = note_at rows oid) \<and>
       (note_at rows oid \<noteq> None \<longrightarrow> note_at rows' oid \<noteq> None)" by blast+
  note S = note_step_spec [OF onward.hyps(2) IH(1)]
  have mono: "was_sent rows oid \<Longrightarrow> was_sent rows' oid" for oid using IH(3) [of oid] by (auto simp: was_sent_def)
  have "distinct tr'" using S(2) by (cases tr') auto
  moreover have "set tr \<inter> set tr' = {}" using IH(3) S(4) by blast
  moreover have "(oid \<in> set (tr @ tr') \<longleftrightarrow> was_sent rows'' oid \<and> \<not> was_sent rows oid) \<and>
       (was_sent rows oid \<longrightarrow> note_at rows'' oid = note_at rows oid) \<and>
       (note_at rows oid \<noteq> None \<longrightarrow> note_at rows'' oid \<noteq> None)" for oid
    using IH(3) [of oid] S(3,4,5,6) [of oid] mono [of oid] by (cases "oid \<in> set tr'") auto
  ultimately show ?case using S(1) IH(2) by simp
qed simp

text \<open>
  C23. Never sent twice: over any interleaving of the jobs of any number of instances, whatever
  crashed in between, each order is notified at most once; the notified orders are exactly the SENT
  rows, each with one attempt, and a SENT row never changes again.
\<close>

theorem notified_at_most_once:
  assumes "note_run [] tr rows" and "note_run rows tr' rows'"
  shows "distinct (tr @ tr') \<and> (\<forall>oid. oid \<in> set tr \<longleftrightarrow> was_sent rows oid) \<and>
    (\<forall>oid r. note_at rows oid = Some r \<and> nt_status r = N_SENT \<longrightarrow> nt_attempts r = 1 \<and> note_at rows' oid = Some r)"
proof -
  note R = note_run_spec [OF assms(1) notes_ok_Nil]
  note R' = note_run_spec [OF assms(2) conjunct1 [OF R]]
  have "distinct (tr @ tr')"
    using note_run_spec [OF note_run_trans [OF assms(2,1)] notes_ok_Nil] by blast
  moreover have "oid \<in> set tr \<longleftrightarrow> was_sent rows oid" for oid
    using R by (simp add: was_sent_def note_at_def)
  moreover have "nt_attempts r = 1 \<and> note_at rows' oid = Some r"
    if "note_at rows oid = Some r" "nt_status r = N_SENT" for oid r
    using R R' that by (auto simp: notes_ok_def note_ok_def was_sent_def)
  ultimately show ?thesis by blast
qed

theorem notified_at_most_once_witness:
  "\<exists>rows rows'. note_run [] [''A''] rows \<and>
     note_run rows [] (snd (claim_insert ''n2'' ''A'' 9 rows)) \<and>
     note_at (snd (claim_insert ''n2'' ''A'' 9 rows)) ''A'' = note_at rows ''A'' \<and> was_sent rows ''A''"
proof -
  let ?c = "snd (claim_insert ''n1'' ''A'' 5 [])"
  let ?s = "snd (send_update ''n1'' ''A'' 6 ?c)"
  have c: "?c = [new_note ''n1'' ''A'' 5]" by (simp add: claim_insert_def sql_insert_ignore_def)
  have won: "fst (send_update ''n1'' ''A'' 6 ?c)"
    unfolding c by (simp add: send_update_def sql_update_def new_note_def held_by_def)
  have "note_run [] ([] @ [''A'']) ?s"
    using note_run.onward [OF note_run_step [OF note_step.claims [of "[]" "''n1''" "''A''" 5]]
        note_step.sends [of ?c "''n1''" "''A''" 6]] won by simp
  then have run: "note_run [] [''A''] ?s" by simp
  have again: "note_run ?s [] (snd (claim_insert ''n2'' ''A'' 9 ?s))"
    by (rule note_run_step [OF note_step.claims])
  from notified_at_most_once [OF run again]
  have all: "\<And>oid r. note_at ?s oid = Some r \<and> nt_status r = N_SENT \<longrightarrow>
      note_at (snd (claim_insert ''n2'' ''A'' 9 ?s)) oid = Some r" and sent: "was_sent ?s ''A''" by auto
  then obtain r where "note_at ?s ''A'' = Some r" "nt_status r = N_SENT" by (auto simp: was_sent_def)
  with all sent run again show ?thesis by metis
qed

end
