(* ===== verification/NotifierJob.thy ===== *)
theory NotifierJob
  imports Notifier
begin

text \<open>
  The notification job as a program: it implements the step relation of theory Notifier whatever the
  other instances do between its statements, it ends against the coordinator's list route, and a job
  that nothing disturbs notifies every shipped order that is not in another live instance's hands.
\<close>

section \<open>A job is a run\<close>

text \<open>The other instances only ever do what the code lets them.\<close>

definition others_run :: "'w notifier_env \<Rightarrow> bool" where
  "others_run env \<longleftrightarrow> (\<forall>k rows. \<exists>tr. note_run rows tr (ne_others env k rows))"

definition is_statement :: "(int \<Rightarrow> note_row list \<Rightarrow> 'a \<times> note_row list) \<Rightarrow> bool" where
  "is_statement q \<longleftrightarrow> (\<forall>t rows. \<exists>tr. note_run rows tr (snd (q t rows)))"

definition reaches :: "note_row list \<Rightarrow> 'w notifier_state \<Rightarrow> bool" where
  "reaches rows0 s \<longleftrightarrow> (\<exists>tr. note_run rows0 tr (ns_table s))"

lemma others_go: "others_run env \<Longrightarrow> note_run rows0 tr rows \<Longrightarrow> \<exists>tr'. note_run rows0 (tr @ tr') (ne_others env k rows)"
  unfolding others_run_def using note_run_trans by blast

lemma note_query_reaches [preserves_intro]:
  assumes "others_run env" and "is_statement q"
  shows "preserves (reaches rows0) (note_query env q)"
proof (rule preservesI)
  fix s :: "'a notifier_state" assume "reaches rows0 s"
  then obtain tr0 where "note_run rows0 tr0 (ns_table s)" by (auto simp: reaches_def)
  with others_go [OF assms(1)] obtain tr where "note_run rows0 tr (ne_others env (ns_tick s) (ns_table s))"
    by blast
  moreover obtain tr' where "note_run (ne_others env (ns_tick s) (ns_table s)) tr'
      (snd (q (ne_clock env (ns_tick s)) (ne_others env (ns_tick s) (ns_table s))))"
    using assms(2) by (auto simp: is_statement_def)
  ultimately show "reaches rows0 (snd (note_query env q s))"
    using note_run_trans by (fastforce simp: reaches_def note_query_def Let_def split: stmt_fate.splits)
qed

lemma statements [preserves_intro]:
  "is_statement (\<lambda>now rows. ((), reclaim_update deps scan now rows))"
  "is_statement (\<lambda>now rows. (f rows, rows))"
  "is_statement (claim_insert me oid)"
  "is_statement (send_update me oid)"
  unfolding is_statement_def using note_run_step note_step.intros note_run.idle by (metis snd_conv)+

lemma reclaim_reaches: "others_run env \<Longrightarrow> preserves (reaches rows0) (reclaimStale env deps)"
  unfolding reclaimStale_def by (intro preserves_intro)

lemma claim_all_reaches: "others_run env \<Longrightarrow> preserves (reaches rows0) (claim_all env deps oids acc)"
proof (induction oids arbitrary: acc)
  case (Cons oid oids)
  obtain mine claimed already where acc: "acc = (mine, claimed, already)" by (cases acc)
  show ?case
    unfolding acc claim_all.simps claim_def by (intro preserves_intro Cons)
qed (simp add: preserves_ret)

lemma fetch_page_table: "fetch_page env deps page ids s = (r, s') \<Longrightarrow> ns_table s' = ns_table s \<and> ns_tick s' = ns_tick s"
  by (auto simp: fetch_page_def split: prod.splits)

lemma fetch_pages_table:
  assumes "fetch_pages env deps page ids s = Some x"
  shows "ns_table (snd x) = ns_table s \<and> ns_tick (snd x) = ns_tick s"
proof (rule fetch_pages.raw_induct
    [where P = "\<lambda>env deps page ids s x. ns_table (snd x) = ns_table s \<and> ns_tick (snd x) = ns_tick s", OF _ assms])
  fix fetch :: "'a notifier_env \<Rightarrow> NotifierDeps \<Rightarrow> nat \<Rightarrow> string list \<Rightarrow> 'a notifier_state \<Rightarrow>
     ((js_value + string list) \<times> 'a notifier_state) option"
  fix env deps page ids s x
  assume IH: "\<And>env deps page ids s x. fetch env deps page ids s = Some x \<Longrightarrow>
      ns_table (snd x) = ns_table s \<and> ns_tick (snd x) = ns_tick s"
    and run: "(case fetch_page env deps page ids s of (Inl e, s1) \<Rightarrow> Some (Inl e, s1)
      | (Inr (ids1, again), s1) \<Rightarrow> if again then fetch env deps (Suc page) ids1 s1 else Some (Inr ids1, s1)) = Some x"
  obtain r s1 where p: "fetch_page env deps page ids s = (r, s1)" by fastforce
  from fetch_page_table [OF p] run p IH show "ns_table (snd x) = ns_table s \<and> ns_tick (snd x) = ns_tick s"
    by (cases r) (auto split: if_splits prod.splits)
qed

text \<open>What the loop counts it has sent, it has sent.\<close>

lemma send_all_run:
  assumes "others_run env" and "note_run rows0 tr0 (ns_table s)"
    and "send_all env deps oids (sent, failed) s = ((sent', failed'), s')"
  shows "\<exists>tr. note_run rows0 (tr0 @ tr) (ns_table s') \<and> sent' \<le> sent + length tr \<and>
    sent' + failed' \<le> sent + failed + length oids"
  using assms(2,3)
proof (induction oids arbitrary: sent failed s tr0)
  case Nil
  then show ?case by (intro exI [of _ "[]"]) simp
next
  case (Cons oid oids)
  let ?k = "ns_tick s"
  let ?rows = "ne_others env ?k (ns_table s)"
  let ?q = "send_update (nd_instanceId deps) oid (ne_clock env ?k) ?rows"
  obtain tr1 where 1: "note_run rows0 (tr0 @ tr1) ?rows"
    using others_go [OF assms(1) Cons.prems(1)] by blast
  have 2: "note_run rows0 (tr0 @ tr1 @ (if fst ?q then [oid] else [])) (snd ?q)"
    using note_run_trans [OF note_run_step [OF note_step.sends] 1] by simp
  obtain r s1 where step: "send env deps oid s = (r, s1)" by fastforce
  then have s1: "ns_table s1 = ?rows \<and> isl r \<or> ns_table s1 = snd ?q \<and> (isl r \<or> r = Inr (fst ?q))"
    by (auto simp: send_def note_query_def Let_def split: stmt_fate.splits)
  obtain sent1 failed1 where rest: "send_all env deps oids (sent1, failed1) s1 = ((sent', failed'), s')"
    and n: "(sent1, failed1) = (case r of Inr ok \<Rightarrow> (if ok then sent + 1 else sent, failed)
      | Inl e \<Rightarrow> (sent, failed + 1))"
    using Cons.prems(2) step by (auto split: sum.splits)
  have "\<exists>tr2. note_run rows0 (tr0 @ tr2) (ns_table s1) \<and> sent1 \<le> sent + length tr2 \<and>
      sent1 + failed1 \<le> sent + failed + 1"
  proof (cases "ns_table s1 = ?rows \<and> isl r")
    case True
    with 1 n show ?thesis by (intro exI [of _ tr1]) (auto split: sum.splits)
  next
    case False
    with s1 have s1: "ns_table s1 = snd ?q" "isl r \<or> r = Inr (fst ?q)" by auto
    with 2 n show ?thesis
      by (intro exI [of _ "tr1 @ (if fst ?q then [oid] else [])"]) (auto split: sum.splits if_splits)
  qed
  then obtain tr2 where tr2: "note_run rows0 (tr0 @ tr2) (ns_table s1)" "sent1 \<le> sent + length tr2"
    "sent1 + failed1 \<le> sent + failed + 1" by blast
  from Cons.IH [OF tr2(1) rest] obtain tr where "note_run rows0 ((tr0 @ tr2) @ tr) (ns_table s')"
    "sent' \<le> sent1 + length tr" "sent' + failed' \<le> sent1 + failed1 + length oids" by blast
  with tr2 show ?case by (intro exI [of _ "tr2 @ tr"]) simp
qed

lemma claim_all_counts:
  "claim_all env deps oids (mine, c, a) s = (Inr (mine', c', a'), s') \<Longrightarrow>
    c' + a' = c + a + length oids \<and> length mine' + c = length mine + c'"
proof (induction oids arbitrary: mine c a s)
  case (Cons oid oids)
  obtain r s1 where 1: "claim env deps oid s = (r, s1)" by fastforce
  with Cons.prems obtain won where r: "r = Inr won" by (cases r) (auto simp: bind_act_def)
  show ?case
  proof (cases won)
    case True
    with Cons.prems 1 r have "claim_all env deps oids (mine @ [oid], c + 1, a) s1 = (Inr (mine', c', a'), s')"
      by (simp add: bind_act_def)
    from Cons.IH [OF this] show ?thesis by simp
  next
    case False
    with Cons.prems 1 r have "claim_all env deps oids (mine, c, a + 1) s1 = (Inr (mine', c', a'), s')"
      by (simp add: bind_act_def)
    from Cons.IH [OF this] show ?thesis by simp
  qed
qed (simp add: ret_act_def)

lemma job_reaches:
  assumes "others_run env" and "runNotificationJob env deps s = Some (r, s')"
  shows "\<exists>tr. note_run (ns_table s) tr (ns_table s') \<and>
    (case r of Inl e \<Rightarrow> True
     | Inr res \<Rightarrow> jr_sent res \<le> length tr \<and> jr_claimed res + jr_alreadyHandled res = jr_shippedSeen res \<and>
         jr_sent res + jr_failed res \<le> jr_reclaimed res + jr_claimed res)"
proof -
  let ?R = "reaches (ns_table s)"
  have start: "?R s" unfolding reaches_def using note_run.idle by blast
  obtain r1 s1 where 1: "reclaimStale env deps s = (r1, s1)" by fastforce
  have R1: "?R s1" by (rule preservesD [OF reclaim_reaches [OF assms(1)] start 1])
  show ?thesis
  proof (cases r1)
    case (Inl e)
    with assms(2) 1 R1 show ?thesis by (auto simp: runNotificationJob_def reaches_def)
  next
    case (Inr reclaimed)
    with assms(2) 1 obtain r2 s2 where 2: "fetchShippedOrderIds env deps s1 = Some (r2, s2)"
      by (auto simp: runNotificationJob_def split: option.splits)
    then have "ns_table s2 = ns_table s1"
      using fetch_pages_table by (fastforce simp: fetchShippedOrderIds_def)
    with R1 have R2: "?R s2" by (simp add: reaches_def)
    show ?thesis
    proof (cases r2)
      case Inl2: (Inl e)
      with assms(2) 1 Inr 2 R2 show ?thesis by (auto simp: runNotificationJob_def reaches_def)
    next
      case Inr2: (Inr shipped)
      obtain r3 s3 where 3: "claim_all env deps shipped (reclaimed, 0, 0) s2 = (r3, s3)" by fastforce
      have R3: "?R s3" by (rule preservesD [OF claim_all_reaches [OF assms(1)] R2 3])
      show ?thesis
      proof (cases r3)
        case Inl3: (Inl e)
        with assms(2) 1 Inr 2 Inr2 3 R3 show ?thesis
          by (auto simp: runNotificationJob_def job_rest_def bind_act_def reaches_def)
      next
        case Inr3: (Inr v)
        obtain mine c a where v: "v = (mine, c, a)" by (cases v)
        obtain n f s4 where 4: "send_all env deps mine (0, 0) s3 = ((n, f), s4)" by (metis prod.collapse)
        from R3 obtain tr0 where "note_run (ns_table s) tr0 (ns_table s3)" by (auto simp: reaches_def)
        from send_all_run [OF assms(1) this 4] obtain tr where
          tr: "note_run (ns_table s) (tr0 @ tr) (ns_table s4)" "n \<le> length tr" "n + f \<le> length mine" by auto
        have res: "r = Inr \<lparr>jr_shippedSeen = length shipped, jr_reclaimed = length reclaimed, jr_claimed = c,
              jr_sent = n, jr_alreadyHandled = a, jr_failed = f\<rparr>" "s' = s4"
          using assms(2) 1 Inr 2 Inr2 3 Inr3 v 4
          by (auto simp: runNotificationJob_def job_rest_def bind_act_def)
        from claim_all_counts [of env deps shipped reclaimed 0 0 s2 mine c a s3] 3 Inr3 v res tr
        show ?thesis by (intro exI [of _ "tr0 @ tr"]) simp
      qed
    qed
  qed
qed


section \<open>Against the coordinator's list route\<close>

text \<open>
  The response of the list route as the job reads it; a reply that is no page has no items to map
  over.
\<close>

definition no_items :: js_value where
  "no_items = ErrorObject ''TypeError'' ''Cannot read properties of undefined'' None None None"

definition list_response_of :: "api_reply \<Rightarrow> list_response" where
  "list_response_of rep = \<lparr>lr_status = rep_status rep, lr_body =
     (case rep_body rep of
        B_page pg \<Rightarrow> Inr \<lparr>lr_items = map li_orderId (lp_items pg), lr_total = lp_total pg,
          lr_pageSize = (case lp_pageSize pg of Finite q \<Rightarrow> q | _ \<Rightarrow> 0)\<rparr>
      | _ \<Rightarrow> Inl no_items)\<rparr>"

definition api_fetch :: "'w api_deps \<Rightarrow> list_url \<Rightarrow> 'w coord \<Rightarrow> (js_value + list_response) \<times> 'w coord" where
  "api_fetch ad url c =
    (case createApi ad (Get_orders (Q_text (lu_status url)) (Q_text (lu_page url)) (Q_text (lu_pageSize url))) c of
       (rep, c') \<Rightarrow> (Inr (list_response_of rep), c'))"

definition shipped_ids :: "saga_db \<Rightarrow> string list" where
  "shipped_ids db = map o_order_id (newest_first (Some SHIPPED) db)"

lemma shipped_ids_set: "set (shipped_ids db) = {o_order_id r | r. r \<in> set (saga_orders db) \<and> o_status r = SHIPPED}"
  by (auto simp: shipped_ids_def newest_first_set list_where_def)

lemma shipped_param: "status_param (Q_text ''SHIPPED'') = Some SHIPPED"
  by (simp add: status_param_def VALID_STATUSES_def)

lemma list_item_id: "li_orderId \<circ> list_item db = o_order_id"
  by (simp add: fun_eq_iff list_item_def)

lemma fetch_page_api:
  assumes fates: "\<And>k. dep_fate (ad_saga ad) k = Stmt_ok" and env: "ne_fetch env = api_fetch ad"
    and n: "1 \<le> nd_batchSize deps" "nd_batchSize deps < 2 ^ 64" and p: "Suc p < 2 ^ 64" "p * 200 < 2 ^ 64"
  shows "\<exists>s'. fetch_page env deps (Suc p) ids s =
      (Inr (ids @ take (min 200 (nd_batchSize deps)) (drop (p * min 200 (nd_batchSize deps)) (shipped_ids (cs_db (ns_remote s)))),
        Suc p * min 200 (nd_batchSize deps) < length (shipped_ids (cs_db (ns_remote s))) \<and>
        drop (p * min 200 (nd_batchSize deps)) (shipped_ids (cs_db (ns_remote s))) \<noteq> []), s') \<and>
    ns_table s' = ns_table s \<and> ns_tick s' = ns_tick s \<and> cs_db (ns_remote s') = cs_db (ns_remote s)"
proof -
  let ?m = "min 200 (nd_batchSize deps)"
  let ?db = "cs_db (ns_remote s)"
  note R = list_route_page [OF fates [of "cs_tick (ns_remote s)"] fates [of "Suc (cs_tick (ns_remote s))"] n p,
      of "Q_text ''SHIPPED''", unfolded shipped_param]
  have m: "1 \<le> ?m" using n by simp
  have cmp: "(of_nat (Suc p) * of_nat ?m \<ge> (of_nat t :: rat)) \<longleftrightarrow> \<not> Suc p * ?m < t" for t
    by (simp only: of_nat_mult [symmetric] of_nat_le_iff not_less)
  have "fetch_page env deps (Suc p) ids s =
      (Inr (ids @ take ?m (drop (p * ?m) (shipped_ids ?db)),
        \<not> (of_nat (Suc p) * of_nat ?m \<ge> (of_nat (length (shipped_ids ?db)) :: rat) \<or>
           take ?m (drop (p * ?m) (shipped_ids ?db)) = [])),
       s\<lparr>ns_remote := (ns_remote s)\<lparr>cs_tick := cs_tick (ns_remote s) + 2\<rparr>\<rparr>)"
    unfolding fetch_page_def env api_fetch_def page_url_def list_url.simps R
    by (simp add: list_response_of_def json_reply_def shipped_ids_def take_map drop_map list_item_id)
  then show ?thesis
    using m unfolding cmp by (auto simp: min_def)
qed

text \<open>The loop ends and has every shipped order, however many pages it takes.\<close>

lemma fetch_pages_api:
  assumes fates: "\<And>k. dep_fate (ad_saga ad) k = Stmt_ok" and env: "ne_fetch env = api_fetch ad"
    and n: "1 \<le> nd_batchSize deps" "nd_batchSize deps < 2 ^ 64"
    and size: "length (shipped_ids (cs_db (ns_remote s))) * 200 < 2 ^ 63"
    and p: "p = 0 \<or> p * min 200 (nd_batchSize deps) < length (shipped_ids (cs_db (ns_remote s)))"
    and ids: "ids = take (p * min 200 (nd_batchSize deps)) (shipped_ids (cs_db (ns_remote s)))"
  shows "\<exists>s'. fetch_pages env deps (Suc p) ids s = Some (Inr (shipped_ids (cs_db (ns_remote s))), s') \<and>
    ns_table s' = ns_table s \<and> ns_tick s' = ns_tick s \<and> cs_db (ns_remote s') = cs_db (ns_remote s)"
  using size p ids
proof (induction "length (shipped_ids (cs_db (ns_remote s))) - p * min 200 (nd_batchSize deps)"
    arbitrary: p ids s rule: less_induct)
  case less
  let ?m = "min 200 (nd_batchSize deps)"
  let ?all = "shipped_ids (cs_db (ns_remote s))"
  have m: "1 \<le> ?m" using n by simp
  have "p \<le> length ?all"
    using less.prems(2) m by (metis le0 le_trans less_imp_le_nat mult.right_neutral mult_le_mono2)
  then have p: "Suc p < 2 ^ 64" "p * 200 < 2 ^ 64" using less.prems(1) by simp_all
  from fetch_page_api [OF fates env n p, of ids s] obtain s1 where
    page: "fetch_page env deps (Suc p) ids s = (Inr (ids @ take ?m (drop (p * ?m) ?all),
        Suc p * ?m < length ?all \<and> drop (p * ?m) ?all \<noteq> []), s1)"
    and s1: "ns_table s1 = ns_table s" "ns_tick s1 = ns_tick s" "cs_db (ns_remote s1) = cs_db (ns_remote s)"
    by blast
  have "Suc p * ?m = p * ?m + ?m" by simp
  then have ids1: "ids @ take ?m (drop (p * ?m) ?all) = take (Suc p * ?m) ?all"
    using less.prems(3) take_add [of "p * ?m" ?m ?all] by (simp only:)
  show ?case
  proof (cases "Suc p * ?m < length ?all \<and> drop (p * ?m) ?all \<noteq> []")
    case True
    have "length ?all - Suc p * ?m < length ?all - p * ?m"
      by (rule diff_less_mono2) (use True m in auto)
    from less.hyps [of s1 "Suc p" "take (Suc p * ?m) ?all"] this s1 True less.prems(1)
    obtain s' where "fetch_pages env deps (Suc (Suc p)) (take (Suc p * ?m) ?all) s1 = Some (Inr ?all, s')"
      "ns_table s' = ns_table s" "ns_tick s' = ns_tick s" "cs_db (ns_remote s') = cs_db (ns_remote s)"
      by auto
    then show ?thesis
      using page True ids1 by (simp add: fetch_pages.simps [of env deps "Suc p"])
  next
    case False
    then have "take (Suc p * ?m) ?all = ?all"
    proof (cases "drop (p * ?m) ?all = []")
      case True
      then have "length ?all \<le> p * ?m" by simp
      then show ?thesis by (simp add: trans_le_add2)
    qed simp
    then have "fetch_pages env deps (Suc p) ids s = Some (Inr ?all, s1)"
      using page False ids1 by (subst fetch_pages.simps) simp
    with s1 show ?thesis by blast
  qed
qed

section \<open>An undisturbed job\<close>

definition quiet :: "'w notifier_env \<Rightarrow> bool" where
  "quiet env \<longleftrightarrow> (\<forall>k. ne_fate env k = Stmt_ok) \<and> (\<forall>k rows. ne_others env k rows = rows)"

lemma note_query_quiet:
  "quiet env \<Longrightarrow> note_query env q s = (Inr (fst (q (ne_clock env (ns_tick s)) (ns_table s))),
     s\<lparr>ns_tick := Suc (ns_tick s), ns_table := snd (q (ne_clock env (ns_tick s)) (ns_table s))\<rparr>)"
  by (simp add: quiet_def note_query_def Let_def)

lemma claim_all_quiet:
  assumes "quiet env"
  shows "\<exists>mine' c' a' s'. claim_all env deps oids (mine, c, a) s = (Inr (mine', c', a'), s') \<and>
    ns_remote s' = ns_remote s \<and> set mine' = set mine \<union> {oid \<in> set oids. note_at (ns_table s) oid = None} \<and>
    (unique_key nt_order_id (ns_table s) \<longrightarrow> unique_key nt_order_id (ns_table s')) \<and>
    (\<forall>x. case note_at (ns_table s) x of
       Some r \<Rightarrow> note_at (ns_table s') x = Some r
     | None \<Rightarrow> x \<in> set oids \<longrightarrow> (\<exists>r. note_at (ns_table s') x = Some r \<and> held_by (nd_instanceId deps) r))"
proof (induction oids arbitrary: mine c a s)
  case Nil
  then show ?case by (auto simp: ret_act_def split: option.splits)
next
  case (Cons oid oids)
  let ?me = "nd_instanceId deps"
  let ?q = "claim_insert ?me oid (ne_clock env (ns_tick s)) (ns_table s)"
  let ?s = "s\<lparr>ns_tick := Suc (ns_tick s), ns_table := snd ?q\<rparr>"
  have step: "claim env deps oid s = (Inr (note_at (ns_table s) oid = None), ?s)"
    by (simp add: claim_def note_query_quiet [OF assms] claim_at(2))
  have at: "note_at (snd ?q) x = (if x = oid \<and> note_at (ns_table s) oid = None
      then Some (new_note ?me oid (ne_clock env (ns_tick s))) else note_at (ns_table s) x)" for x
    by (rule claim_at)
  have held: "held_by ?me (new_note ?me oid t)" for t by (simp add: held_by_def new_note_def)
  have u: "unique_key nt_order_id (ns_table s) \<longrightarrow> unique_key nt_order_id (snd ?q)"
    using claim_unique by blast
  let ?acc = "if note_at (ns_table s) oid = None then (mine @ [oid], c + 1, a) else (mine, c, a + 1)"
  obtain mine1 c1 a1 where acc: "?acc = (mine1, c1, a1)" by (cases ?acc)
  from Cons.IH [of mine1 c1 a1 ?s] obtain mine' c' a' s' where
    run: "claim_all env deps oids (mine1, c1, a1) ?s = (Inr (mine', c', a'), s')"
    and IH: "ns_remote s' = ns_remote s" "set mine' = set mine1 \<union> {x \<in> set oids. note_at (snd ?q) x = None}"
      "unique_key nt_order_id (snd ?q) \<longrightarrow> unique_key nt_order_id (ns_table s')"
      "\<And>x. case note_at (snd ?q) x of Some r \<Rightarrow> note_at (ns_table s') x = Some r
        | None \<Rightarrow> x \<in> set oids \<longrightarrow> (\<exists>r. note_at (ns_table s') x = Some r \<and> held_by ?me r)"
    by auto
  have "claim_all env deps (oid # oids) (mine, c, a) s = (Inr (mine', c', a'), s')"
    using run acc by (simp add: bind_act_def step)
  moreover have "set mine' = set mine \<union> {x \<in> set (oid # oids). note_at (ns_table s) x = None}"
    using IH(2) acc at by (auto split: if_splits)
  moreover have "case note_at (ns_table s) x of Some r \<Rightarrow> note_at (ns_table s') x = Some r
        | None \<Rightarrow> x \<in> set (oid # oids) \<longrightarrow> (\<exists>r. note_at (ns_table s') x = Some r \<and> held_by ?me r)" for x
    using IH(4) [of x] at [of x] held by (auto split: option.splits if_splits)
  ultimately show ?case using IH(1,3) u by blast
qed

lemma send_all_quiet:
  assumes "quiet env"
  shows "\<exists>n s'. send_all env deps oids (sent, failed) s = ((n, failed), s') \<and> ns_remote s' = ns_remote s \<and>
    (\<forall>x. if x \<in> set oids \<and> (\<exists>r. note_at (ns_table s) x = Some r \<and> held_by (nd_instanceId deps) r)
         then was_sent (ns_table s') x else note_at (ns_table s') x = note_at (ns_table s) x)"
proof (induction oids arbitrary: sent s)
  case (Cons oid oids)
  let ?me = "nd_instanceId deps"
  let ?q = "send_update ?me oid (ne_clock env (ns_tick s)) (ns_table s)"
  let ?s = "s\<lparr>ns_tick := Suc (ns_tick s), ns_table := snd ?q\<rparr>"
  have step: "send env deps oid s = (Inr (fst ?q), ?s)"
    by (simp add: send_def note_query_quiet [OF assms])
  note at = send_at [of ?me oid "ne_clock env (ns_tick s)" "ns_table s"]
  from Cons.IH [of "if fst ?q then sent + 1 else sent" ?s] obtain n s' where
    run: "send_all env deps oids (if fst ?q then sent + 1 else sent, failed) ?s = ((n, failed), s')"
    and IH: "ns_remote s' = ns_remote s"
      "\<And>x. if x \<in> set oids \<and> (\<exists>r. note_at (snd ?q) x = Some r \<and> held_by ?me r)
         then was_sent (ns_table s') x else note_at (ns_table s') x = note_at (snd ?q) x"
    by auto
  have "if x \<in> set (oid # oids) \<and> (\<exists>r. note_at (ns_table s) x = Some r \<and> held_by ?me r)
         then was_sent (ns_table s') x else note_at (ns_table s') x = note_at (ns_table s) x" for x
  proof (cases "note_at (ns_table s) x")
    case None
    then show ?thesis using IH(2) [of x] at [of x] by auto
  next
    case (Some r)
    show ?thesis
    proof (cases "x = oid \<and> held_by ?me r")
      case True
      with Some at [of x] have "note_at (snd ?q) x = Some (marked_sent (ne_clock env (ns_tick s)) r)" by simp
      with IH(2) [of x] have "note_at (ns_table s') x = Some (marked_sent (ne_clock env (ns_tick s)) r)"
        by (auto simp: held_by_def split: if_splits)
      with True Some show ?thesis by (simp add: was_sent_def)
    next
      case False
      with Some at [of x] have "note_at (snd ?q) x = Some r" by auto
      with IH(2) [of x] Some False show ?thesis by (auto split: if_splits)
    qed
  qed
  with run IH(1) show ?case by (auto simp: step)
qed simp

text \<open>The rows a job may have to rescue: abandoned ones, and its own instance's.\<close>

definition stuck :: "NotifierDeps \<Rightarrow> int \<Rightarrow> note_row list \<Rightarrow> note_row list" where
  "stuck deps now = filter (\<lambda>r. is_stale (stale_seconds deps) now r \<or> held_by (nd_instanceId deps) r)"

lemma length_filter_imp: "(\<And>x. P x \<Longrightarrow> Q x) \<Longrightarrow> length (filter P xs) \<le> length (filter Q xs)"
  by (induction xs) (auto intro: le_SucI)

lemma visit_all: "length rows \<le> n \<Longrightarrow> set (take n (visit scan rows)) = set rows"
  by (simp add: visit_def)

lemma reclaim_quiet:
  assumes "quiet env" and "length (stuck deps (ne_clock env (ns_tick s)) (ns_table s)) \<le> nd_batchSize deps"
  shows "\<exists>ids s1. reclaimStale env deps s = (Inr ids, s1) \<and> ns_remote s1 = ns_remote s \<and>
    (\<forall>x. case note_at (ns_table s) x of
       None \<Rightarrow> note_at (ns_table s1) x = None
     | Some r \<Rightarrow> if is_stale (stale_seconds deps) (ne_clock env (ns_tick s)) r \<or> held_by (nd_instanceId deps) r
         then x \<in> set ids \<and> (\<exists>r'. note_at (ns_table s1) x = Some r' \<and> held_by (nd_instanceId deps) r')
         else note_at (ns_table s1) x = Some r)"
proof -
  let ?t = "ne_clock env (ns_tick s)"
  let ?me = "nd_instanceId deps"
  let ?stale = "is_stale (stale_seconds deps) ?t"
  let ?rows = "ns_table s"
  let ?rows1 = "reclaim_update deps (ne_scan env) ?t ?rows"
  let ?ids = "select_mine deps (ne_scan env) ?rows1"
  have run: "reclaimStale env deps s =
      (Inr ?ids, s\<lparr>ns_tick := Suc (Suc (ns_tick s)), ns_table := ?rows1\<rparr>)"
    by (simp add: reclaimStale_def seq_act_def bind_act_def note_query_quiet [OF assms(1)])
  have "length (filter ?stale ?rows) \<le> nd_batchSize deps"
    using length_filter_imp [of ?stale "\<lambda>r. ?stale r \<or> held_by ?me r" ?rows] assms(2) by (simp add: stuck_def)
  then have ids: "set (reclaim_ids deps (ne_scan env) ?t ?rows) = nt_order_id ` set (filter ?stale ?rows)"
    by (simp add: reclaim_ids_def visit_all)
  have at: "note_at ?rows1 x = map_option (\<lambda>r. if ?stale r then taken_over deps ?t r else r) (note_at ?rows x)" for x
    unfolding reclaim_at ids
    by (cases "note_at ?rows x") (auto simp: note_at_def dest: row_at_Some_key row_at_Some_in)
  have held: "held_by ?me (taken_over deps ?t r)" if "?stale r" for r
    using that by (simp add: held_by_def is_stale_def)
  let ?g = "\<lambda>r. if ?stale r \<and> nt_order_id r \<in> set (reclaim_ids deps (ne_scan env) ?t ?rows)
      then taken_over deps ?t r else r"
  have rows1: "?rows1 = map ?g ?rows"
    by (simp add: reclaim_update_def sql_update_def Let_def taken_over_def reclaim_ids_def)
  have "length (filter (held_by ?me \<circ> ?g) ?rows) \<le> length (filter (\<lambda>r. ?stale r \<or> held_by ?me r) ?rows)"
    by (rule length_filter_imp) (auto split: if_splits)
  then have "length (filter (held_by ?me) ?rows1) \<le> nd_batchSize deps"
    using assms(2) unfolding rows1 stuck_def filter_map length_map by linarith
  then have mine: "set ?ids = nt_order_id ` set (filter (held_by ?me) ?rows1)"
    by (simp add: select_mine_def visit_all)
  have found: "x \<in> set ?ids" if "note_at ?rows1 x = Some r'" "held_by ?me r'" for x r'
  proof -
    from that(1) have "r' \<in> set ?rows1" "nt_order_id r' = x"
      unfolding note_at_def by (auto dest: row_at_Some_key row_at_Some_in)
    with that(2) show ?thesis unfolding mine by auto
  qed
  have "case note_at ?rows x of None \<Rightarrow> note_at ?rows1 x = None
     | Some r \<Rightarrow> if ?stale r \<or> held_by ?me r
         then x \<in> set ?ids \<and> (\<exists>r'. note_at ?rows1 x = Some r' \<and> held_by ?me r')
         else note_at ?rows1 x = Some r" for x
    using at [of x] held found [of x] by (auto split: option.splits)
  then have all: "\<forall>x. case note_at ?rows x of None \<Rightarrow> note_at ?rows1 x = None
     | Some r \<Rightarrow> if ?stale r \<or> held_by ?me r
         then x \<in> set ?ids \<and> (\<exists>r'. note_at ?rows1 x = Some r' \<and> held_by ?me r')
         else note_at ?rows1 x = Some r" by blast
  obtain s1 where s1: "s1 = s\<lparr>ns_tick := Suc (Suc (ns_tick s)), ns_table := ?rows1\<rparr>" by blast
  then have t: "ns_table s1 = ?rows1" "ns_remote s1 = ns_remote s" by simp_all
  show ?thesis
    by (rule exI, rule exI, intro conjI, rule run [folded s1, folded t(1)], rule t(2), rule all [folded t(1)])
qed

text \<open>One order through the sweep (t0 to t1), the claims (t1 to t3) and the sends (t3 to t4) of a job.\<close>

lemma order_accounted:
  assumes ok: "notes_ok t0" and oid: "oid \<in> set shipped"
    and sweep: "case note_at t0 oid of None \<Rightarrow> note_at t1 oid = None
      | Some r \<Rightarrow> if is_stale secs now r \<or> held_by me r
          then oid \<in> set ids \<and> (\<exists>r'. note_at t1 oid = Some r' \<and> held_by me r')
          else note_at t1 oid = Some r"
    and mine: "set mine = set ids \<union> {oid \<in> set shipped. note_at t1 oid = None}"
    and claims: "case note_at t1 oid of Some r \<Rightarrow> note_at t3 oid = Some r
      | None \<Rightarrow> oid \<in> set shipped \<longrightarrow> (\<exists>r. note_at t3 oid = Some r \<and> held_by me r)"
    and sends: "if oid \<in> set mine \<and> (\<exists>r. note_at t3 oid = Some r \<and> held_by me r)
      then was_sent t4 oid else note_at t4 oid = note_at t3 oid"
  shows "was_sent t4 oid \<or> (\<exists>r. note_at t0 oid = Some r \<and> note_at t4 oid = Some r \<and>
      nt_status r = N_CLAIMED \<and> nt_claimed_by r \<noteq> Some me \<and> \<not> is_stale secs now r)"
proof (cases "note_at t0 oid")
  case None
  with assms show ?thesis by auto
next
  case (Some r)
  show ?thesis
  proof (cases "is_stale secs now r \<or> held_by me r")
    case True
    with Some sweep obtain r' where "oid \<in> set ids" "note_at t1 oid = Some r'" "held_by me r'" by auto
    with mine claims sends show ?thesis by auto
  next
    case False
    with Some sweep claims have "note_at t3 oid = Some r" by auto
    with sends False have "note_at t4 oid = Some r" by (auto split: if_splits)
    moreover have "note_ok r" using ok Some by (simp add: notes_ok_def)
    ultimately show ?thesis
      using False Some by (auto simp: note_ok_def was_sent_def held_by_def)
  qed
qed


section \<open>A sample\<close>

text \<open>One shipped order, a notification that a dead instance left behind and one in fresh hands.\<close>

definition shipped_coord :: "string list coord" where
  "shipped_coord = \<lparr>cs_db = list_db, cs_now = 0, cs_world = [], cs_tick = 0, cs_heartbeat = None\<rparr>"

definition sample_notes :: "string list coord notifier_state" where
  "sample_notes = \<lparr>ns_table = [new_note ''dead'' ''A'' 0, new_note ''other'' ''B'' 500000], ns_tick = 0,
     ns_remote = shipped_coord\<rparr>"

definition sample_env :: "string list coord notifier_env" where
  "sample_env = \<lparr>ne_fate = (\<lambda>_. Stmt_ok), ne_others = (\<lambda>_ rows. rows), ne_clock = (\<lambda>k. 500000 + int k),
     ne_scan = rev, ne_fetch = api_fetch (sample_api 200)\<rparr>"

definition sample_notifier :: NotifierDeps where
  "sample_notifier = \<lparr>nd_instanceId = ''me'', nd_coordinatorUrl = ''http://c/'', nd_batchSize = 2,
     nd_staleMs = 120000\<rparr>"

lemma notes_env_quiet: "quiet sample_env"
  by (simp add: quiet_def sample_env_def)

lemma sample_others: "others_run sample_env"
  using note_run.idle by (auto simp: others_run_def sample_env_def)

lemma sample_shipped: "shipped_ids (cs_db (ns_remote sample_notes)) = [''C'', ''B'', ''A'']"
  by (simp add: shipped_ids_def sample_notes_def shipped_coord_def newest_first_def list_where_def list_db_def)

lemma sample_fates: "dep_fate (ad_saga (sample_api 200)) k = Stmt_ok"
  by (simp add: sample_api_def log_deps_def)

lemma sample_notes_ok: "notes_ok (ns_table sample_notes)"
  by (auto simp: notes_ok_def sample_notes_def unique_key_def new_note_def note_at_def note_ok_def split: if_splits)

lemma sample_stuck: "length (stuck sample_notifier (ne_clock sample_env (ns_tick sample_notes)) (ns_table sample_notes))
    \<le> nd_batchSize sample_notifier"
  by (simp add: stuck_def sample_notes_def sample_notifier_def)



end
