(* ===== verification/Logger.thy ===== *)
theory Logger
  imports "HOL-Library.AList" Env Service
begin

text \<open>
  packages/shared/src/logger.ts: one JSON object per line. An object is the list of its properties in
  the order of their insertion, so spreading one into another updates what is there and appends the
  rest. The console is the two streams with the lines written so far, a line being the object before
  JSON.stringify.
\<close>

section \<open>Levels\<close>

datatype log_level = Debug | Info | Warn | Error

fun LEVEL_RANK :: "log_level \<Rightarrow> rat" where
  "LEVEL_RANK Debug = 10"
| "LEVEL_RANK Info = 20"
| "LEVEL_RANK Warn = 30"
| "LEVEL_RANK Error = 40"

fun level_name :: "log_level \<Rightarrow> string" where
  "level_name Debug = ''debug''"
| "level_name Info = ''info''"
| "level_name Warn = ''warn''"
| "level_name Error = ''error''"

text \<open>
  \<open>LEVEL_RANK[...] ?? LEVEL_RANK.info\<close>: a name every object inherits finds a value that is no number,
  and no comparison with it holds.
\<close>

definition inherited_names :: "string list" where
  "inherited_names = [''constructor'', ''hasOwnProperty'', ''isPrototypeOf'', ''propertyIsEnumerable'',
     ''toLocaleString'', ''toString'', ''valueOf'', ''__proto__'', ''__defineGetter__'',
     ''__defineSetter__'', ''__lookupGetter__'', ''__lookupSetter__'']"

definition log_threshold :: "environment \<Rightarrow> js_num" where
  "log_threshold env =
    (let name = (case env ''LOG_LEVEL'' of None \<Rightarrow> ''info'' | Some t \<Rightarrow> t)
     in case find (\<lambda>l. level_name l = name) [Debug, Info, Warn, Error] of
          Some l \<Rightarrow> Finite (LEVEL_RANK l)
        | None \<Rightarrow> if name \<in> set inherited_names then NaN else Finite (LEVEL_RANK Info))"

definition below_threshold :: "log_level \<Rightarrow> js_num \<Rightarrow> bool" where
  "below_threshold level threshold = (case threshold of Finite q \<Rightarrow> LEVEL_RANK level < q | _ \<Rightarrow> False)"

section \<open>Values and lines\<close>

datatype log_value = Logged json | Thrown js_value

type_synonym log_fields = "(string \<times> log_value) list"

text \<open>\<open>String(e)\<close> of what was thrown.\<close>

definition thrown_text :: "js_value \<Rightarrow> string" where
  "thrown_text e =
    (if \<not> is_Error e \<or> error_name e = [] then error_message e
     else if error_message e = [] then error_name e
     else error_name e @ '': '' @ error_message e)"

fun error_cause :: "js_value \<Rightarrow> js_value option" where
  "error_cause (ErrorObject _ _ _ _ c) = c"
| "error_cause _ = None"

definition serialiseValue :: "log_value \<Rightarrow> log_value" where
  "serialiseValue v = (case v of
     Logged j \<Rightarrow> v
   | Thrown e \<Rightarrow>
       if is_Error e
       then Logged (J_obj ([(''name'', J_str (error_name e)), (''message'', J_str (error_message e))] @
              (case error_cause e of None \<Rightarrow> [] | Some c \<Rightarrow> [(''cause'', J_str (thrown_text c))])))
       else v)"

definition spread :: "log_fields \<Rightarrow> log_fields \<Rightarrow> log_fields" where
  "spread fs obj = fold (\<lambda>(k, v). AList.update k v) fs obj"

record console =
  con_out :: "log_fields list"
  con_err :: "log_fields list"

record logger =
  lg_service :: string
  lg_base :: log_fields
  lg_threshold :: js_num

definition createLogger :: "environment \<Rightarrow> string \<Rightarrow> log_fields \<Rightarrow> logger" where
  "createLogger env service baseCtx = \<lparr>lg_service = service, lg_base = baseCtx, lg_threshold = log_threshold env\<rparr>"

definition child_logger :: "environment \<Rightarrow> logger \<Rightarrow> log_fields \<Rightarrow> logger" where
  "child_logger env lg ctx = createLogger env (lg_service lg) (spread ctx (spread (lg_base lg) []))"

definition core_fields :: "logger \<Rightarrow> string \<Rightarrow> log_level \<Rightarrow> string \<Rightarrow> log_fields" where
  "core_fields lg ts level msg = [(''ts'', Logged (J_str ts)), (''level'', Logged (J_str (level_name level))),
     (''service'', Logged (J_str (lg_service lg))), (''msg'', Logged (J_str msg))]"

definition log_line :: "logger \<Rightarrow> string \<Rightarrow> log_level \<Rightarrow> string \<Rightarrow> log_fields \<Rightarrow> log_fields" where
  "log_line lg ts level msg ctx = map (\<lambda>(k, v). (k, serialiseValue v))
     (spread ctx (spread (lg_base lg) (core_fields lg ts level msg)))"

definition write_log :: "logger \<Rightarrow> string \<Rightarrow> log_level \<Rightarrow> string \<Rightarrow> log_fields \<Rightarrow> console \<Rightarrow> console" where
  "write_log lg ts level msg ctx con =
    (if below_threshold level (lg_threshold lg) then con
     else let line = log_line lg ts level msg ctx
          in if level = Error \<or> level = Warn then con\<lparr>con_err := con_err con @ [line]\<rparr>
             else con\<lparr>con_out := con_out con @ [line]\<rparr>)"

section \<open>What a line carries\<close>

lemma spread_lookup: "distinct (map fst fs) \<Longrightarrow> map_of (spread fs obj) = map_of obj ++ map_of fs"
proof (induction fs arbitrary: obj)
  case (Cons f fs)
  obtain k v where f: "f = (k, v)" by fastforce
  with Cons have "map_of (spread (f # fs) obj) = map_of (AList.update k v obj) ++ map_of fs"
    by (simp add: spread_def)
  also have "\<dots> = map_of obj ++ map_of (f # fs)"
  proof -
    have "map_of fs k = None" using Cons.prems f by (simp add: map_of_eq_None_iff)
    then show ?thesis by (simp add: f update_conv' map_add_def fun_eq_iff split: option.splits)
  qed
  finally show ?case .
qed (simp add: spread_def)

lemma spread_distinct: "distinct (map fst obj) \<Longrightarrow> distinct (map fst (spread fs obj))"
  by (induction fs arbitrary: obj) (auto simp: spread_def distinct_update split: prod.splits)

lemma spread_idle: "distinct (map fst fs) \<Longrightarrow> map_of (spread fs []) = map_of fs"
  by (simp add: spread_lookup)

lemma map_of_map_snd: "map_of (map (\<lambda>(k, v). (k, f v)) fs) k = map_option f (map_of fs k)"
  by (induction fs) auto

lemma line_lookup:
  assumes "distinct (map fst ctx)" and "distinct (map fst (lg_base lg))"
  shows "map_of (log_line lg ts level msg ctx) k =
    map_option serialiseValue ((map_of (core_fields lg ts level msg) ++ map_of (lg_base lg) ++ map_of ctx) k)"
  using assms by (simp add: log_line_def map_of_map_snd spread_lookup)

text \<open>
  Every line of a child logger carries the fields it was stamped with, unless the call gives the same
  key itself, and errors arrive as objects with their name and message.
\<close>

lemma child_stamps:
  assumes "distinct (map fst ctx)" and "distinct (map fst stamp)" and "distinct (map fst (lg_base lg))"
    and "map_of stamp k = Some v" and "map_of ctx k = None"
  shows "map_of (log_line (child_logger env lg stamp) ts level msg ctx) k = Some (serialiseValue v)"
proof -
  let ?c = "child_logger env lg stamp"
  have "distinct (map fst (lg_base ?c))" "map_of (lg_base ?c) k = Some v"
    using assms by (simp_all add: child_logger_def createLogger_def spread_distinct spread_lookup)
  with line_lookup [OF assms(1), of ?c ts level msg k] assms(5) show ?thesis by (simp add: map_add_def)
qed

lemma one_line_per_call:
  "length (con_out (write_log lg ts level msg ctx con)) + length (con_err (write_log lg ts level msg ctx con)) =
     length (con_out con) + length (con_err con) + (if below_threshold level (lg_threshold lg) then 0 else 1)"
  by (simp add: write_log_def Let_def)

text \<open>Without LOG_LEVEL only debug lines are left out.\<close>

lemma default_threshold:
  "env ''LOG_LEVEL'' = None \<Longrightarrow> below_threshold level (log_threshold env) \<longleftrightarrow> level = Debug"
  by (cases level) (simp_all add: log_threshold_def below_threshold_def)

end
