(* ===== verification/NotifierProcess.thy ===== *)
theory NotifierProcess
  imports "HOL-Library.Multiset" NotifierJob Logger
begin

text \<open>
  services/notification/src/index.ts: the cron tick, the HTTP routes and the guard against
  overlapping runs. The events of the process are the ones its event loop turns to: the schedule
  fires, a request comes in, the job under way ends. The statements of a job take effect on the state
  at its end; what other instances do between them is the environment's, as in the job.
\<close>

section \<open>Replies\<close>

datatype notif_body = NB_items "note_row list" | NB_ran JobResult | NB_health | NB_error string

definition limit_param :: "query_param \<Rightarrow> js_num" where
  "limit_param q = clamp_between 1 500 50 (number_param 50 q)"

definition notifications_query :: "js_num \<Rightarrow> note_row list \<Rightarrow> js_value + note_row list" where
  "notifications_query limit rows =
    (case sql_count limit of None \<Rightarrow> Inl parse_error | Some n \<Rightarrow> Inr (take n (rev rows)))"

definition list_reply :: "query_param \<Rightarrow> js_value + note_row list \<Rightarrow> int \<times> notif_body" where
  "list_reply q answer =
    (case (case answer of Inl e \<Rightarrow> Inl e | Inr rows \<Rightarrow> notifications_query (limit_param q) rows) of
       Inr rows \<Rightarrow> (200, NB_items rows)
     | Inl e \<Rightarrow> (500, NB_error (thrown_text e)))"

definition health_reply :: "js_value + 'a \<Rightarrow> int \<times> notif_body" where
  "health_reply answer = (case answer of Inr _ \<Rightarrow> (200, NB_health) | Inl e \<Rightarrow> (503, NB_error (thrown_text e)))"

definition run_reply :: "js_value + JobResult \<Rightarrow> int \<times> notif_body" where
  "run_reply outcome = (case outcome of
     Inr result \<Rightarrow> (200, NB_ran result)
   | Inl e \<Rightarrow> (500, NB_error (error_message e)))"

section \<open>The process\<close>

datatype trigger = By_cron | By_request nat

record 'w notif_process =
  np_state :: "'w notifier_state"
  np_running :: bool
  np_jobs :: "trigger list"
  np_replies :: "(nat \<times> int \<times> notif_body) list"

definition new_process :: "'w notifier_state \<Rightarrow> 'w notif_process" where
  "new_process s = \<lparr>np_state = s, np_running = False, np_jobs = [], np_replies = []\<rparr>"

definition answer_request :: "nat \<Rightarrow> int \<times> notif_body \<Rightarrow> 'w notif_process \<Rightarrow> 'w notif_process" where
  "answer_request i rep p = p\<lparr>np_replies := np_replies p @ [(i, rep)]\<rparr>"

definition start_job :: "trigger \<Rightarrow> 'w notif_process \<Rightarrow> 'w notif_process" where
  "start_job t p = p\<lparr>np_running := True, np_jobs := np_jobs p @ [t]\<rparr>"

definition cron_tick :: "'w notif_process \<Rightarrow> 'w notif_process" where
  "cron_tick p = (if np_running p then p else start_job By_cron p)"

definition post_run :: "nat \<Rightarrow> 'w notif_process \<Rightarrow> 'w notif_process" where
  "post_run i p = (if np_running p then answer_request i (409, NB_error ''a run is already in progress'') p
     else start_job (By_request i) p)"

text \<open>What follows the \<open>await\<close>: only the route answers, both clear the flag whatever happened.\<close>

definition job_ends :: "'w notifier_env \<Rightarrow> NotifierDeps \<Rightarrow> 'w notif_process \<Rightarrow> 'w notif_process" where
  "job_ends env deps p =
    (case np_jobs p of
       [] \<Rightarrow> p
     | t # ts \<Rightarrow>
        (case runNotificationJob env deps (np_state p) of
           None \<Rightarrow> p
         | Some (outcome, s) \<Rightarrow>
             let p1 = p\<lparr>np_state := s, np_jobs := ts, np_running := False\<rparr>
             in case t of By_cron \<Rightarrow> p1 | By_request i \<Rightarrow> answer_request i (run_reply outcome) p1))"

definition get_notifications :: "'w notifier_env \<Rightarrow> nat \<Rightarrow> query_param \<Rightarrow> 'w notif_process \<Rightarrow> 'w notif_process" where
  "get_notifications env i q p =
    (case note_query env (\<lambda>now rows. (rows, rows)) (np_state p) of
       (answer, s) \<Rightarrow> answer_request i (list_reply q answer) (p\<lparr>np_state := s\<rparr>))"

definition get_health :: "'w notifier_env \<Rightarrow> nat \<Rightarrow> 'w notif_process \<Rightarrow> 'w notif_process" where
  "get_health env i p =
    (case note_query env (\<lambda>now rows. ((), rows)) (np_state p) of
       (answer, s) \<Rightarrow> answer_request i (health_reply answer) (p\<lparr>np_state := s\<rparr>))"

datatype notif_event = Cron_fires | Run_request nat | List_request nat query_param | Health_request nat | Job_ends

fun notif_step :: "'w notifier_env \<Rightarrow> NotifierDeps \<Rightarrow> notif_event \<Rightarrow> 'w notif_process \<Rightarrow> 'w notif_process" where
  "notif_step env deps Cron_fires = cron_tick"
| "notif_step env deps (Run_request i) = post_run i"
| "notif_step env deps (List_request i q) = get_notifications env i q"
| "notif_step env deps (Health_request i) = get_health env i"
| "notif_step env deps Job_ends = job_ends env deps"

section \<open>One job at a time\<close>

fun request_of :: "notif_event \<Rightarrow> nat list" where
  "request_of (Run_request i) = [i]"
| "request_of (List_request i q) = [i]"
| "request_of (Health_request i) = [i]"
| "request_of _ = []"

definition waiting :: "'w notif_process \<Rightarrow> nat list" where
  "waiting p = concat (map (\<lambda>t. case t of By_cron \<Rightarrow> [] | By_request i \<Rightarrow> [i]) (np_jobs p))"

definition reported_sends :: "(nat \<times> int \<times> notif_body) list \<Rightarrow> nat" where
  "reported_sends reps = sum_list (map (\<lambda>(i, st, b). case b of NB_ran res \<Rightarrow> jr_sent res | _ \<Rightarrow> 0) reps)"

definition process_ok :: "note_row list \<Rightarrow> nat multiset \<Rightarrow> 'w notif_process \<Rightarrow> bool" where
  "process_ok rows0 asked p \<longleftrightarrow> length (np_jobs p) \<le> 1 \<and> np_running p = (np_jobs p \<noteq> []) \<and>
     asked = mset (map fst (np_replies p)) + mset (waiting p) \<and>
     (\<exists>tr. note_run rows0 tr (ns_table (np_state p)) \<and> reported_sends (np_replies p) \<le> length tr)"

lemma reported_sends_append [simp]: "reported_sends (xs @ ys) = reported_sends xs + reported_sends ys"
  by (simp add: reported_sends_def)

lemma read_runs:
  assumes "others_run env" and "note_query env (\<lambda>now rows. (f rows, rows)) s = (r, s')"
  shows "\<exists>tr. note_run (ns_table s) tr (ns_table s')"
  using assms by (auto simp: note_query_def Let_def others_run_def split: stmt_fate.splits)

lemma answer_ok:
  assumes ok: "process_ok rows0 asked p" and run: "\<exists>tr. note_run (ns_table (np_state p)) tr (ns_table s)"
    and quiet: "reported_sends [(i, rep)] = 0"
  shows "process_ok rows0 (asked + {#i#}) (answer_request i rep (p\<lparr>np_state := s\<rparr>))"
proof -
  obtain tr where tr: "note_run rows0 tr (ns_table (np_state p))" "reported_sends (np_replies p) \<le> length tr"
    using ok by (auto simp: process_ok_def)
  obtain tr' where "note_run (ns_table (np_state p)) tr' (ns_table s)" using run by blast
  with tr have "note_run rows0 (tr @ tr') (ns_table s)" "reported_sends (np_replies p) \<le> length (tr @ tr')"
    by (auto intro: note_run_trans)
  then show ?thesis
    using ok quiet by (auto simp: process_ok_def answer_request_def waiting_def)
qed

lemma start_ok:
  assumes "process_ok rows0 asked p" and "\<not> np_running p"
  shows "process_ok rows0 (asked + mset (waiting (start_job t p))) (start_job t p)"
  using assms by (auto simp: process_ok_def start_job_def waiting_def)

lemma job_ends_ok:
  assumes others: "others_run env" and ok: "process_ok rows0 asked p"
  shows "process_ok rows0 asked (job_ends env deps p)"
proof (cases "np_jobs p")
  case Nil
  with ok show ?thesis by (simp add: job_ends_def)
next
  case (Cons t ts)
  with ok have ts: "ts = []" by (simp add: process_ok_def)
  show ?thesis
  proof (cases "runNotificationJob env deps (np_state p)")
    case None
    with ok Cons show ?thesis by (simp add: job_ends_def)
  next
    case (Some out)
    obtain r s where out: "out = (r, s)" by (cases out)
    obtain tr where tr: "note_run rows0 tr (ns_table (np_state p))" "reported_sends (np_replies p) \<le> length tr"
      using ok by (auto simp: process_ok_def)
    obtain tr' where tr': "note_run (ns_table (np_state p)) tr' (ns_table s)"
        "reported_sends [(i, run_reply r)] \<le> length tr'" for i
      using job_reaches [OF others Some [unfolded out]]
      by (cases r) (auto simp: run_reply_def reported_sends_def)
    have "note_run rows0 (tr @ tr') (ns_table s)" using tr tr' by (auto intro: note_run_trans)
    moreover have "reported_sends (np_replies p @ [(i, run_reply r)]) \<le> length (tr @ tr')" for i
      using tr(2) tr'(2) [of i] by simp
    moreover have "reported_sends (np_replies p) \<le> length (tr @ tr')" using tr(2) by simp
    ultimately show ?thesis
      using ok Cons ts Some out
      by (cases t) (auto simp: process_ok_def job_ends_def waiting_def answer_request_def Let_def
          simp del: reported_sends_append length_append)
  qed
qed

lemma notif_step_ok:
  assumes others: "others_run env" and ok: "process_ok rows0 asked p"
  shows "process_ok rows0 (asked + mset (request_of e)) (notif_step env deps e p)"
proof (cases e)
  case Cron_fires
  show ?thesis
  proof (cases "np_running p")
    case False
    from ok False have "np_jobs p = []" by (simp add: process_ok_def)
    with start_ok [OF ok False, of By_cron] False Cron_fires show ?thesis
      by (simp add: cron_tick_def start_job_def waiting_def)
  qed (use ok Cron_fires in \<open>simp add: cron_tick_def\<close>)
next
  case (Run_request i)
  show ?thesis
  proof (cases "np_running p")
    case True
    have "\<exists>tr. note_run (ns_table (np_state p)) tr (ns_table (np_state p))" using note_run.idle by blast
    from answer_ok [OF ok this] True Run_request show ?thesis by (simp add: post_run_def reported_sends_def)
  next
    case False
    from ok False have "np_jobs p = []" by (simp add: process_ok_def)
    with start_ok [OF ok False, of "By_request i"] False Run_request show ?thesis
      by (simp add: post_run_def start_job_def waiting_def)
  qed
next
  case (List_request i q)
  obtain r s where q: "note_query env (\<lambda>now rows. (rows, rows)) (np_state p) = (r, s)" by fastforce
  have "reported_sends [(i, list_reply q r)] = 0"
    by (auto simp: list_reply_def reported_sends_def split: sum.splits)
  from answer_ok [OF ok read_runs [OF others q] this] q List_request show ?thesis
    by (simp add: get_notifications_def)
next
  case (Health_request i)
  obtain r s where q: "note_query env (\<lambda>now rows. ((), rows)) (np_state p) = (r, s)" by fastforce
  have "reported_sends [(i, health_reply r)] = 0"
    by (auto simp: health_reply_def reported_sends_def split: sum.splits)
  from answer_ok [OF ok read_runs [OF others q] this] q Health_request show ?thesis
    by (simp add: get_health_def)
next
  case Job_ends
  with job_ends_ok [OF others ok] show ?thesis by simp
qed

lemma session_ok:
  assumes "others_run env" and "process_ok rows0 asked p"
  shows "process_ok rows0 (asked + mset (concat (map request_of evs))) (fold (notif_step env deps) evs p)"
  using assms(2)
proof (induction evs arbitrary: asked p)
  case (Cons e evs)
  from Cons.IH [OF notif_step_ok [OF assms(1) Cons.prems]] show ?case by (simp add: ac_simps)
qed simp

text \<open>
  However the schedule, the requests and the ends of jobs mix, and however jobs fail, a process
  never has two jobs under way, its flag is up exactly while one is, every request has been answered
  exactly once or is the one waiting for its job, the table goes through statements of the code only,
  and the sends reported to clients do not exceed the notifications that were sent.
\<close>

theorem one_job_at_a_time:
  assumes "others_run env" and "p = fold (notif_step env deps) evs (new_process s)"
  shows "length (np_jobs p) \<le> 1 \<and> np_running p = (np_jobs p \<noteq> []) \<and>
    mset (concat (map request_of evs)) = mset (map fst (np_replies p)) + mset (waiting p) \<and>
    (\<exists>tr. note_run (ns_table s) tr (ns_table (np_state p)) \<and> reported_sends (np_replies p) \<le> length tr)"
proof -
  have "process_ok (ns_table s) {#} (new_process s)"
    using note_run.idle by (auto simp: process_ok_def new_process_def waiting_def reported_sends_def)
  from session_ok [OF assms(1) this, of evs deps] show ?thesis unfolding assms(2) by (simp add: process_ok_def)
qed

theorem one_job_at_a_time_witness:
  "mset (map fst (np_replies (fold (notif_step sample_env sample_notifier) [Cron_fires, Run_request 1, Cron_fires]
     (new_process sample_notes)))) = {#1#}"
proof -
  let ?evs = "[Cron_fires, Run_request 1, Cron_fires]"
  define p where "p = fold (notif_step sample_env sample_notifier) ?evs (new_process sample_notes)"
  have jobs: "np_jobs p = [By_cron]"
    by (simp add: p_def cron_tick_def post_run_def start_job_def answer_request_def new_process_def)
  have "mset (concat (map request_of ?evs)) = mset (map fst (np_replies p)) + mset (waiting p)"
    using one_job_at_a_time [OF sample_others p_def] by blast
  with jobs have "mset (map fst (np_replies p)) = {#1#}" by (simp add: waiting_def)
  then show ?thesis unfolding p_def .
qed

text \<open>After a job has ended, failed or not, the next tick starts one: a failed run does not stop the schedule.\<close>

lemma schedule_goes_on:
  assumes "np_jobs p = [t]" and "runNotificationJob env deps (np_state p) = Some out"
  shows "np_jobs (cron_tick (job_ends env deps p)) = [By_cron]"
  using assms by (auto simp: job_ends_def cron_tick_def start_job_def answer_request_def Let_def
      split: prod.splits trigger.splits)

end
