(* ===== verification/NotifierEnd.thy ===== *)
theory NotifierEnd
  imports NotifierProcess
begin

text \<open>
  services/notification/src/index.ts from the start to the exit after a signal: \<open>shutdown\<close> stops
  listening and ends the pool, but neither stops the schedule nor waits for the job under way, which
  the closed pool or \<open>process.exit\<close> cuts off between any two of its statements. A second signal is left out.
\<close>

section \<open>The process and its end\<close>

text \<open>The pool refuses the statements from the \<open>n\<close>-th on, with the driver's error.\<close>

definition closed_from :: "nat \<Rightarrow> js_value \<Rightarrow> 'w notifier_env \<Rightarrow> 'w notifier_env" where
  "closed_from n e env = env\<lparr>ne_fate := (\<lambda>k. if k < n then ne_fate env k else Stmt_fails e)\<rparr>"

text \<open>What a job leaves behind when the process ends before its \<open>n\<close>-th statement, also amid an endless fetch.\<close>

definition cut_job :: "nat \<Rightarrow> js_value \<Rightarrow> 'w notifier_env \<Rightarrow> NotifierDeps \<Rightarrow> 'w notifier_state \<Rightarrow> 'w notifier_state" where
  "cut_job n e env deps s =
    (case runNotificationJob (closed_from n e env) deps s of
       Some (outcome, s') \<Rightarrow> s'
     | None \<Rightarrow> snd (reclaimStale (closed_from n e env) deps s))"

datatype notif_life = Up | Ending | Exited

record 'w notif_service =
  nv_proc :: "'w notif_process"
  nv_life :: notif_life
  nv_closed :: nat
  nv_refused :: "nat list"

definition new_service :: "'w notifier_state \<Rightarrow> 'w notif_service" where
  "new_service s = \<lparr>nv_proc = new_process s, nv_life = Up, nv_closed = 0, nv_refused = []\<rparr>"

text \<open>
  \<open>shutdown\<close> up to its await: \<open>server.close()\<close>, \<open>pool.end()\<close>. A job under way has had its statements
  before the \<open>n\<close>-th.
\<close>

definition notif_shutdown :: "nat \<Rightarrow> 'w notif_service \<Rightarrow> 'w notif_service" where
  "notif_shutdown n v =
    (let now = ns_tick (np_state (nv_proc v))
     in v\<lparr>nv_life := Ending, nv_closed := (if np_running (nv_proc v) then max now n else now)\<rparr>)"

text \<open>And after it: \<open>process.exit(0)\<close>. Whoever waits for a job has no answer any more.\<close>

definition notif_exit ::
  "'w notifier_env \<Rightarrow> NotifierDeps \<Rightarrow> js_value \<Rightarrow> nat \<Rightarrow> 'w notif_service \<Rightarrow> 'w notif_service" where
  "notif_exit env deps e n v =
    (let p = nv_proc v
     in v\<lparr>nv_life := Exited, nv_proc := (if np_running p
          then p\<lparr>np_state := cut_job (min n (nv_closed v)) e env deps (np_state p)\<rparr> else p)\<rparr>)"

text \<open>A request, a tick or the end of a job, by what is left of the process.\<close>

definition notif_serve ::
  "'w notifier_env \<Rightarrow> NotifierDeps \<Rightarrow> js_value \<Rightarrow> notif_event \<Rightarrow> 'w notif_service \<Rightarrow> 'w notif_service" where
  "notif_serve env deps e ev v =
    (case nv_life v of
       Up \<Rightarrow> v\<lparr>nv_proc := notif_step env deps ev (nv_proc v)\<rparr>
     | Ending \<Rightarrow>
        (if request_of ev = [] then v\<lparr>nv_proc := notif_step (closed_from (nv_closed v) e env) deps ev (nv_proc v)\<rparr>
         else v\<lparr>nv_refused := nv_refused v @ request_of ev\<rparr>)
     | Exited \<Rightarrow> v\<lparr>nv_refused := nv_refused v @ request_of ev\<rparr>)"

datatype service_event = Goes_on notif_event | Signal nat | Exits nat

fun notif_turn ::
  "'w notifier_env \<Rightarrow> NotifierDeps \<Rightarrow> js_value \<Rightarrow> service_event \<Rightarrow> 'w notif_service \<Rightarrow> 'w notif_service" where
  "notif_turn env deps e (Goes_on ev) v = notif_serve env deps e ev v"
| "notif_turn env deps e (Signal n) v = (if nv_life v = Up then notif_shutdown n v else v)"
| "notif_turn env deps e (Exits n) v = (if nv_life v = Ending then notif_exit env deps e n v else v)"

section \<open>What a process leaves behind\<close>

fun asked_by :: "service_event \<Rightarrow> nat list" where
  "asked_by (Goes_on ev) = request_of ev"
| "asked_by _ = []"

definition service_ok :: "note_row list \<Rightarrow> nat multiset \<Rightarrow> 'w notif_service \<Rightarrow> bool" where
  "service_ok rows0 asked v \<longleftrightarrow>
     (\<exists>got. process_ok rows0 got (nv_proc v) \<and> asked = got + mset (nv_refused v))"

lemma others_closed [simp]: "others_run (closed_from n e env) = others_run env"
  by (simp add: others_run_def closed_from_def)

lemma cut_job_runs:
  assumes "others_run env"
  shows "\<exists>tr. note_run (ns_table s) tr (ns_table (cut_job n e env deps s))"
proof (cases "runNotificationJob (closed_from n e env) deps s")
  case None
  have "reaches (ns_table s) s" unfolding reaches_def using note_run.idle by blast
  from preservesD [OF reclaim_reaches this prod.collapse [symmetric]] assms
  have "reaches (ns_table s) (snd (reclaimStale (closed_from n e env) deps s))" by simp
  with None show ?thesis by (simp add: cut_job_def reaches_def)
next
  case (Some out)
  obtain r s' where out: "out = (r, s')" by (cases out)
  have "others_run (closed_from n e env)" using assms by simp
  from job_reaches [OF this Some [unfolded out]] show ?thesis by (auto simp: cut_job_def Some out)
qed

lemma cut_ok:
  assumes "others_run env" and ok: "process_ok rows0 asked p"
  shows "process_ok rows0 asked (p\<lparr>np_state := cut_job n e env deps (np_state p)\<rparr>)"
proof -
  obtain tr where tr: "note_run rows0 tr (ns_table (np_state p))" "reported_sends (np_replies p) \<le> length tr"
    using ok by (auto simp: process_ok_def)
  obtain tr' where "note_run (ns_table (np_state p)) tr' (ns_table (cut_job n e env deps (np_state p)))"
    using cut_job_runs [OF assms(1)] by blast
  with tr have "note_run rows0 (tr @ tr') (ns_table (cut_job n e env deps (np_state p)))"
      "reported_sends (np_replies p) \<le> length (tr @ tr')"
    by (auto intro: note_run_trans)
  with ok show ?thesis by (auto simp: process_ok_def waiting_def)
qed

lemma serve_ok:
  assumes others: "others_run env" and ok: "service_ok rows0 asked v"
  shows "service_ok rows0 (asked + mset (request_of ev)) (notif_serve env deps e ev v)"
proof -
  obtain got where got: "process_ok rows0 got (nv_proc v)" "asked = got + mset (nv_refused v)"
    using ok by (auto simp: service_ok_def)
  have step: "process_ok rows0 (got + mset (request_of ev)) (notif_step env' deps ev (nv_proc v))"
    if "others_run env'" for env' using notif_step_ok [OF that got(1)] .
  show ?thesis
  proof (cases "nv_life v")
    case Up
    with step [OF others] got(2) show ?thesis by (auto simp: service_ok_def notif_serve_def)
  next
    case Ending
    with step [of "closed_from (nv_closed v) e env"] others got show ?thesis
      by (auto simp: service_ok_def notif_serve_def)
  next
    case Exited
    with got show ?thesis by (auto simp: service_ok_def notif_serve_def)
  qed
qed

lemma notif_turn_ok:
  assumes "others_run env" and "service_ok rows0 asked v"
  shows "service_ok rows0 (asked + mset (asked_by ev)) (notif_turn env deps e ev v)"
proof (cases ev)
  case (Goes_on x)
  with serve_ok [OF assms] show ?thesis by simp
next
  case (Signal n)
  with assms(2) show ?thesis by (simp add: service_ok_def notif_shutdown_def Let_def)
next
  case (Exits n)
  with assms(2) cut_ok [OF assms(1)] show ?thesis by (auto simp: service_ok_def notif_exit_def Let_def)
qed

lemma service_session_ok:
  assumes "others_run env" and "service_ok rows0 asked v"
  shows "service_ok rows0 (asked + mset (concat (map asked_by evs))) (fold (notif_turn env deps e) evs v)"
  using assms(2)
proof (induction evs arbitrary: asked v)
  case (Cons ev evs)
  from Cons.IH [OF notif_turn_ok [OF assms(1) Cons.prems]] show ?case by (simp add: ac_simps)
qed simp

lemma new_service_ok: "service_ok (ns_table s) {#} (new_service s)"
  using note_run.idle
  by (auto simp: service_ok_def process_ok_def new_service_def new_process_def waiting_def reported_sends_def)

text \<open>An end in the middle of a job leaves a table from which every guarantee of the notifier goes on.\<close>

lemma left_behind_ok:
  assumes "others_run env" and "notes_ok (ns_table s)"
  shows "notes_ok (ns_table (np_state (nv_proc (fold (notif_turn env deps e) evs (new_service s)))))"
  using service_session_ok [OF assms(1) new_service_ok] note_run_spec [OF _ assms(2)]
  by (fastforce simp: service_ok_def process_ok_def)

section \<open>After the pool is closed\<close>

lemma closed_job:
  assumes "n \<le> ns_tick s" and "\<And>k rows. ne_others env k rows = rows"
  shows "runNotificationJob (closed_from n e env) deps s = Some (Inl e, s\<lparr>ns_tick := Suc (ns_tick s)\<rparr>)"
  using assms by (simp add: runNotificationJob_def reclaimStale_def seq_act_def bind_act_def note_query_def
      closed_from_def Let_def)

text \<open>A process that was idle at the signal is spent: ticks still start jobs, but none writes anything.\<close>

definition spent :: "note_row list \<Rightarrow> 'w notif_service \<Rightarrow> bool" where
  "spent rows v \<longleftrightarrow> nv_life v \<noteq> Up \<and> ns_table (np_state (nv_proc v)) = rows \<and>
     nv_closed v \<le> ns_tick (np_state (nv_proc v))"

lemma spent_turn:
  assumes alone: "\<And>k rows. ne_others env k rows = rows" and "spent rows v"
  shows "spent rows (notif_turn env deps e ev v)"
proof (cases ev)
  case (Goes_on x)
  from assms(2) closed_job [OF _ alone, of "nv_closed v"] Goes_on show ?thesis
    by (cases x; cases "nv_life v")
       (auto simp: spent_def notif_serve_def cron_tick_def start_job_def job_ends_def answer_request_def Let_def
         split: list.splits trigger.splits)
next
  case (Exits n)
  from assms(2) closed_job [OF _ alone, of "min n (nv_closed v)"] Exits show ?thesis
    by (auto simp: spent_def notif_exit_def cut_job_def Let_def)
qed (use assms(2) in \<open>simp add: spent_def\<close>)

lemma spent_session:
  assumes "\<And>k rows. ne_others env k rows = rows" and "spent rows v"
  shows "spent rows (fold (notif_turn env deps e) evs v)"
  using assms(2) by (induction evs arbitrary: v) (simp_all add: spent_turn [OF assms(1)])

lemma idle_shutdown_spent:
  "\<not> np_running (nv_proc v) \<Longrightarrow> spent (ns_table (np_state (nv_proc v))) (notif_shutdown n v)"
  by (simp add: spent_def notif_shutdown_def Let_def)

section \<open>From the start to the exit\<close>

text \<open>
  C38. From its start over any schedule, requests, failing jobs, a signal and the exit, at any
  statement of a job: a notification process never has two jobs under way, its flag is up exactly while
  one is, every request was answered exactly once, is the one waiting for its job, or was refused after
  the signal, the table goes through statements of the code only, and the sends reported to clients do
  not exceed the notifications that were sent. A process that was idle when the signal came writes
  nothing any more.
\<close>

theorem notifier_process_sound:
  assumes "others_run env" and "v = fold (notif_turn env deps e) evs (new_service s)"
  shows "length (np_jobs (nv_proc v)) \<le> 1 \<and> np_running (nv_proc v) = (np_jobs (nv_proc v) \<noteq> []) \<and>
    mset (concat (map asked_by evs)) =
      mset (map fst (np_replies (nv_proc v))) + mset (waiting (nv_proc v)) + mset (nv_refused v) \<and>
    (\<exists>tr. note_run (ns_table s) tr (ns_table (np_state (nv_proc v))) \<and>
       reported_sends (np_replies (nv_proc v)) \<le> length tr) \<and>
    (np_jobs (nv_proc v) = [] \<and> nv_life v = Up \<and> (\<forall>k rows. ne_others env k rows = rows) \<longrightarrow>
       ns_table (np_state (nv_proc (fold (notif_turn env deps e) (Signal n # evs') v))) = ns_table (np_state (nv_proc v)))"
proof -
  have ok: "service_ok (ns_table s) (mset (concat (map asked_by evs))) v"
    using service_session_ok [OF assms(1) new_service_ok, where evs = evs] unfolding assms(2) by simp
  have "ns_table (np_state (nv_proc (fold (notif_turn env deps e) (Signal n # evs') v))) = ns_table (np_state (nv_proc v))"
    if "np_jobs (nv_proc v) = []" "nv_life v = Up" "\<forall>k rows. ne_others env k rows = rows"
  proof -
    from ok that(1) have "\<not> np_running (nv_proc v)" by (auto simp: service_ok_def process_ok_def)
    with spent_session [OF _ idle_shutdown_spent [of v n], of env deps e evs'] that show ?thesis by (simp add: spent_def)
  qed
  with ok show ?thesis by (auto simp: service_ok_def process_ok_def)
qed

text \<open>A request during a job, a signal that lets the job read and take over but not send, a late request, the exit.\<close>

theorem notifier_process_sound_witness:
  "mset (map fst (np_replies (nv_proc (fold (notif_turn sample_env sample_notifier (Primitive ''Pool is closed.''))
     [Goes_on Cron_fires, Goes_on (Run_request 1), Signal 2, Goes_on (Run_request 2), Exits 2]
     (new_service sample_notes))))) = {#1#}"
proof -
  let ?evs = "[Goes_on Cron_fires, Goes_on (Run_request 1), Signal 2, Goes_on (Run_request 2), Exits 2]"
  define v where "v = fold (notif_turn sample_env sample_notifier (Primitive ''Pool is closed.'')) ?evs
    (new_service sample_notes)"
  have "np_jobs (nv_proc v) = [By_cron]" "nv_refused v = [2]"
    by (simp_all add: v_def notif_serve_def notif_shutdown_def notif_exit_def cron_tick_def post_run_def start_job_def
      answer_request_def new_service_def new_process_def Let_def)
  moreover have "mset (concat (map asked_by ?evs)) =
      mset (map fst (np_replies (nv_proc v))) + mset (waiting (nv_proc v)) + mset (nv_refused v)"
    using notifier_process_sound [OF sample_others v_def] by blast
  ultimately have "mset (map fst (np_replies (nv_proc v))) = {#1#}" by (simp add: waiting_def)
  then show ?thesis unfolding v_def .
qed

end
