(* ===== verification/SagaLife.thy ===== *)
theory SagaLife
  imports Api
begin

text \<open>
  The program implements the life cycle of theory Lifecycle: whatever fails and whatever the services
  answer, what the claim transaction, a saga run, a manual retry, an ingest and every request to the
  API do to the database is a path of the step relation \<open>life_step\<close>. The facts about that relation
  therefore hold of any interleaving of the program's operations.
\<close>

section \<open>Paths\<close>

lemma life_steps_one: "life_step a b \<Longrightarrow> life_steps a b"
  using life_steps.more [OF life_steps.none] .

lemma life_steps_trans: "life_steps b c \<Longrightarrow> life_steps a b \<Longrightarrow> life_steps a c"
  by (induction rule: life_steps.induct) (auto intro: life_steps.more)

lemma life_reach_steps: "life_steps a b \<Longrightarrow> life_reach a \<Longrightarrow> life_reach b"
  by (induction rule: life_steps.induct) (auto intro: life_reach.step)

definition on_path :: "saga_db \<Rightarrow> saga_db \<Rightarrow> 'w \<Rightarrow> bool" where
  "on_path db0 db w \<longleftrightarrow> life_steps db0 db"

lemma on_path_step: "on_path db0 db w \<Longrightarrow> life_step db db' \<Longrightarrow> on_path db0 db' w'"
  unfolding on_path_def by (rule life_steps.more)

lemmas path_statements =
  life_step.step_rows [OF markStepRunning_frame(1)] life_step.step_rows [OF markStepResult_frame(1)]
  life_step.step_rows [OF recordAttempt_frame(1)] life_step.step_rows [OF initSteps_frame(1)]

section \<open>The saga engine\<close>

lemma keeps_path: "keeps_step deps order frc (on_path db0) st"
  unfolding keeps_step_def keeps_call_def keeps_beat_def beat_def
  by (intro conjI allI impI; erule on_path_step)
     (rule path_statements life_step.renews life_step.step_rows refl)+

lemma on_path_query [preserves_intro]:
  "(\<And>t db. life_step db (snd (q t db))) \<Longrightarrow> preserves (db_pred (on_path db0)) (query deps q)"
  by (rule preserves_query, erule on_path_step)

lemma path_skipped: "preserves (db_pred (on_path db0)) (mark_skipped deps oid needed cs)"
  by (rule mark_skipped_keeps, erule on_path_step, rule path_statements)

lemma path_run: "preserves (db_pred (on_path db0)) (runConcurrently deps order steps frc)"
  by (rule runConcurrently_keeps) (rule keeps_path)

lemma path_reads:
  "preserves (db_pred (on_path db0)) (query deps (getSucceededForwardSteps oid))"
  "preserves (db_pred (on_path db0)) (query deps (getStepStatuses oid))"
  "preserves (db_pred (on_path db0)) (read_db deps f)"
  unfolding read_db_def by (rule preserves_read, simp)+

lemmas path_init = on_path_query [OF path_statements(4)]

lemma path_compensate: "preserves (db_pred (on_path db0)) (compensate deps order frc)"
  unfolding compensate_def Let_def
  by (rule preserves_bind [OF path_reads(1)], rule preserves_seq [OF path_init],
      rule preserves_seq [OF path_skipped]) (simp add: preserves_ret preserves_bind [OF path_run])

lemma path_finish:
  "st \<in> {PLACED, CANCELLED, NEEDS_ATTENTION} \<Longrightarrow> preserves (db_pred (on_path db0)) (finish_order deps order st)"
  unfolding finish_order_def by (intro preserves_bind preserves_ret on_path_query life_step.finishes)

text \<open>The terminal status of a rollback is one the relation lets the engine write.\<close>

lemma compensate_answer: "compensate deps order frc s = (Inr x, s') \<Longrightarrow> x \<in> {CANCELLED, NEEDS_ATTENTION}"
  by (auto simp: compensate_def bind_act_def seq_act_def ret_act_def Let_def
      split: prod.splits sum.splits if_splits)

lemma path_rollback:
  fixes deps :: "'a SagaDeps"
  shows "preserves (db_pred (on_path db0)) (bind_act (compensate deps order frc) (finish_order deps order))"
proof (rule preservesI)
  fix s :: "'a coord" assume s: "db_pred (on_path db0) s"
  obtain r s1 where c: "compensate deps order frc s = (r, s1)" by fastforce
  have s1: "db_pred (on_path db0) s1" by (rule preservesD [OF path_compensate s c])
  show "db_pred (on_path db0) (snd (bind_act (compensate deps order frc) (finish_order deps order) s))"
  proof (cases r)
    case (Inr x)
    with c have x: "x \<in> {PLACED, CANCELLED, NEEDS_ATTENTION}" using compensate_answer by blast
    obtain q s2 where f: "finish_order deps order x s1 = (q, s2)" by fastforce
    from preservesD [OF path_finish [OF x] s1 f] c Inr f show ?thesis by (simp add: bind_act_def)
  qed (use c s1 in \<open>simp add: bind_act_def\<close>)
qed

lemma path_saga: "preserves (db_pred (on_path db0)) (saga_body deps order)"
proof -
  have f: "preserves (db_pred (on_path db0)) (forward_phase deps order)"
    unfolding forward_phase_def
    by (rule preserves_seq [OF path_init], rule preserves_bind [OF path_reads(2)], rule path_run)
  have p: "preserves (db_pred (on_path db0)) (finish_order deps order PLACED)" by (rule path_finish) simp
  have c: "preserves (db_pred (on_path db0)) (query deps (setOrderStatus oid me COMPENSATING False err))" for oid me err
    by (rule on_path_query) (rule life_step.compensating)
  have r: "preserves (db_pred (on_path db0)) (bind_act (compensate deps (order\<lparr>claimed_status := COMPENSATING\<rparr>) False)
      (finish_order deps order))"
    using path_rollback [of db0 deps "order\<lparr>claimed_status := COMPENSATING\<rparr>"] by (simp add: finish_compensating)
  show ?thesis
    unfolding saga_body_def Let_def
    using path_rollback preserves_bind [OF c] r p by (auto intro!: preserves_bind [OF f] preserves_bind [OF c])
qed

lemma db_pred_start: "db_pred (on_path db0) s \<longleftrightarrow> life_steps db0 (cs_db s)"
  by (simp add: db_pred_def on_path_def)

lemma runSaga_path: "life_steps (cs_db s) (cs_db (snd (runSaga deps order s)))"
proof -
  obtain r s1 where b: "saga_body deps order (startHeartbeat (orderId order) s) = (r, s1)" by fastforce
  have "db_pred (on_path (cs_db s)) (startHeartbeat (orderId order) s)"
    by (simp add: db_pred_start life_steps.none)
  from preservesD [OF path_saga this b] b show ?thesis by (simp add: runSaga_def db_pred_start)
qed

section \<open>Requests and claims\<close>

lemma loads_path: "life_steps db (db\<lparr>saga_orders := fold add_order vs (saga_orders db)\<rparr>)"
proof (induction vs arbitrary: db)
  case Nil
  then show ?case by (simp add: life_steps.none)
next
  case (Cons v vs)
  let ?db = "db\<lparr>saga_orders := add_order v (saga_orders db)\<rparr>"
  have "life_steps db ?db" by (rule life_steps_one [OF life_step.loads])
  with Cons [of ?db] show ?case by (simp add: life_steps_trans)
qed

lemma ingest_path:
  "life_steps (cs_db s) (cs_db (snd (ingest_route ad path s)))"
proof (cases "ad_read_csv ad path")
  case (Inl e)
  then show ?thesis by (simp add: ingest_route_def life_steps.none)
next
  case (Inr csv)
  obtain r rows where i: "ingestOrders (flush_fates (ad_saga ad) (cs_tick s)) (ad_ingestBatchSize ad)
      (''ingest-'' @ show_int (cs_now s)) csv (saga_orders (cs_db s)) = (r, rows)" by fastforce
  from ingestOrders_spec [OF i] obtain us where "rows = fold add_order us (saga_orders (cs_db s))"
    by (auto simp: partly_loaded_def)
  with Inr i loads_path [of "cs_db s" us] show ?thesis by (simp add: ingest_route_def)
qed

lemma route_path:
  fixes ad :: "'w api_deps"
  assumes s: "db_pred (on_path db0) s"
  shows "db_pred (on_path db0) (snd (route ad req s))"
proof -
  have "preserves (db_pred (on_path db0)) (retry_route deps ttl oid)" for deps :: "'w SagaDeps" and ttl oid
    unfolding retry_route_def retryCompensation_def
    by (rule preserves_bind, rule on_path_query, rule life_step.retries)
       (simp add: preserves_ret preserves_bind [OF path_rollback] split: option.split)
  moreover have "preserves (db_pred (on_path db0)) (shipped_route deps oid)" for deps :: "'w SagaDeps" and oid
    unfolding shipped_route_def by (intro preserves_bind preserves_ret on_path_query life_step.ships)
  moreover have "preserves (db_pred (on_path db0)) (list_route deps st pg sz)" for deps :: "'w SagaDeps" and st pg sz
    unfolding list_route_def
    by (rule preserves_bind [OF path_reads(3)], rule preserves_bind [OF path_reads(3)])
       (simp add: preserves_ret preserves_throw split: sum.split)
  moreover have "db_pred (on_path db0) (snd (ingest_route ad csvfile s))" for csvfile
    using s life_steps_trans [OF ingest_path [of s ad csvfile]] by (simp add: db_pred_start)
  ultimately show ?thesis
    using s by (cases req) (auto simp: route_def Let_def preserves_def health_route_def stats_route_def
        detail_route_def preserves_bind [OF path_reads(3)] preserves_ret ret_act_def
        intro: preserves_bind [OF path_reads(3), unfolded preserves_def, rule_format])
qed

lemma createApi_path: "life_steps (cs_db s) (cs_db (snd (createApi ad req s)))"
  using route_path [of "cs_db s" s ad req]
  by (auto simp: createApi_def db_pred_start life_steps.none split: prod.splits sum.splits)

lemma withTransaction_from_keeps:
  assumes "\<And>n s. P s \<Longrightarrow> P (snd (fn n s))" and "\<And>n s. P s \<Longrightarrow> P (interfere env n s)" and "P s"
  shows "P (snd (withTransaction_from env m fn n s))"
  using assms
proof (induction env m fn n s rule: withTransaction_from.induct)
  case (1 env m fn n s)
  obtain r s1 where t: "tx_attempt env fn n s = (r, s1)" by fastforce
  have s1: "P s1" using tx_attempt_atomic [OF t] "1.prems"(1,3) by (metis snd_conv)
  show ?case
  proof (cases "getConnection env n")
    case None
    show ?thesis
    proof (cases r)
      case (Inl e)
      have "P (snd (withTransaction_from env m fn (Suc n) (interfere env n s1)))"
        if "isDeadlockError e \<and> n < m"
        by (rule "1.IH" [OF None t [symmetric] Inl that "1.prems"(1,2)]) (use "1.prems"(2) s1 in blast)+
      with Inl None t s1 show ?thesis by (simp add: withTransaction_from.simps [of env m fn n s])
    qed (use None t s1 in \<open>simp add: withTransaction_from.simps [of env m fn n s]\<close>)
  qed (use "1.prems"(3) in \<open>simp add: withTransaction_from.simps [of env m fn n s]\<close>)
qed

lemma claimBatch_path:
  assumes "\<And>k t. life_steps t (interfere env k t)"
  shows "life_steps db (snd (claimBatch env now locked me n ttl db))"
  unfolding claimBatch_def withTransaction_def
proof (rule withTransaction_from_keeps)
  show "life_steps db db" by (rule life_steps.none)
  show "life_steps db (snd (claim_batch_work (now n') (locked n') me n ttl db'))" if "life_steps db db'" for n' db'
    using life_steps.more [OF that life_step.claims] .
  show "life_steps db (interfere env k db')" if "life_steps db db'" for k db'
    using life_steps_trans [OF assms that] .
qed

text \<open>
  C21. The coordinator implements the life cycle: a saga run, a request to the API and a claim
  transaction, whatever statement fails and whatever the services answer, change the database only
  along the step relation of theory Lifecycle, as long as what others commit during the claim's
  retries does.
\<close>

theorem coordinator_implements_lifecycle:
  assumes "\<And>k t. life_steps t (interfere env k t)"
  shows "life_steps (cs_db s) (cs_db (snd (runSaga deps order s))) \<and>
    life_steps (cs_db s) (cs_db (snd (createApi ad req s))) \<and>
    life_steps db (snd (claimBatch env now locked me n ttl db))"
  using runSaga_path createApi_path claimBatch_path [OF assms] by (intro conjI)

theorem coordinator_implements_lifecycle_witness:
  "life_steps (cs_db (sample_state NEEDS_ATTENTION))
     (cs_db (snd (createApi (sample_api 200) (Post_retry ''A'') (sample_state NEEDS_ATTENTION)))) \<and>
   life_steps sample_db (snd (claimBatch quiet_tx (\<lambda>_. 50) (\<lambda>_ _. False) ''me'' 10 60 sample_db))"
proof -
  have "life_steps t (interfere quiet_tx k t)" for k t by (simp add: quiet_tx_def life_steps.none)
  from coordinator_implements_lifecycle [OF this] show ?thesis by (intro conjI; blast)
qed

end
