(* ===== verification/Worker.thy ===== *)
theory Worker
  imports SagaLife "HOL-Library.Multiset"
begin

text \<open>
  services/coordinator/src/worker.ts: the bounded pool that runs a claimed batch and the loop around
  it, as machines whose steps are the points where an awaited promise settles; between two of them
  JavaScript runs without interruption. Which order finishes next is nondeterministic.
\<close>

section \<open>mapWithConcurrency\<close>

text \<open>
  A slot is one of the long-lived workers with the index of the item it awaits, None once it has
  left its loop; \<open>pl_done\<close> lists the indices whose \<open>fn(item)\<close> has settled.
\<close>

record 'o pool =
  pl_items :: "'o list"
  pl_cursor :: nat
  pl_slots :: "nat option list"
  pl_done :: "nat list"

text \<open>The head of a worker's while loop: take the next item or leave.\<close>

definition pull :: "nat \<Rightarrow> 'o pool \<Rightarrow> 'o pool" where
  "pull w p =
    (if pl_cursor p < length (pl_items p)
     then p\<lparr>pl_slots := (pl_slots p)[w := Some (pl_cursor p)], pl_cursor := pl_cursor p + 1\<rparr>
     else p\<lparr>pl_slots := (pl_slots p)[w := None]\<rparr>)"

text \<open>\<open>Array.from({ length: Math.min(limit, items.length) }, ...)\<close>; each worker runs to its first await.\<close>

definition pool_size :: "int \<Rightarrow> 'o list \<Rightarrow> nat" where
  "pool_size limit items = nat (min limit (int (length items)))"

definition start_pool :: "int \<Rightarrow> 'o list \<Rightarrow> 'o pool" where
  "start_pool limit items = fold pull [0..<pool_size limit items]
     \<lparr>pl_items = items, pl_cursor = 0, pl_slots = replicate (pool_size limit items) None, pl_done = []\<rparr>"

definition finish_item :: "nat \<Rightarrow> nat \<Rightarrow> 'o pool \<Rightarrow> 'o pool" where
  "finish_item w i p = pull w (p\<lparr>pl_done := pl_done p @ [i]\<rparr>)"

inductive pool_step :: "'o pool \<Rightarrow> 'o pool \<Rightarrow> bool" where
  settle: "w < length (pl_slots p) \<Longrightarrow> pl_slots p ! w = Some i \<Longrightarrow> pool_step p (finish_item w i p)"

inductive pool_run :: "nat \<Rightarrow> 'o pool \<Rightarrow> 'o pool \<Rightarrow> bool" where
  start: "pool_run 0 p p"
| after: "pool_run n p q \<Longrightarrow> pool_step q r \<Longrightarrow> pool_run (Suc n) p r"

definition running :: "'o pool \<Rightarrow> nat list" where
  "running p = List.map_filter id (pl_slots p)"

text \<open>\<open>Promise.all(workers)\<close> has resolved.\<close>

definition pool_over :: "'o pool \<Rightarrow> bool" where
  "pool_over p \<longleftrightarrow> running p = []"

section \<open>The loop\<close>

text \<open>\<open>processOne\<close>: an order's error is logged, never thrown.\<close>

definition processOne :: "'w SagaDeps \<Rightarrow> ClaimedOrder \<Rightarrow> ('w coord, js_value, unit) act" where
  "processOne deps order =
     catch_act (bind_act (runSaga deps order) (\<lambda>_. ret_act ())) (\<lambda>err. ret_act ())"

datatype 'o phase = Claiming | Sleeping | Processing "'o pool" | Ended

datatype stop_state = Not_called | Waiting | Resolved

record 'o worker =
  wk_running :: bool
  wk_phase :: "'o phase"
  wk_stop :: stop_state

definition startWorker :: "'o worker" where
  "startWorker = \<lparr>wk_running = True, wk_phase = Claiming, wk_stop = Not_called\<rparr>"

text \<open>\<open>while (running)\<close>\<close>

definition loop_top :: "'o worker \<Rightarrow> 'o worker" where
  "loop_top w = w\<lparr>wk_phase := if wk_running w then Claiming else Ended\<rparr>"

definition claim_answered :: "int \<Rightarrow> js_value + 'o list \<Rightarrow> 'o worker \<Rightarrow> 'o worker" where
  "claim_answered limit r w =
    (case r of
       Inl err \<Rightarrow> w\<lparr>wk_phase := Sleeping\<rparr>
     | Inr batch \<Rightarrow>
         if batch = [] then w\<lparr>wk_phase := Sleeping\<rparr>
         else if pool_over (start_pool limit batch) then loop_top w
         else w\<lparr>wk_phase := Processing (start_pool limit batch)\<rparr>)"

definition order_settled :: "'o pool \<Rightarrow> 'o worker \<Rightarrow> 'o worker" where
  "order_settled p w =
    (if pool_over p then loop_top (w\<lparr>wk_stop := if wk_stop w = Waiting then Resolved else wk_stop w\<rparr>)
     else w\<lparr>wk_phase := Processing p\<rparr>)"

text \<open>\<open>stop()\<close> awaits the batch that is under way when it is called, if there is one.\<close>

definition stop :: "'o worker \<Rightarrow> 'o worker" where
  "stop w = w\<lparr>wk_running := False,
     wk_stop := (case wk_phase w of Processing _ \<Rightarrow> Waiting | _ \<Rightarrow> Resolved)\<rparr>"

inductive worker_step :: "int \<Rightarrow> 'o worker \<Rightarrow> 'o worker \<Rightarrow> bool" for limit where
  claimed: "wk_phase w = Claiming \<Longrightarrow> worker_step limit w (claim_answered limit r w)"
| woken: "wk_phase w = Sleeping \<Longrightarrow> worker_step limit w (loop_top w)"
| settled: "wk_phase w = Processing p \<Longrightarrow> pool_step p q \<Longrightarrow> worker_step limit w (order_settled q w)"
| stopped: "wk_stop w = Not_called \<Longrightarrow> worker_step limit w (stop w)"

inductive worker_reach :: "int \<Rightarrow> 'o worker \<Rightarrow> bool" for limit where
  start: "worker_reach limit startWorker"
| step: "worker_reach limit w \<Longrightarrow> worker_step limit w w' \<Longrightarrow> worker_reach limit w'"

section \<open>The pool\<close>

lemma running_update:
  "w < length (pl_slots p) \<Longrightarrow> mset (List.map_filter id ((pl_slots p)[w := x])) +
     mset (List.map_filter id [pl_slots p ! w]) = mset (running p) + mset (List.map_filter id [x])"
  unfolding running_def
proof (induction "pl_slots p" arbitrary: p w)
  case (Cons y ys)
  obtain q where q: "pl_slots (q :: 'a pool) = ys" by (metis pool.select_convs(3))
  show ?case
  proof (cases w)
    case 0
    with Cons(2) [symmetric] show ?thesis
      by (simp add: map_filter_simps split: option.splits)
  next
    case (Suc v)
    with Cons(1) [of q v] Cons(2) [symmetric] Cons(3) q show ?thesis
      by (simp add: map_filter_simps split: option.splits)
  qed
qed simp

definition pool_inv :: "nat \<Rightarrow> 'o list \<Rightarrow> 'o pool \<Rightarrow> bool" where
  "pool_inv n items p \<longleftrightarrow> pl_items p = items \<and> length (pl_slots p) = n \<and> pl_cursor p \<le> length items \<and>
     mset (running p) + mset (pl_done p) = mset [0..<pl_cursor p] \<and>
     (pl_cursor p < length items \<longrightarrow> None \<notin> set (pl_slots p))"

lemma running_length: "length (running p) \<le> length (pl_slots p)"
  by (simp add: running_def map_filter_def)

lemma running_full: "None \<notin> set xs \<Longrightarrow> length (List.map_filter id xs) = length xs"
proof (induction xs)
  case (Cons x xs)
  then show ?case by (cases x) (auto simp: map_filter_simps)
qed (simp add: map_filter_simps)

lemma running_in: "w < length (pl_slots p) \<Longrightarrow> pl_slots p ! w = Some i \<Longrightarrow> i \<in> set (running p)"
  by (force simp: running_def map_filter_def in_set_conv_nth)

lemma running_ex: "running p \<noteq> [] \<Longrightarrow> \<exists>w i. w < length (pl_slots p) \<and> pl_slots p ! w = Some i"
  by (auto simp: running_def map_filter_def filter_empty_conv in_set_conv_nth) blast

lemma pool_size_le: "pool_size limit items \<le> length items" "int (pool_size limit items) \<le> max 0 limit"
  by (auto simp: pool_size_def)

lemma start_pool_eq:
  "start_pool limit items = \<lparr>pl_items = items, pl_cursor = pool_size limit items,
     pl_slots = map Some [0..<pool_size limit items], pl_done = []\<rparr>"
proof -
  let ?n = "pool_size limit items"
  have "fold pull [0..<k] \<lparr>pl_items = items, pl_cursor = 0, pl_slots = replicate ?n None, pl_done = []\<rparr> =
      \<lparr>pl_items = items, pl_cursor = k, pl_slots = map Some [0..<k] @ replicate (?n - k) None, pl_done = []\<rparr>"
    if "k \<le> ?n" for k
    using that
  proof (induction k)
    case (Suc k)
    then have "k < length items" using pool_size_le(1) [of limit items] by linarith
    moreover have rep: "replicate (?n - k) None = None # replicate (?n - Suc k) None"
      using Suc.prems by (metis Suc_diff_Suc Suc_le_lessD replicate_Suc)
    ultimately show ?case
      using Suc by (simp add: pull_def list_update_append rep)
  qed simp
  from this [of ?n] show ?thesis by (simp add: start_pool_def)
qed

lemma start_running: "running (start_pool limit items) = [0..<pool_size limit items]"
  by (simp add: running_def start_pool_eq map_filter_def comp_def)

lemma start_pool_inv: "pool_inv (pool_size limit items) items (start_pool limit items)"
  using pool_size_le(1) [of limit items] start_running [of limit items]
  by (simp add: pool_inv_def start_pool_eq image_iff)

lemma finish_item_inv:
  assumes inv: "pool_inv n items p" and w: "w < length (pl_slots p)" "pl_slots p ! w = Some i"
  shows "pool_inv n items (finish_item w i p)"
    and "length (running (finish_item w i p)) + (length items - pl_cursor (finish_item w i p)) + 1 =
      length (running p) + (length items - pl_cursor p)"
    and "pl_done (finish_item w i p) = pl_done p @ [i]"
proof -
  let ?x = "if pl_cursor p < length items then Some (pl_cursor p) else None"
  let ?c = "if pl_cursor p < length items then Suc (pl_cursor p) else pl_cursor p"
  have f: "finish_item w i p = \<lparr>pl_items = items, pl_cursor = ?c, pl_slots = (pl_slots p)[w := ?x],
      pl_done = pl_done p @ [i]\<rparr>"
    using inv by (cases p) (simp add: finish_item_def pull_def pool_inv_def)
  have run: "mset (running (finish_item w i p)) + {#i#} =
      mset (running p) + (if pl_cursor p < length items then {#pl_cursor p#} else {#})"
    using running_update [OF w(1), of ?x] w(2) by (simp add: f running_def map_filter_simps)
  have le: "pl_cursor p \<le> length items" using inv by (simp add: pool_inv_def)
  have "None \<notin> set ((pl_slots p)[w := ?x])" if "?c < length items"
    using that inv set_update_subset_insert [of "pl_slots p" w ?x]
    by (auto simp: pool_inv_def split: if_splits)
  moreover have "mset (running (finish_item w i p)) + mset (pl_done p @ [i]) = mset [0..<?c]"
  proof -
    let ?new = "if pl_cursor p < length items then {#pl_cursor p#} else {#}"
    have "mset (running (finish_item w i p)) + mset (pl_done p @ [i]) =
        (mset (running (finish_item w i p)) + {#i#}) + mset (pl_done p)" by simp
    also have "\<dots> = (mset (running p) + mset (pl_done p)) + ?new" unfolding run by (simp add: ac_simps)
    also have "\<dots> = mset [0..<pl_cursor p] + ?new" using inv by (simp only: pool_inv_def)
    also have "\<dots> = mset [0..<?c]" by (simp del: mset_upt)
    finally show ?thesis .
  qed
  ultimately show "pool_inv n items (finish_item w i p)"
    using inv le unfolding pool_inv_def by (simp add: f)
  have "size (mset (running (finish_item w i p)) + {#i#}) =
      size (mset (running p) + (if pl_cursor p < length items then {#pl_cursor p#} else {#}))"
    by (simp only: run)
  then show "length (running (finish_item w i p)) + (length items - pl_cursor (finish_item w i p)) + 1 =
      length (running p) + (length items - pl_cursor p)"
    using le by (auto simp: f split: if_splits)
  show "pl_done (finish_item w i p) = pl_done p @ [i]" by (simp add: f)
qed

lemma pool_run_inv:
  assumes "pool_run k (start_pool limit items) p"
  shows "pool_inv (pool_size limit items) items p \<and> length (pl_done p) = k \<and>
    length (running p) + (length items - pl_cursor p) + k = length items"
  using assms
proof (induction k "start_pool limit items" p rule: pool_run.induct)
  case start
  show ?case
    using start_pool_inv [of limit items] start_running [of limit items] pool_size_le(1) [of limit items]
    by (simp add: start_pool_eq)
next
  case (after k q r)
  from after(3) obtain w i where "w < length (pl_slots q)" "pl_slots q ! w = Some i" "r = finish_item w i q"
    by (auto elim: pool_step.cases)
  with after(2) finish_item_inv [of "pool_size limit items" items q w i] show ?case by auto
qed



section \<open>The loop and its end\<close>

lemma processOne_quiet: "fst (processOne deps order s) = Inr ()"
  by (simp add: processOne_def catch_act_def bind_act_def ret_act_def split: prod.splits sum.splits)

lemma processOne_path: "life_steps (cs_db s) (cs_db (snd (processOne deps order s)))"
  using runSaga_path [of s deps order]
  by (cases "runSaga deps order s"; cases "fst (runSaga deps order s)")
     (simp_all add: processOne_def catch_act_def bind_act_def ret_act_def)

inductive worker_steps :: "int \<Rightarrow> 'o worker \<Rightarrow> 'o worker \<Rightarrow> bool" for limit where
  refl: "worker_steps limit w w"
| trans: "worker_steps limit a b \<Longrightarrow> worker_step limit b c \<Longrightarrow> worker_steps limit a c"

lemma worker_reach_steps: "worker_steps limit a b \<Longrightarrow> worker_reach limit a \<Longrightarrow> worker_reach limit b"
  by (induction rule: worker_steps.induct) (auto intro: worker_reach.step)

definition worker_inv :: "int \<Rightarrow> 'o worker \<Rightarrow> bool" where
  "worker_inv limit w \<longleftrightarrow> (wk_running w \<longleftrightarrow> wk_stop w = Not_called) \<and>
     (case wk_phase w of
        Processing p \<Rightarrow> \<not> pool_over p \<and> (\<exists>items k. pool_run k (start_pool limit items) p)
      | Ended \<Rightarrow> wk_stop w = Resolved
      | _ \<Rightarrow> wk_stop w \<noteq> Waiting)"

lemma worker_step_inv:
  assumes "worker_step limit a b" and "worker_inv limit a"
  shows "worker_inv limit b"
  using assms(1)
proof (cases rule: worker_step.cases)
  case (claimed r)
  have "pool_run 0 (start_pool limit batch) (start_pool limit batch)" for batch :: "'a list"
    by (rule pool_run.start)
  with claimed assms(2) show ?thesis
    by (cases "wk_stop a") (auto simp: worker_inv_def claim_answered_def loop_top_def split: sum.splits if_splits)
next
  case woken
  with assms(2) show ?thesis by (cases "wk_stop a") (auto simp: worker_inv_def loop_top_def split: if_splits)
next
  case (settled p q)
  with assms(2) obtain items k where "pool_run k (start_pool limit items) p" by (auto simp: worker_inv_def)
  then have "pool_run (Suc k) (start_pool limit items) q" using settled(3) by (rule pool_run.after)
  with settled assms(2) show ?thesis
    by (cases "wk_stop a") (auto simp: worker_inv_def order_settled_def loop_top_def split: if_splits)
next
  case stopped
  with assms(2) show ?thesis by (auto simp: worker_inv_def stop_def split: phase.splits)
qed

lemma worker_reach_inv: "worker_reach limit w \<Longrightarrow> worker_inv limit w"
proof (induction rule: worker_reach.induct)
  case start
  show ?case by (simp add: worker_inv_def startWorker_def)
qed (rule worker_step_inv)

text \<open>
  A graceful stop: when stop is called while a batch is being processed, it keeps waiting as
  long as that batch is under way, and it resolves with the loop ended: nothing new is claimed.
\<close>

theorem stop_waits_for_batch:
  assumes "worker_reach limit w" and "wk_phase w = Processing p" and "wk_stop w = Not_called"
    and "worker_steps limit (stop w) w'"
  shows "(wk_stop w' = Waiting \<and> (\<exists>q k. wk_phase w' = Processing q \<and> pool_run k p q \<and> \<not> pool_over q)) \<or>
    (wk_stop w' = Resolved \<and> wk_phase w' = Ended)"
  using assms(4)
proof (induction "stop w" w' rule: worker_steps.induct)
  case refl
  have "\<not> pool_over p" using worker_reach_inv [OF assms(1)] assms(2) by (simp add: worker_inv_def)
  with assms(2) pool_run.start [of p] show ?case by (auto simp: stop_def)
next
  case (trans b c)
  have "worker_reach limit b"
    by (rule worker_reach_steps [OF trans(1)], rule worker_reach.step [OF assms(1)], rule worker_step.stopped, fact)
  then have inv: "worker_inv limit b" by (rule worker_reach_inv)
  from trans(3) show ?case
  proof (cases rule: worker_step.cases)
    case (settled q r)
    with trans(2) obtain k where k: "pool_run k p q" "wk_stop b = Waiting" by auto
    from pool_run.after [OF k(1) settled(3)] settled k(2) inv show ?thesis
      by (cases "pool_over r") (auto simp: order_settled_def loop_top_def worker_inv_def)
  qed (use trans(2) in auto)
qed

lemma claim_some:
  "1 \<le> limit \<Longrightarrow> claim_answered limit (Inr [x]) w = w\<lparr>wk_phase := Processing (start_pool limit [x])\<rparr>"
  by (simp add: claim_answered_def pool_over_def start_running pool_size_def)

theorem stop_waits_for_batch_witness:
  "\<exists>(w :: string worker) w' p. worker_reach 2 w \<and> wk_phase w = Processing p \<and>
     worker_steps 2 (stop w) w' \<and> wk_stop w' = Resolved \<and> wk_phase w' = Ended"
proof -
  let ?w = "claim_answered 2 (Inr [''A'']) startWorker"
  let ?p = "start_pool 2 [''A'']"
  have w: "wk_phase ?w = Processing ?p" "wk_stop ?w = Not_called"
    by (simp_all add: claim_some startWorker_def)
  have reach: "worker_reach 2 ?w"
    by (rule worker_reach.step [OF worker_reach.start worker_step.claimed]) (simp add: startWorker_def)
  have n: "pool_size 2 [''A''] = 1" by (simp add: pool_size_def)
  have slot: "0 < length (pl_slots ?p)" "pl_slots ?p ! 0 = Some 0" by (simp_all add: start_pool_eq n)
  have over: "pool_over (finish_item 0 0 ?p)"
    by (simp add: start_pool_eq n finish_item_def pull_def pool_over_def running_def map_filter_simps)
  let ?e = "order_settled (finish_item 0 0 ?p) (stop ?w)"
  have "worker_step 2 (stop ?w) ?e"
    by (rule worker_step.settled [OF _ pool_step.settle [OF slot]]) (simp add: stop_def w)
  then have run: "worker_steps 2 (stop ?w) ?e" by (rule worker_steps.trans [OF worker_steps.refl])
  have "wk_stop ?e \<noteq> Waiting"
    using w over by (simp add: order_settled_def loop_top_def stop_def)
  with stop_waits_for_batch [OF reach w run] have "wk_stop ?e = Resolved \<and> wk_phase ?e = Ended" by auto
  with reach w run show ?thesis by blast
qed

text \<open>
  But when stop is called while a claim is under way, it resolves at once, and the claimed batch
  is processed after that: a reachable state in which stop has resolved and orders are in flight.
\<close>

theorem stop_resolves_before_claimed_batch:
  "\<exists>(w :: string worker) p. worker_reach 25 w \<and> wk_stop w = Resolved \<and> wk_phase w = Processing p \<and> running p = [0]"
proof -
  let ?s = "stop (startWorker :: string worker)"
  let ?w = "claim_answered 25 (Inr [''A'']) ?s"
  have "worker_reach 25 ?s"
    by (rule worker_reach.step [OF worker_reach.start worker_step.stopped]) (simp add: startWorker_def)
  then have "worker_reach 25 ?w"
    by (rule worker_reach.step [OF _ worker_step.claimed]) (simp add: stop_def startWorker_def)
  moreover have "wk_stop ?w = Resolved" "wk_phase ?w = Processing (start_pool 25 [''A''])"
    by (simp_all add: claim_some stop_def startWorker_def)
  moreover have "running (start_pool 25 [''A'']) = [0]" by (simp add: start_running pool_size_def upt_rec)
  ultimately show ?thesis by blast
qed

text \<open>With a concurrency of zero a claimed batch is dropped: its orders wait for their lease to end.\<close>

lemma zero_concurrency_drops_batch: "claim_answered 0 (Inr (x # xs)) w = loop_top w"
  by (simp add: claim_answered_def pool_over_def start_running pool_size_def)

end
