(* ===== verification/CoordProcess.thy ===== *)
theory CoordProcess
  imports Worker
begin

text \<open>
  services/coordinator/src/index.ts: the coordinator process, its claim loop, its API server and its
  connection pool, from the start to the exit after a signal. The events are the points where the
  event loop goes on: a step of the worker, a request accepted or answered, the signal, and the two
  awaits of \<open>shutdown\<close>. A second signal during a shutdown is left out.
\<close>

section \<open>The process\<close>

datatype life = Serving | Stopping | Closing | Gone

record 'o coord_process =
  cp_worker :: "'o worker"
  cp_life :: life
  cp_listening :: bool
  cp_pool_open :: bool
  cp_requests :: "api_request list"

definition start_coordinator :: "'o coord_process" where
  "start_coordinator = \<lparr>cp_worker = startWorker, cp_life = Serving, cp_listening = True, cp_pool_open = True,
     cp_requests = []\<rparr>"

text \<open>\<open>shutdown\<close> up to its first await, from there to the second, and after that.\<close>

definition shutdown :: "'o coord_process \<Rightarrow> 'o coord_process" where
  "shutdown p = p\<lparr>cp_listening := False, cp_worker := stop (cp_worker p), cp_life := Stopping\<rparr>"

definition end_pool :: "'o coord_process \<Rightarrow> 'o coord_process" where
  "end_pool p = p\<lparr>cp_pool_open := False, cp_life := Closing\<rparr>"

definition exit_process :: "'o coord_process \<Rightarrow> 'o coord_process" where
  "exit_process p = p\<lparr>cp_life := Gone\<rparr>"

inductive coord_step :: "int \<Rightarrow> 'o coord_process \<Rightarrow> 'o coord_process \<Rightarrow> bool" for limit where
  works: "cp_life p \<noteq> Gone \<Longrightarrow> worker_step limit (cp_worker p) w \<Longrightarrow> wk_running w = wk_running (cp_worker p) \<Longrightarrow>
    coord_step limit p (p\<lparr>cp_worker := w\<rparr>)"
| accepts: "cp_life p \<noteq> Gone \<Longrightarrow> cp_listening p \<Longrightarrow> coord_step limit p (p\<lparr>cp_requests := cp_requests p @ [q]\<rparr>)"
| answers: "cp_life p \<noteq> Gone \<Longrightarrow> cp_requests p = qs @ q # qs' \<Longrightarrow> coord_step limit p (p\<lparr>cp_requests := qs @ qs'\<rparr>)"
| signal: "cp_life p = Serving \<Longrightarrow> coord_step limit p (shutdown p)"
| stopped: "cp_life p = Stopping \<Longrightarrow> wk_stop (cp_worker p) = Resolved \<Longrightarrow> coord_step limit p (end_pool p)"
| ended: "cp_life p = Closing \<Longrightarrow> coord_step limit p (exit_process p)"

inductive coord_steps :: "int \<Rightarrow> 'o coord_process \<Rightarrow> 'o coord_process \<Rightarrow> bool" for limit where
  refl: "coord_steps limit p p"
| step: "coord_steps limit p q \<Longrightarrow> coord_step limit q r \<Longrightarrow> coord_steps limit p r"

section \<open>Shutting down\<close>

definition coord_inv :: "int \<Rightarrow> 'o coord_process \<Rightarrow> bool" where
  "coord_inv limit p \<longleftrightarrow> worker_inv limit (cp_worker p) \<and>
     (cp_life p = Serving \<longleftrightarrow> wk_stop (cp_worker p) = Not_called) \<and>
     (cp_life p \<in> {Closing, Gone} \<longrightarrow> wk_stop (cp_worker p) = Resolved) \<and>
     (cp_pool_open p \<longleftrightarrow> cp_life p \<in> {Serving, Stopping}) \<and> (cp_listening p \<longleftrightarrow> cp_life p = Serving)"

lemma worker_keeps_resolved:
  "worker_step limit v w \<Longrightarrow> wk_running w = wk_running v \<Longrightarrow>
    (wk_stop v = Not_called \<longleftrightarrow> wk_stop w = Not_called) \<and> (wk_stop v = Resolved \<longrightarrow> wk_stop w = Resolved)"
  if "worker_inv limit v"
  using that
  by (auto elim!: worker_step.cases simp: claim_answered_def loop_top_def order_settled_def stop_def worker_inv_def
    split: sum.splits if_splits)

lemma coord_step_inv: "coord_step limit p q \<Longrightarrow> coord_inv limit p \<Longrightarrow> coord_inv limit q"
proof (induction rule: coord_step.induct)
  case (works p w)
  from works.prems have v: "worker_inv limit (cp_worker p)" by (simp add: coord_inv_def)
  from worker_keeps_resolved [OF v works.hyps(2,3)] worker_step_inv [OF works.hyps(2) v] works.prems
  show ?case by (auto simp: coord_inv_def)
next
  case (signal p)
  then have v: "worker_inv limit (cp_worker p)" "wk_stop (cp_worker p) = Not_called" by (simp_all add: coord_inv_def)
  have "worker_inv limit (stop (cp_worker p))"
    by (rule worker_step_inv [OF worker_step.stopped [OF v(2)] v(1)])
  with signal show ?case by (auto simp: coord_inv_def shutdown_def stop_def split: phase.splits)
qed (auto simp: coord_inv_def end_pool_def exit_process_def)

lemma coord_steps_inv: "coord_steps limit p q \<Longrightarrow> coord_inv limit p \<Longrightarrow> coord_inv limit q"
  by (induction rule: coord_steps.induct) (auto intro: coord_step_inv)

lemma start_inv: "coord_inv limit start_coordinator"
  by (simp add: coord_inv_def start_coordinator_def worker_inv_def startWorker_def)

text \<open>The worker of a process that is shutting down, when no claim was under way.\<close>

definition winding_down :: "'o phase \<Rightarrow> 'o worker \<Rightarrow> bool" where
  "winding_down ph w \<longleftrightarrow> \<not> wk_running w \<and>
     (case ph of
        Processing b \<Rightarrow> (\<exists>k q. pool_run k b q \<and>
          (wk_phase w = Processing q \<and> \<not> pool_over q \<and> wk_stop w = Waiting \<or>
           wk_phase w = Ended \<and> pool_over q \<and> wk_stop w = Resolved))
      | _ \<Rightarrow> wk_phase w \<in> {Sleeping, Ended} \<and> wk_stop w = Resolved)"

lemma winding_step:
  assumes "winding_down ph v" and "worker_step limit v w" and "wk_running w = wk_running v"
  shows "winding_down ph w"
  using assms(2)
proof (cases rule: worker_step.cases)
  case (claimed r)
  with assms(1) show ?thesis by (auto simp: winding_down_def split: phase.splits)
next
  case woken
  with assms(1) show ?thesis by (auto simp: winding_down_def loop_top_def split: phase.splits)
next
  case (settled p q)
  with assms(1) obtain b k where b: "ph = Processing b" "pool_run k b p" "wk_stop v = Waiting" "\<not> wk_running v"
    by (auto simp: winding_down_def split: phase.splits)
  have "pool_run (Suc k) b q" by (rule pool_run.after [OF b(2) settled(3)])
  with b settled(1) show ?thesis
    by (auto simp: winding_down_def order_settled_def loop_top_def)
next
  case stopped
  with assms(1) show ?thesis by (auto simp: winding_down_def split: phase.splits)
qed

lemma winding_steps:
  assumes "coord_steps limit (shutdown p0) p" and "coord_inv limit (shutdown p0)"
    and "winding_down ph (stop (cp_worker p0))"
  shows "winding_down ph (cp_worker p) \<and> coord_inv limit p"
  using assms(1)
proof (induction "shutdown p0" p rule: coord_steps.induct)
  case refl
  with assms(2,3) show ?case by (simp add: shutdown_def)
next
  case (step q r)
  from step(3) have "winding_down ph (cp_worker r)"
  proof (cases rule: coord_step.cases)
    case (works w)
    with step(2) winding_step [of ph "cp_worker q" limit w] show ?thesis by simp
  next
    case signal
    with step(2) have "wk_stop (cp_worker q) = Not_called" by (auto simp: coord_inv_def)
    with step(2) show ?thesis by (auto simp: winding_down_def split: phase.splits)
  qed (use step(2) in \<open>simp_all add: end_pool_def exit_process_def\<close>)
  with coord_step_inv [OF step(3)] step(2) show ?case by blast
qed

text \<open>
  C31. A graceful shutdown. When the signal comes while no claim is under way, then in every state
  after it no request is accepted and nothing is claimed; the batch that was being processed, if
  there was one, goes on to its end with the connection pool open; and the pool is closed, and the
  process gone, only when every order of it has settled.
\<close>

theorem graceful_shutdown:
  assumes "coord_steps limit start_coordinator p0" and "cp_life p0 = Serving"
    and "wk_phase (cp_worker p0) \<noteq> Claiming" and "coord_steps limit (shutdown p0) p"
  shows "\<not> cp_listening p \<and> wk_phase (cp_worker p) \<noteq> Claiming \<and>
    (case wk_phase (cp_worker p0) of
       Processing b \<Rightarrow> (\<exists>k q. pool_run k b q \<and>
         (wk_phase (cp_worker p) = Processing q \<and> \<not> pool_over q \<and> cp_pool_open p \<or>
          wk_phase (cp_worker p) = Ended \<and> pool_over q))
     | _ \<Rightarrow> wk_phase (cp_worker p) \<in> {Sleeping, Ended}) \<and>
    (\<not> cp_pool_open p \<longrightarrow> (\<forall>q. wk_phase (cp_worker p) \<noteq> Processing q))"
proof -
  let ?ph = "wk_phase (cp_worker p0)"
  have inv0: "coord_inv limit p0" by (rule coord_steps_inv [OF assms(1) start_inv])
  then have inv: "coord_inv limit (shutdown p0)"
    using coord_step_inv [OF coord_step.signal [OF assms(2)]] by blast
  have v: "wk_stop (cp_worker p0) = Not_called" "worker_inv limit (cp_worker p0)"
    using inv0 assms(2) by (simp_all add: coord_inv_def)
  have "winding_down ?ph (stop (cp_worker p0))"
    using assms(3) v pool_run.start by (cases ?ph) (auto simp: winding_down_def stop_def worker_inv_def)
  from winding_steps [OF assms(4) inv this] have wd: "winding_down ?ph (cp_worker p)" and inv: "coord_inv limit p" by auto
  have "\<not> cp_listening p \<and> (wk_stop (cp_worker p) = Waiting \<longrightarrow> cp_pool_open p)"
    using inv wd by (cases "cp_life p") (auto simp: coord_inv_def winding_down_def worker_inv_def split: phase.splits)
  with wd assms(3) show ?thesis by (cases ?ph) (auto simp: winding_down_def)
qed

theorem graceful_shutdown_witness:
  "\<exists>p0 b (p :: string coord_process). coord_steps 2 start_coordinator p0 \<and> wk_phase (cp_worker p0) = Processing b \<and>
     coord_steps 2 (shutdown p0) p \<and> wk_phase (cp_worker p) = Processing b \<and> cp_pool_open p"
proof -
  let ?w = "claim_answered 2 (Inr [''A'']) (cp_worker (start_coordinator :: string coord_process))"
  let ?p0 = "start_coordinator\<lparr>cp_worker := ?w\<rparr> :: string coord_process"
  let ?b = "start_pool 2 [''A'']"
  have w: "?w = startWorker\<lparr>wk_phase := Processing ?b\<rparr>" by (simp add: claim_some start_coordinator_def)
  have "coord_step 2 start_coordinator ?p0"
    by (rule coord_step.works [OF _ worker_step.claimed])
       (simp_all add: start_coordinator_def startWorker_def claim_answered_def loop_top_def)
  then have run: "coord_steps 2 start_coordinator ?p0" by (rule coord_steps.step [OF coord_steps.refl])
  have "cp_life ?p0 = Serving" by (simp add: start_coordinator_def)
  moreover have "wk_phase (cp_worker ?p0) = Processing ?b" by (simp add: w)
  moreover have "cp_worker (shutdown ?p0) = stop ?w" by (simp add: shutdown_def)
  moreover have "wk_phase (stop ?w) = Processing ?b" by (simp add: stop_def w)
  ultimately show ?thesis
    using graceful_shutdown [OF run _ _ coord_steps.refl] run coord_steps.refl [of 2 "shutdown ?p0"]
    by (intro exI [of _ ?p0] exI [of _ ?b] exI [of _ "shutdown ?p0"]) auto
qed

text \<open>
  A signal during a claim ends otherwise: \<open>stop\<close> resolves at once, and a reachable state has the pool
  closed with an order of the batch in flight, and another the process gone in the middle of it.
\<close>

theorem signal_during_claim:
  "\<exists>(p :: string coord_process) b. coord_steps 25 start_coordinator p \<and> cp_life p = Closing \<and> \<not> cp_pool_open p \<and>
     wk_phase (cp_worker p) = Processing b \<and> running b = [0] \<and> coord_step 25 p (exit_process p)"
proof -
  let ?s = "shutdown start_coordinator :: string coord_process"
  let ?e = "end_pool ?s"
  let ?w = "claim_answered 25 (Inr [''A'']) (cp_worker ?e)"
  let ?p = "?e\<lparr>cp_worker := ?w\<rparr>"
  let ?b = "start_pool 25 [''A'']"
  have s: "cp_worker ?s = stop startWorker" "cp_worker ?e = stop startWorker" "cp_life ?e = Closing"
    by (simp_all add: shutdown_def end_pool_def start_coordinator_def)
  have "coord_step 25 start_coordinator ?s" by (rule coord_step.signal) (simp add: start_coordinator_def)
  moreover have "coord_step 25 ?s ?e"
    by (rule coord_step.stopped) (simp_all add: shutdown_def start_coordinator_def stop_def startWorker_def)
  moreover have "coord_step 25 ?e ?p"
    by (rule coord_step.works [OF _ worker_step.claimed]) (simp_all add: s stop_def startWorker_def claim_some)
  ultimately have "coord_steps 25 start_coordinator ?p" by (meson coord_steps.intros)
  moreover have "cp_life ?p = Closing" "\<not> cp_pool_open ?p" by (simp_all add: s) (simp add: end_pool_def)
  moreover have "wk_phase (cp_worker ?p) = Processing ?b" by (simp add: claim_some)
  moreover have "running ?b = [0]" by (simp add: start_running pool_size_def upt_rec)
  moreover have "coord_step 25 ?p (exit_process ?p)" by (rule coord_step.ended) (simp add: s)
  ultimately show ?thesis by blast
qed

text \<open>Nor does a shutdown wait for the API: a manual retry under way is cut off.\<close>

theorem shutdown_cuts_off_retry:
  "\<exists>p :: string coord_process. coord_steps 25 start_coordinator p \<and> cp_life p = Gone \<and> cp_requests p = [Post_retry ''A'']"
proof -
  let ?a = "start_coordinator\<lparr>cp_requests := [Post_retry ''A'']\<rparr> :: string coord_process"
  have "coord_step 25 start_coordinator ?a"
    using coord_step.accepts [of "start_coordinator :: string coord_process" 25 "Post_retry ''A''"]
    by (simp add: start_coordinator_def)
  moreover have "coord_step 25 ?a (shutdown ?a)" by (rule coord_step.signal) (simp add: start_coordinator_def)
  moreover have "coord_step 25 (shutdown ?a) (end_pool (shutdown ?a))"
    by (rule coord_step.stopped) (simp_all add: shutdown_def start_coordinator_def stop_def startWorker_def)
  moreover have "coord_step 25 (end_pool (shutdown ?a)) (exit_process (end_pool (shutdown ?a)))"
    by (rule coord_step.ended) (simp add: end_pool_def)
  ultimately have "coord_steps 25 start_coordinator (exit_process (end_pool (shutdown ?a)))"
    by (meson coord_steps.intros)
  moreover have "cp_requests (exit_process (end_pool (shutdown ?a))) = [Post_retry ''A'']"
    by (simp add: exit_process_def end_pool_def shutdown_def)
  ultimately show ?thesis
    by (intro exI [of _ "exit_process (end_pool (shutdown ?a))"]) (simp add: exit_process_def)
qed

end
