(* ===== verification/Branches.thy ===== *)
theory Branches
  imports SagaFrame
begin

text \<open>
  The parallel branches of \<open>runConcurrently\<close> (services/coordinator/src/saga.ts), statement by
  statement. A branch is executeStep cut at its awaits: the constructors say what it is waiting for.
  What an await ends in, and the times the statements write, come with each event, so the events
  of several branches and of the heartbeat may be interleaved in any way. The theorem says
  that every interleaving is, up to those times and the order of audit rows of different steps, one
  of the runs theory Saga has for \<open>runConcurrently\<close>, where the branches take effect one after another.
\<close>

section \<open>A branch\<close>

text \<open>\<open>Marking\<close> waits for markStepRunning, \<open>Calling n\<close> for the n-th fetch, the two audits for recordAttempt.\<close>

datatype branch = Marking | Calling nat | Audit_ok nat | Audit_bad nat js_value | Backing_off nat js_value
  | Storing_ok nat | Storing_failed nat js_value | Settled "js_value + StepOutcome"

text \<open>How the await of an event ends (as a statement or as a fetch), and the dates it writes.\<close>

record moment =
  mo_fate :: stmt_fate
  mo_answer :: "js_value + fetch_response"
  mo_now :: int
  mo_startedAt :: int
  mo_finishedAt :: int

definition call_result :: "'w SagaDeps \<Rightarrow> step \<Rightarrow> js_value + fetch_response \<Rightarrow> js_value + StepResponseBody" where
  "call_result deps st answer =
    (case answer of
       Inl err \<Rightarrow> if is_abort err then Inl (StepTimeoutError (int (step_timeoutMs deps))) else Inl err
     | Inr response \<Rightarrow>
         if \<not> response_ok response then Inl (http_error st (fr_status response)) else fr_json response)"

definition will_retry :: "'w SagaDeps \<Rightarrow> nat \<Rightarrow> js_value \<Rightarrow> bool" where
  "will_retry deps n err \<longleftrightarrow> n < step_maxAttempts deps \<and> isRetryableError err"

definition next_attempt :: "'w SagaDeps \<Rightarrow> nat \<Rightarrow> js_value \<Rightarrow> branch" where
  "next_attempt deps n lastError =
    (if n \<le> step_maxAttempts deps then Calling n else Storing_failed (n - 1) lastError)"

definition statement_ends :: "stmt_fate \<Rightarrow> branch \<Rightarrow> (js_value \<Rightarrow> branch) \<Rightarrow> branch" where
  "statement_ends fate ok failed = (case fate of Stmt_ok \<Rightarrow> ok | Stmt_fails e \<Rightarrow> failed e | Stmt_ack_lost e \<Rightarrow> failed e)"

fun branch_next :: "'w SagaDeps \<Rightarrow> step \<Rightarrow> moment \<Rightarrow> branch \<Rightarrow> branch" where
  "branch_next deps st m Marking =
     statement_ends (mo_fate m) (next_attempt deps 1 (Primitive ''undefined'')) (Storing_failed 0)"
| "branch_next deps st m (Calling n) =
     (case call_result deps st (mo_answer m) of Inr _ \<Rightarrow> Audit_ok n | Inl err \<Rightarrow> Audit_bad n err)"
| "branch_next deps st m (Audit_ok n) = statement_ends (mo_fate m) (Storing_ok n) (Audit_bad n)"
| "branch_next deps st m (Audit_bad n err) = statement_ends (mo_fate m)
     (if will_retry deps n err then Backing_off n err else Storing_failed n err) (Storing_failed n)"
| "branch_next deps st m (Backing_off n err) = next_attempt deps (Suc n) err"
| "branch_next deps st m (Storing_ok n) = statement_ends (mo_fate m)
     (Settled (Inr \<lparr>out_step = st, out_ok = True, out_error = None\<rparr>)) (Storing_failed n)"
| "branch_next deps st m (Storing_failed n err) = statement_ends (mo_fate m)
     (Settled (Inr \<lparr>out_step = st, out_ok = False, out_error = Some err\<rparr>)) (\<lambda>e. Settled (Inl e))"
| "branch_next deps st m (Settled r) = Settled r"

text \<open>The statement a branch is waiting for.\<close>

datatype step_write = Mark_running | Audit attempt_info | Mark_result step_status nat "string option"

definition branch_info ::
  "'w SagaDeps \<Rightarrow> moment \<Rightarrow> nat \<Rightarrow> attempt_outcome \<Rightarrow> js_value option \<Rightarrow> bool \<Rightarrow> attempt_info" where
  "branch_info deps m n outcome err willRetry = \<lparr>ai_attempt = n, ai_startedAt = mo_startedAt m,
     ai_finishedAt = mo_finishedAt m, ai_durationMs = mo_finishedAt m - mo_startedAt m,
     ai_outcome = outcome, ai_error = err, ai_willRetry = willRetry\<rparr>"

fun branch_stmt :: "'w SagaDeps \<Rightarrow> moment \<Rightarrow> branch \<Rightarrow> step_write option" where
  "branch_stmt deps m Marking = Some Mark_running"
| "branch_stmt deps m (Audit_ok n) = Some (Audit (branch_info deps m n A_SUCCEEDED None False))"
| "branch_stmt deps m (Audit_bad n err) =
     Some (Audit (branch_info deps m n (attempt_failure err) (Some err) (will_retry deps n err)))"
| "branch_stmt deps m (Storing_ok n) = Some (Mark_result S_SUCCEEDED n None)"
| "branch_stmt deps m (Storing_failed n err) = Some (Mark_result S_FAILED n (Some (error_message err)))"
| "branch_stmt deps m _ = None"

fun issue :: "string \<Rightarrow> step \<Rightarrow> int \<Rightarrow> step_write \<Rightarrow> saga_db \<Rightarrow> saga_db" where
  "issue oid st now Mark_running db = snd (markStepRunning oid st now db)"
| "issue oid st now (Audit info) db = snd (recordAttempt oid st info now db)"
| "issue oid st now (Mark_result status n err) db = snd (markStepResult oid st status n err now db)"

definition takes_effect :: "stmt_fate \<Rightarrow> bool" where
  "takes_effect fate = (case fate of Stmt_fails _ \<Rightarrow> False | _ \<Rightarrow> True)"

definition issued :: "'w SagaDeps \<Rightarrow> moment \<Rightarrow> branch \<Rightarrow> step_write option" where
  "issued deps m b = (if takes_effect (mo_fate m) then branch_stmt deps m b else None)"

definition branch_write :: "'w SagaDeps \<Rightarrow> ClaimedOrder \<Rightarrow> step \<Rightarrow> moment \<Rightarrow> branch \<Rightarrow> saga_db \<Rightarrow> saga_db" where
  "branch_write deps order st m b =
    (case issued deps m b of None \<Rightarrow> id | Some x \<Rightarrow> issue (orderId order) st (mo_now m) x)"

section \<open>The branches of one order, interleaved\<close>

datatype branch_event = Turn step moment | Beat int

definition par_start :: "step list \<Rightarrow> step \<Rightarrow> branch" where
  "par_start steps st = (if st \<in> set steps then Marking else Settled (Inl (Primitive ''undefined'')))"

fun par_event :: "'w SagaDeps \<Rightarrow> ClaimedOrder \<Rightarrow> branch_event \<Rightarrow> (step \<Rightarrow> branch) \<times> saga_db \<Rightarrow> (step \<Rightarrow> branch) \<times> saga_db" where
  "par_event deps order (Turn st m) (bs, db) =
     (bs(st := branch_next deps st m (bs st)), branch_write deps order st m (bs st) db)"
| "par_event deps order (Beat t) (bs, db) = (bs, beat deps (orderId order) t db)"

definition par_run :: "'w SagaDeps \<Rightarrow> ClaimedOrder \<Rightarrow> step list \<Rightarrow> branch_event list \<Rightarrow> saga_db \<Rightarrow> (step \<Rightarrow> branch) \<times> saga_db" where
  "par_run deps order steps zs db = fold (par_event deps order) zs (par_start steps, db)"

text \<open>The outcome \<open>allSettled\<close> reports for a branch that has settled.\<close>

definition branch_outcome :: "step \<Rightarrow> branch \<Rightarrow> StepOutcome" where
  "branch_outcome st b =
    (case b of
       Settled (Inr out) \<Rightarrow> out
     | Settled (Inl e) \<Rightarrow> \<lparr>out_step = st, out_ok = False, out_error = Some e\<rparr>
     | _ \<Rightarrow> \<lparr>out_step = st, out_ok = False, out_error = None\<rparr>)"

fun is_settled :: "branch \<Rightarrow> bool" where
  "is_settled (Settled _) = True"
| "is_settled _ = False"

section \<open>Tables without dates\<close>

text \<open>What is compared: the rows without their dates, the audit rows of each step by themselves.\<close>

type_synonym saga_view = "order_row list \<times> step_row list \<times> (string \<times> step \<Rightarrow> attempt_row list)"

definition undated_order :: "order_row \<Rightarrow> order_row" where
  "undated_order r = r\<lparr>o_lease_expires_at := None\<rparr>"

definition undated_step :: "step_row \<Rightarrow> step_row" where
  "undated_step r = r\<lparr>ss_started_at := None, ss_finished_at := None\<rparr>"

definition undated_attempt :: "attempt_row \<Rightarrow> attempt_row" where
  "undated_attempt r = r\<lparr>at_duration_ms := 0, at_started_at := 0, at_finished_at := 0\<rparr>"

definition attempts_at :: "attempt_row list \<Rightarrow> string \<times> step \<Rightarrow> attempt_row list" where
  "attempts_at rows k = map undated_attempt (filter (\<lambda>r. (at_order_id r, at_step r) = k) rows)"

definition undated :: "saga_db \<Rightarrow> saga_view" where
  "undated db = (map undated_order (saga_orders db), map undated_step (saga_steps db), attempts_at (saga_step_attempts db))"

fun on_view :: "string \<Rightarrow> step \<Rightarrow> step_write \<Rightarrow> saga_view \<Rightarrow> saga_view" where
  "on_view oid st Mark_running (os, ss, ats) = (os,
     map (\<lambda>r. if step_key r = (oid, st) \<and> ss_status r \<noteq> S_SUCCEEDED then r\<lparr>ss_status := S_RUNNING\<rparr> else r) ss, ats)"
| "on_view oid st (Audit info) (os, ss, ats) = (os, ss, ats((oid, st) := ats (oid, st) @
     [\<lparr>at_order_id = oid, at_step = st, at_attempt_no = ai_attempt info, at_outcome = ai_outcome info,
       at_error_message = attempt_message (ai_error info), at_duration_ms = 0, at_started_at = 0, at_finished_at = 0\<rparr>]))"
| "on_view oid st (Mark_result status n err) (os, ss, ats) = (os,
     map (\<lambda>r. if step_key r = (oid, st)
       then r\<lparr>ss_status := status, ss_attempts := max (ss_attempts r) n, ss_last_error := err\<rparr> else r) ss, ats)"

lemma undated_step_key [simp]: "step_key (undated_step r) = step_key r" "ss_status (undated_step r) = ss_status r"
    "ss_attempts (undated_step r) = ss_attempts r"
  by (simp_all add: undated_step_def step_key_def)

lemma undated_issue: "undated (issue oid st now x db) = on_view oid st x (undated db)"
proof (cases x)
  case (Audit info)
  then show ?thesis
    by (auto simp: undated_def recordAttempt_def attempts_at_def undated_attempt_def fun_eq_iff)
qed (auto simp: undated_def markStepRunning_def markStepResult_def sql_update_def undated_step_def step_key_def)

lemma undated_beat [simp]: "undated (beat deps oid t db) = undated db"
  by (auto simp: undated_def beat_def renewLease_def sql_update_def undated_order_def)

lemma undated_beats: "undated (fold (beat deps oid) ts db) = undated db"
  by (induction ts arbitrary: db) simp_all

lemma undated_elapse [simp]: "undated (cs_db (elapse deps d s)) = undated (cs_db s)"
  by (auto simp: elapse_def undated_beats split: option.splits)

lemma on_view_commute:
  "st \<noteq> st' \<Longrightarrow> on_view oid st x (on_view oid st' y v) = on_view oid st' y (on_view oid st x v)"
  by (cases v; cases x; cases y) (auto simp: fun_upd_twist step_key_def)

section \<open>Events of different keys\<close>

text \<open>Operations that commute across keys can be done key by key.\<close>

lemma fold_past_key:
  assumes "\<And>k' k x y v. k' \<noteq> k \<Longrightarrow> f k' x (f k y v) = f k y (f k' x v)" and "j \<noteq> k"
  shows "fold (\<lambda>(k, y). f k y) (filter (\<lambda>z. fst z = k) zs) (f j x v) =
    f j x (fold (\<lambda>(k, y). f k y) (filter (\<lambda>z. fst z = k) zs) v)"
  using assms by (induction zs arbitrary: v) auto

lemma fold_split_key:
  assumes "\<And>k' k x y v. k' \<noteq> k \<Longrightarrow> f k' x (f k y v) = f k y (f k' x v)"
  shows "fold (\<lambda>(k, y). f k y) zs v =
    fold (\<lambda>(k, y). f k y) (filter (\<lambda>z. fst z \<noteq> k) zs) (fold (\<lambda>(k, y). f k y) (filter (\<lambda>z. fst z = k) zs) v)"
proof (induction zs arbitrary: v)
  case (Cons z zs)
  obtain j x where z: "z = (j, x)" by fastforce
  show ?case
  proof (cases "j = k")
    case False
    with z Cons [of "f j x v"] fold_past_key [where f = f, OF assms False, of zs x v] show ?thesis by simp
  qed (use z Cons in simp)
qed simp

lemma fold_by_key:
  assumes com: "\<And>k' k x y v. k' \<noteq> k \<Longrightarrow> f k' x (f k y v) = f k y (f k' x v)"
    and "distinct ks" and "fst ` set zs \<subseteq> set ks"
  shows "fold (\<lambda>(k, y). f k y) zs v =
    fold (\<lambda>k. fold (f k) (map snd (filter (\<lambda>z. fst z = k) zs))) ks v"
  using assms(2,3)
proof (induction ks arbitrary: zs v)
  case (Cons k ks)
  let ?own = "filter (\<lambda>z. fst z = k) zs" and ?rest = "filter (\<lambda>z. fst z \<noteq> k) zs"
  have own: "fold (\<lambda>(k, y). f k y) ?own v = fold (f k) (map snd ?own) v"
    by (induction zs arbitrary: v) auto
  have same: "map snd (filter (\<lambda>z. fst z = j) ?rest) = map snd (filter (\<lambda>z. fst z = j) zs)" if "j \<in> set ks" for j
    using Cons.prems(1) that by (auto simp: filter_filter intro!: arg_cong [where f = "map snd"] filter_cong)
  have "fst ` set ?rest \<subseteq> set ks" using Cons.prems(2) by auto
  from Cons.IH [OF _ this] Cons.prems(1)
  have "fold (\<lambda>(k, y). f k y) ?rest u = fold (\<lambda>j. fold (f j) (map snd (filter (\<lambda>z. fst z = j) ?rest))) ks u" for u
    by simp
  also have "\<dots> u = fold (\<lambda>j. fold (f j) (map snd (filter (\<lambda>z. fst z = j) zs))) ks u" for u
    by (rule fold_cong) (simp_all only: same)
  finally show ?case using fold_split_key [where f = f, OF com, of zs v k] own by simp
qed simp

section \<open>An interleaving, branch by branch\<close>

fun turns :: "step \<Rightarrow> branch_event list \<Rightarrow> moment list" where
  "turns st [] = []"
| "turns st (Turn st' m # zs) = (if st' = st then m # turns st zs else turns st zs)"
| "turns st (Beat t # zs) = turns st zs"

definition branch_run :: "'w SagaDeps \<Rightarrow> step \<Rightarrow> moment list \<Rightarrow> branch \<Rightarrow> branch" where
  "branch_run deps st = fold (branch_next deps st)"

fun branch_writes :: "'w SagaDeps \<Rightarrow> step \<Rightarrow> moment list \<Rightarrow> branch \<Rightarrow> step_write list" where
  "branch_writes deps st [] b = []"
| "branch_writes deps st (m # ms) b =
     (case issued deps m b of None \<Rightarrow> [] | Some x \<Rightarrow> [x]) @ branch_writes deps st ms (branch_next deps st m b)"

fun par_writes :: "'w SagaDeps \<Rightarrow> branch_event list \<Rightarrow> (step \<Rightarrow> branch) \<Rightarrow> (step \<times> step_write) list" where
  "par_writes deps [] bs = []"
| "par_writes deps (Turn st m # zs) bs =
     (case issued deps m (bs st) of None \<Rightarrow> [] | Some x \<Rightarrow> [(st, x)]) @
     par_writes deps zs (bs(st := branch_next deps st m (bs st)))"
| "par_writes deps (Beat t # zs) bs = par_writes deps zs bs"

lemma settled_idle [simp]: "issued deps m (Settled r) = None"
  by (simp add: issued_def)

lemma settled_stays: "is_settled b \<Longrightarrow> is_settled (branch_next deps st m b) \<and> issued deps m b = None"
  by (cases b) simp_all

lemma settled_run [simp]: "branch_run deps st ms (Settled r) = Settled r" "branch_writes deps st ms (Settled r) = []"
  by (induction ms) (simp_all add: branch_run_def)

lemma par_branches: "fst (fold (par_event deps order) zs (bs, db)) st = branch_run deps st (turns st zs) (bs st)"
proof (induction zs arbitrary: bs db)
  case (Cons z zs)
  then show ?case by (cases z) (simp_all add: branch_run_def)
qed (simp add: branch_run_def)

lemma par_tables: "undated (snd (fold (par_event deps order) zs (bs, db))) =
    fold (\<lambda>(st, x). on_view (orderId order) st x) (par_writes deps zs bs) (undated db)"
proof (induction zs arbitrary: bs db)
  case (Cons z zs)
  then show ?case
    by (cases z) (simp_all add: branch_write_def undated_issue fun_upd_def split: option.splits)
qed simp

lemma par_writes_at: "map snd (filter (\<lambda>z. fst z = st) (par_writes deps zs bs)) = branch_writes deps st (turns st zs) (bs st)"
proof (induction zs arbitrary: bs)
  case (Cons z zs)
  then show ?case by (cases z) (auto split: option.splits)
qed simp

lemma par_writes_steps: "\<forall>st. st \<notin> S \<longrightarrow> is_settled (bs st) \<Longrightarrow> fst ` set (par_writes deps zs bs) \<subseteq> S"
proof (induction zs arbitrary: bs)
  case (Cons z zs)
  show ?case
  proof (cases z)
    case (Turn st m)
    let ?bs = "bs(st := branch_next deps st m (bs st))"
    have own: "st \<in> S" if "issued deps m (bs st) = Some x" for x
      using that Cons.prems settled_stays [of "bs st" deps st m] by auto
    have "is_settled (?bs st')" if "st' \<notin> S" for st'
      using that Cons.prems settled_stays [of "bs st" deps st m] by auto
    then have "fst ` set (par_writes deps zs ?bs) \<subseteq> S" by (intro Cons.IH) blast
    with own show ?thesis by (cases "issued deps m (bs st)") (simp_all add: Turn)
  qed (use Cons in simp)
qed simp

text \<open>The tables after an interleaving are those of the branches run one after another.\<close>

lemma par_run_by_step:
  assumes "distinct steps" and "par_run deps order steps zs db = (bs, db')"
  shows "undated db' = fold (\<lambda>st. fold (on_view (orderId order) st) (branch_writes deps st (turns st zs) Marking)) steps
      (undated db)"
    and "st \<in> set steps \<Longrightarrow> bs st = branch_run deps st (turns st zs) Marking"
proof -
  let ?bs = "par_start steps"
  have "undated db' = fold (\<lambda>(st, x). on_view (orderId order) st x) (par_writes deps zs ?bs) (undated db)"
    using par_tables [of deps order zs ?bs db] assms(2) by (simp add: par_run_def)
  also have "\<dots> = fold (\<lambda>st. fold (on_view (orderId order) st) (map snd (filter (\<lambda>z. fst z = st) (par_writes deps zs ?bs))))
      steps (undated db)"
    by (rule fold_by_key [where f = "on_view (orderId order)", OF on_view_commute assms(1) par_writes_steps])
       (simp_all add: par_start_def)
  also have "\<dots> = fold (\<lambda>st. fold (on_view (orderId order) st) (branch_writes deps st (turns st zs) Marking)) steps (undated db)"
    by (rule fold_cong) (simp_all add: par_writes_at par_start_def)
  finally show "undated db' = \<dots>" .
  show "st \<in> set steps \<Longrightarrow> bs st = branch_run deps st (turns st zs) Marking"
    using par_branches [of deps order zs ?bs db st] assms(2) by (simp add: par_run_def par_start_def)
qed

section \<open>One branch, as executeStep runs it\<close>

text \<open>
  The environment that answers as the events did: the fates of the statements in a list, the answers
  of the fetches in the world.
\<close>

type_synonym answers_left = "(js_value + fetch_response) list"

definition scripted :: "'v SagaDeps \<Rightarrow> stmt_fate list \<Rightarrow> answers_left SagaDeps" where
  "scripted deps fates = \<lparr>instanceId = instanceId deps, serviceUrls = serviceUrls deps,
     step_timeoutMs = step_timeoutMs deps, step_maxAttempts = step_maxAttempts deps,
     step_baseDelayMs = step_baseDelayMs deps, step_maxDelayMs = step_maxDelayMs deps,
     lease_ttlMs = lease_ttlMs deps, lease_heartbeatMs = lease_heartbeatMs deps,
     dep_fetch = (\<lambda>url key body t w. case w of [] \<Rightarrow> (Inl (Primitive ''undefined''), 0, []) | a # w' \<Rightarrow> (a, 0, w')),
     dep_fate = (\<lambda>n. case drop n fates of [] \<Rightarrow> Stmt_ok | f # _ \<Rightarrow> f), dep_jitter = (\<lambda>_. 0), dep_schedule = id\<rparr>"

fun branch_fates :: "'w SagaDeps \<Rightarrow> step \<Rightarrow> moment list \<Rightarrow> branch \<Rightarrow> stmt_fate list" where
  "branch_fates deps st [] b = []"
| "branch_fates deps st (m # ms) b =
     (case b of Calling _ \<Rightarrow> [] | Settled _ \<Rightarrow> [] | Backing_off _ _ \<Rightarrow> [Stmt_ok] | _ \<Rightarrow> [mo_fate m]) @
     branch_fates deps st ms (branch_next deps st m b)"

fun branch_answers :: "'w SagaDeps \<Rightarrow> step \<Rightarrow> moment list \<Rightarrow> branch \<Rightarrow> answers_left" where
  "branch_answers deps st [] b = []"
| "branch_answers deps st (m # ms) b =
     (case b of Calling _ \<Rightarrow> [mo_answer m] | _ \<Rightarrow> []) @ branch_answers deps st ms (branch_next deps st m b)"

text \<open>What executeStep does from each of its awaits on.\<close>

definition store_failed ::
  "'w SagaDeps \<Rightarrow> ClaimedOrder \<Rightarrow> step \<Rightarrow> nat \<Rightarrow> js_value \<Rightarrow> ('w coord, js_value, StepOutcome) act" where
  "store_failed deps order st n err s =
     seq_act (query deps (markStepResult (orderId order) st S_FAILED n (Some (error_message err))))
       (ret_act \<lparr>out_step = st, out_ok = False, out_error = Some err\<rparr>) s"

definition store_ok ::
  "'w SagaDeps \<Rightarrow> ClaimedOrder \<Rightarrow> step \<Rightarrow> nat \<Rightarrow> ('w coord, js_value, StepOutcome) act" where
  "store_ok deps order st n s =
     (case query deps (markStepResult (orderId order) st S_SUCCEEDED n None) s of
        (Inr _, s') \<Rightarrow> (Inr \<lparr>out_step = st, out_ok = True, out_error = None\<rparr>, s')
      | (Inl e, s') \<Rightarrow> store_failed deps order st n e s')"

definition after_call ::
  "'w SagaDeps \<Rightarrow> ClaimedOrder \<Rightarrow> step \<Rightarrow> (js_value + StepResponseBody) \<times> 'w coord \<times> nat \<Rightarrow> (js_value + StepOutcome) \<times> 'w coord" where
  "after_call deps order st p =
     (case p of (Inr _, (s, n)) \<Rightarrow> store_ok deps order st n s | (Inl e, (s, n)) \<Rightarrow> store_failed deps order st n e s)"

definition call_loop ::
  "'w SagaDeps \<Rightarrow> ClaimedOrder \<Rightarrow> bool \<Rightarrow> step \<Rightarrow> nat \<Rightarrow> js_value \<Rightarrow> ('w coord \<times> nat, js_value, StepResponseBody) act" where
  "call_loop deps order frc st n err =
     retry_loop (\<lambda>_. call_attempt (coord_fetch deps) (step_call_options deps order st frc))
       (call_retry_options (coord_runtime deps) (step_call_options deps order st frc)) n err"

definition after_turn ::
  "'w SagaDeps \<Rightarrow> ClaimedOrder \<Rightarrow> bool \<Rightarrow> step \<Rightarrow> nat \<Rightarrow> ('w coord \<times> nat, StepResponseBody) turn \<Rightarrow> (js_value + StepOutcome) \<times> 'w coord" where
  "after_turn deps order frc st n t =
     (case t of
        Returned b x \<Rightarrow> after_call deps order st (Inr b, x)
      | Thrown e x \<Rightarrow> after_call deps order st (Inl e, x)
      | Again e x \<Rightarrow> after_call deps order st (call_loop deps order frc st (Suc n) e x))"

lemma executeStep_eq:
  "executeStep deps order st frc s =
    (case query deps (markStepRunning (orderId order) st) s of
       (Inl e, s') \<Rightarrow> store_failed deps order st 0 e s'
     | (Inr _, s') \<Rightarrow> after_call deps order st
         (call_loop deps order frc st 1 (Primitive ''undefined'') (s', 0)))"
  by (auto simp: executeStep_def execute_try_def act_defs on_fst_def callStep_def withRetry_def
    call_loop_def after_call_def store_ok_def store_failed_def split: prod.splits sum.splits)

definition resume ::
  "'w SagaDeps \<Rightarrow> ClaimedOrder \<Rightarrow> bool \<Rightarrow> step \<Rightarrow> branch \<Rightarrow> int \<Rightarrow> nat \<Rightarrow> StepResponseBody \<Rightarrow> ('w coord, js_value, StepOutcome) act" where
  "resume deps order frc st b t0 k body s =
    (case b of
       Marking \<Rightarrow> executeStep deps order st frc s
     | Calling n \<Rightarrow> after_call deps order st
         (call_loop deps order frc st n (Primitive ''undefined'') (s, k))
     | Audit_ok n \<Rightarrow> after_turn deps order frc st n
         (case on_attempt deps order st \<lparr>ai_attempt = n, ai_startedAt = t0, ai_finishedAt = cs_now s,
             ai_durationMs = cs_now s - t0, ai_outcome = A_SUCCEEDED, ai_error = None, ai_willRetry = False\<rparr> (s, k) of
            (Inr _, x) \<Rightarrow> Returned body x
          | (Inl e, x) \<Rightarrow> retry_catch (call_retry_options (coord_runtime deps) (step_call_options deps order st frc)) n t0 e x)
     | Audit_bad n err \<Rightarrow> after_turn deps order frc st n
         (retry_catch (call_retry_options (coord_runtime deps) (step_call_options deps order st frc)) n t0 err (s, k))
     | Backing_off n err \<Rightarrow> after_turn deps order frc st n
         (case rt_random (coord_runtime deps) (s, n) of (r, x) \<Rightarrow>
            Again err (rt_sleep (coord_runtime deps)
              (backoffDelay n (step_baseDelayMs deps) (step_maxDelayMs deps) r) x))
     | Storing_ok n \<Rightarrow> store_ok deps order st n s
     | Storing_failed n err \<Rightarrow> store_failed deps order st n err s
     | Settled r \<Rightarrow> (r, s))"

lemma drop_next: "drop n xs = y # ys \<Longrightarrow> drop (Suc n) xs = ys"
  by (metis drop_Suc drop_tl list.sel(3))

definition fate_result :: "stmt_fate \<Rightarrow> js_value + unit" where
  "fate_result f = (case f of Stmt_ok \<Rightarrow> Inr () | Stmt_fails e \<Rightarrow> Inl e | Stmt_ack_lost e \<Rightarrow> Inl e)"

lemma scripted_query:
  assumes "drop (cs_tick s) fates = f # F"
  obtains s1 where "query (scripted deps fates) q s = (fate_result f, s1)" "drop (cs_tick s1) fates = F"
    "cs_world s1 = cs_world s" "cs_db s1 = (if takes_effect f then snd (q (cs_now s) (cs_db s)) else cs_db s)"
proof
  let ?s1 = "s\<lparr>cs_tick := Suc (cs_tick s), cs_db := (if takes_effect f then snd (q (cs_now s) (cs_db s)) else cs_db s)\<rparr>"
  show "query (scripted deps fates) q s = (fate_result f, ?s1)"
    using assms by (cases f)
      (auto simp: query_def scripted_def fate_result_def takes_effect_def Let_def split: prod.splits)
qed (simp_all add: drop_next [OF assms])

lemma statement_ends_eq: "statement_ends f ok failed = (case fate_result f of Inr _ \<Rightarrow> ok | Inl e \<Rightarrow> failed e)"
  by (cases f) (simp_all add: statement_ends_def fate_result_def)

lemma scripted_config [simp]:
  "step_maxAttempts (scripted deps fates) = step_maxAttempts deps"
  "step_timeoutMs (scripted deps fates) = step_timeoutMs deps"
  "step_baseDelayMs (scripted deps fates) = step_baseDelayMs deps"
  "step_maxDelayMs (scripted deps fates) = step_maxDelayMs deps"
  by (simp_all add: scripted_def)

lemma scripted_call:
  assumes "cs_world s = a # W"
  obtains s1 where "call_attempt (coord_fetch (scripted deps fates)) (step_call_options (scripted deps fates) order st frc)
      (s, k) = (call_result deps st a, (s1, k))"
    "cs_tick s1 = cs_tick s" "cs_world s1 = W" "undated (cs_db s1) = undated (cs_db s)"
proof
  let ?d = "scripted deps fates"
  let ?s1 = "elapse ?d 0 (s\<lparr>cs_world := W\<rparr>)"
  have f: "coord_fetch ?d u h b t (s, k) = (a, (?s1, k))" for u h b t
    using assms by (simp add: coord_fetch_def) (simp add: scripted_def)
  show "call_attempt (coord_fetch ?d) (step_call_options ?d order st frc) (s, k) = (call_result deps st a, (?s1, k))"
    by (cases a) (simp_all add: call_attempt_def Let_def f call_result_def)
  show "cs_tick ?s1 = cs_tick s" by (simp add: elapse_def split: option.splits)
qed simp_all

text \<open>Which states of a branch can occur.\<close>

fun branch_ok :: "'w SagaDeps \<Rightarrow> branch \<Rightarrow> bool" where
  "branch_ok deps (Calling n) = (1 \<le> n \<and> n \<le> step_maxAttempts deps)"
| "branch_ok deps (Backing_off n err) = (Suc n \<le> step_maxAttempts deps)"
| "branch_ok deps _ = True"

fun spent_fates :: "moment \<Rightarrow> branch \<Rightarrow> stmt_fate list" where
  "spent_fates m (Calling _) = []"
| "spent_fates m (Settled _) = []"
| "spent_fates m (Backing_off _ _) = [Stmt_ok]"
| "spent_fates m _ = [mo_fate m]"

fun spent_answers :: "moment \<Rightarrow> branch \<Rightarrow> answers_left" where
  "spent_answers m (Calling _) = [mo_answer m]"
| "spent_answers m _ = []"

definition view_after :: "'w SagaDeps \<Rightarrow> ClaimedOrder \<Rightarrow> step \<Rightarrow> moment \<Rightarrow> branch \<Rightarrow> saga_view \<Rightarrow> saga_view" where
  "view_after deps order st m b = (case issued deps m b of None \<Rightarrow> id | Some x \<Rightarrow> on_view (orderId order) st x)"

text \<open>\<open>went\<close>: executeStep has gone from one await to the next, using up what the event used up.\<close>

definition went where
  "went deps order frc st fates m b r F W v \<longleftrightarrow>
     (\<exists>t k body s. r = resume (scripted deps fates) order frc st (branch_next deps st m b) t k body s \<and>
        drop (cs_tick s) fates = F \<and> cs_world s = W \<and> undated (cs_db s) = view_after deps order st m b v)"

lemma wentI:
  "r = resume (scripted deps fates) order frc st (branch_next deps st m b) t k body s \<Longrightarrow> drop (cs_tick s) fates = F \<Longrightarrow>
    cs_world s = W \<Longrightarrow> undated (cs_db s) = view_after deps order st m b v \<Longrightarrow>
    went deps order frc st fates m b r F W v"
  by (auto simp: went_def)

lemma call_loop_err: "n \<le> step_maxAttempts deps \<Longrightarrow> call_loop deps order frc st n e x = call_loop deps order frc st n e' x"
  by (simp add: call_loop_def retry_loop.simps call_retry_options_def)

lemma resume_marking:
  assumes "drop (cs_tick s) fates = mo_fate m # F"
  shows "went deps order frc st fates m Marking (executeStep (scripted deps fates) order st frc s) F (cs_world s) (undated (cs_db s))"
proof -
  let ?q = "markStepRunning (orderId order) st"
  from assms obtain s1 where q: "query (scripted deps fates) ?q s = (fate_result (mo_fate m), s1)"
    "drop (cs_tick s1) fates = F" "cs_world s1 = cs_world s"
    "cs_db s1 = (if takes_effect (mo_fate m) then snd (?q (cs_now s) (cs_db s)) else cs_db s)"
    by (rule scripted_query [where q = ?q])
  have v: "undated (cs_db s1) = view_after deps order st m Marking (undated (cs_db s))"
    using undated_issue [of "orderId order" st "cs_now s" Mark_running "cs_db s"]
    by (simp add: q(4) view_after_def issued_def)
  show ?thesis
  proof (cases "fate_result (mo_fate m)")
    case (Inl e)
    then show ?thesis
      by (intro wentI [where s = s1, OF _ q(2,3) v]) (simp add: q(1) resume_def executeStep_eq statement_ends_eq)
  next
    case (Inr u)
    then show ?thesis
      by (intro wentI [where s = s1 and k = 0, OF _ q(2,3) v])
         (simp add: q(1) resume_def executeStep_eq statement_ends_eq next_attempt_def call_loop_def
          retry_loop_past call_retry_options_def after_call_def)
  qed
qed

lemma scripted_audit:
  assumes "drop (cs_tick s) fates = f # F"
  obtains s1 where "on_attempt (scripted deps fates) order st info (s, k) = (fate_result f, (s1, ai_attempt info))"
    "drop (cs_tick s1) fates = F" "cs_world s1 = cs_world s"
    "undated (cs_db s1) = (if takes_effect f then on_view (orderId order) st (Audit info) (undated (cs_db s)) else undated (cs_db s))"
proof -
  let ?q = "recordAttempt (orderId order) st info"
  from assms obtain s1 where q: "query (scripted deps fates) ?q s = (fate_result f, s1)"
    "drop (cs_tick s1) fates = F" "cs_world s1 = cs_world s"
    "cs_db s1 = (if takes_effect f then snd (?q (cs_now s) (cs_db s)) else cs_db s)"
    by (rule scripted_query [where q = ?q])
  show ?thesis
    using undated_issue [of "orderId order" st "cs_now s" "Audit info" "cs_db s"]
    by (intro that [of s1]) (simp_all add: q on_attempt_def on_fst_def)
qed

lemma on_view_audit: "ai_attempt i = ai_attempt j \<Longrightarrow> ai_outcome i = ai_outcome j \<Longrightarrow> ai_error i = ai_error j \<Longrightarrow>
    on_view oid st (Audit i) v = on_view oid st (Audit j) v"
  by (cases v) simp

lemma resume_audit_bad:
  assumes "drop (cs_tick s) fates = mo_fate m # F"
  shows "went deps order frc st fates m (Audit_bad n err)
    (resume (scripted deps fates) order frc st (Audit_bad n err) t k body s) F (cs_world s) (undated (cs_db s))"
proof -
  let ?d = "scripted deps fates"
  define info where "info = \<lparr>ai_attempt = n, ai_startedAt = t, ai_finishedAt = cs_now s, ai_durationMs = cs_now s - t,
    ai_outcome = attempt_failure err, ai_error = Some err, ai_willRetry = will_retry deps n err\<rparr>"
  from assms obtain s1 where q: "on_attempt ?d order st info (s, k) = (fate_result (mo_fate m), (s1, n))"
    "drop (cs_tick s1) fates = F" "cs_world s1 = cs_world s"
    "undated (cs_db s1) = (if takes_effect (mo_fate m) then on_view (orderId order) st (Audit info) (undated (cs_db s))
       else undated (cs_db s))"
    by (rule scripted_audit [where info = info]) (simp add: info_def)
  have v: "undated (cs_db s1) = view_after deps order st m (Audit_bad n err) (undated (cs_db s))"
    by (auto simp: q(4) view_after_def issued_def info_def branch_info_def intro: on_view_audit)
  have c: "retry_catch (call_retry_options (coord_runtime ?d) (step_call_options ?d order st frc)) n t err (s, k) =
      (case fate_result (mo_fate m) of Inl e \<Rightarrow> Thrown e (s1, n)
       | Inr _ \<Rightarrow> if \<not> will_retry deps n err then Thrown err (s1, n)
           else (case rt_random (coord_runtime ?d) (s1, n) of (r, x) \<Rightarrow>
             Again err (rt_sleep (coord_runtime ?d) (backoffDelay n (step_baseDelayMs deps) (step_maxDelayMs deps) r) x)))"
    using q(1) by (simp add: retry_catch_def call_retry_options_def Let_def will_retry_def info_def coord_runtime_def
      step_call_options_def split: sum.splits prod.splits)
  show ?thesis
    by (intro wentI [where s = s1, OF _ q(2,3) v])
       (auto simp: resume_def c statement_ends_eq after_turn_def after_call_def split: sum.splits prod.splits)
qed

lemma resume_audit_ok:
  assumes "drop (cs_tick s) fates = mo_fate m # F"
  shows "went deps order frc st fates m (Audit_ok n)
    (resume (scripted deps fates) order frc st (Audit_ok n) t k body s) F (cs_world s) (undated (cs_db s))"
proof -
  let ?d = "scripted deps fates"
  define info where "info = \<lparr>ai_attempt = n, ai_startedAt = t, ai_finishedAt = cs_now s, ai_durationMs = cs_now s - t,
    ai_outcome = A_SUCCEEDED, ai_error = None, ai_willRetry = False\<rparr>"
  from assms obtain s1 where q: "on_attempt ?d order st info (s, k) = (fate_result (mo_fate m), (s1, n))"
    "drop (cs_tick s1) fates = F" "cs_world s1 = cs_world s"
    "undated (cs_db s1) = (if takes_effect (mo_fate m) then on_view (orderId order) st (Audit info) (undated (cs_db s))
       else undated (cs_db s))"
    by (rule scripted_audit [where info = info]) (simp add: info_def)
  have v: "undated (cs_db s1) = view_after deps order st m (Audit_ok n) (undated (cs_db s))"
    by (auto simp: q(4) view_after_def issued_def info_def branch_info_def intro: on_view_audit)
  show ?thesis
    using q(1) unfolding info_def
    by (intro wentI [where s = s1 and t = t and k = n, OF _ q(2,3) v])
       (auto simp: resume_def statement_ends_eq after_turn_def after_call_def split: sum.splits)
qed

lemma resume_backing_off:
  assumes "drop (cs_tick s) fates = f # F" and "Suc n \<le> step_maxAttempts deps"
  shows "went deps order frc st fates m (Backing_off n err)
    (resume (scripted deps fates) order frc st (Backing_off n err) t k body s) F (cs_world s) (undated (cs_db s))"
proof -
  let ?d = "scripted deps fates"
  let ?s1 = "elapse ?d (nat (backoffDelay n (step_baseDelayMs deps) (step_maxDelayMs deps) (dep_jitter ?d (cs_tick s))))
    (s\<lparr>cs_tick := Suc (cs_tick s)\<rparr>)"
  have "drop (cs_tick ?s1) fates = F" by (simp add: elapse_def drop_next [OF assms(1)] split: option.splits)
  then show ?thesis
    by (intro wentI [where s = ?s1 and k = n])
       (simp_all add: resume_def coord_runtime_def after_turn_def next_attempt_def assms(2) view_after_def issued_def
        call_loop_err [where e = err and e' = "Primitive ''undefined''"])
qed

lemma retry_options_of:
  "clock (call_retry_options (coord_runtime deps) opts) (s, k) = cs_now s"
  "onAttempt (call_retry_options (coord_runtime deps) opts) = co_onAttempt opts"
  by (simp_all add: call_retry_options_def coord_runtime_def)

lemma resume_calling:
  assumes "cs_world s = mo_answer m # W" and "n \<le> step_maxAttempts deps"
  shows "went deps order frc st fates m (Calling n)
    (resume (scripted deps fates) order frc st (Calling n) t k body s) (drop (cs_tick s) fates) W (undated (cs_db s))"
proof -
  let ?d = "scripted deps fates"
  from assms(1) obtain s1 where c: "call_attempt (coord_fetch ?d) (step_call_options ?d order st frc) (s, k) =
      (call_result deps st (mo_answer m), (s1, k))"
    "cs_tick s1 = cs_tick s" "cs_world s1 = W" "undated (cs_db s1) = undated (cs_db s)"
    by (rule scripted_call)
  have v: "undated (cs_db s1) = view_after deps order st m (Calling n) (undated (cs_db s))"
    by (simp add: c(4) view_after_def issued_def)
  have loop: "after_call ?d order st (call_loop ?d order frc st n (Primitive ''undefined'') (s, k)) =
      after_turn ?d order frc st n (retry_turn (\<lambda>_. call_attempt (coord_fetch ?d) (step_call_options ?d order st frc))
        (call_retry_options (coord_runtime ?d) (step_call_options ?d order st frc)) n (s, k))"
    using assms(2) by (simp add: call_loop_def retry_loop_turn call_retry_options_def after_turn_def split: turn.splits)
  show ?thesis
  proof (cases "call_result deps st (mo_answer m)")
    case (Inl err)
    then show ?thesis
      by (intro wentI [where s = s1 and t = "cs_now s" and k = k, OF _ _ c(3) v])
         (simp_all add: resume_def loop retry_turn_def c(1,2) Let_def call_retry_options_def coord_runtime_def)
  next
    case (Inr b)
    then show ?thesis
      by (intro wentI [where s = s1 and t = "cs_now s" and k = k and body = b, OF _ _ c(3) v])
         (simp_all add: resume_def loop retry_turn_def c(1,2) Let_def retry_options_of)
  qed
qed

lemma resume_storing:
  assumes "drop (cs_tick s) fates = mo_fate m # F"
  shows "went deps order frc st fates m (Storing_failed n err)
      (resume (scripted deps fates) order frc st (Storing_failed n err) t k body s) F (cs_world s) (undated (cs_db s))"
    and "went deps order frc st fates m (Storing_ok n)
      (resume (scripted deps fates) order frc st (Storing_ok n) t k body s) F (cs_world s) (undated (cs_db s))"
proof -
  let ?f = "Mark_result S_FAILED n (Some (error_message err))" and ?o = "Mark_result S_SUCCEEDED n None"
  let ?qf = "markStepResult (orderId order) st S_FAILED n (Some (error_message err))"
  let ?qo = "markStepResult (orderId order) st S_SUCCEEDED n None"
  from assms obtain s1 where q: "query (scripted deps fates) ?qf s = (fate_result (mo_fate m), s1)"
    "drop (cs_tick s1) fates = F" "cs_world s1 = cs_world s"
    "cs_db s1 = (if takes_effect (mo_fate m) then snd (?qf (cs_now s) (cs_db s)) else cs_db s)"
    by (rule scripted_query [where q = ?qf])
  have v: "undated (cs_db s1) = view_after deps order st m (Storing_failed n err) (undated (cs_db s))"
    using undated_issue [of "orderId order" st "cs_now s" ?f "cs_db s"]
    by (simp add: q(4) view_after_def issued_def)
  show "went deps order frc st fates m (Storing_failed n err)
      (resume (scripted deps fates) order frc st (Storing_failed n err) t k body s) F (cs_world s) (undated (cs_db s))"
    by (intro wentI [where s = s1, OF _ q(2,3) v])
       (simp add: q(1) resume_def store_failed_def statement_ends_eq act_defs split: sum.splits)
  from assms obtain s2 where p: "query (scripted deps fates) ?qo s = (fate_result (mo_fate m), s2)"
    "drop (cs_tick s2) fates = F" "cs_world s2 = cs_world s"
    "cs_db s2 = (if takes_effect (mo_fate m) then snd (?qo (cs_now s) (cs_db s)) else cs_db s)"
    by (rule scripted_query [where q = ?qo])
  have w: "undated (cs_db s2) = view_after deps order st m (Storing_ok n) (undated (cs_db s))"
    using undated_issue [of "orderId order" st "cs_now s" ?o "cs_db s"]
    by (simp add: p(4) view_after_def issued_def)
  show "went deps order frc st fates m (Storing_ok n)
      (resume (scripted deps fates) order frc st (Storing_ok n) t k body s) F (cs_world s) (undated (cs_db s))"
    by (intro wentI [where s = s2, OF _ p(2,3) w])
       (simp add: p(1) resume_def store_ok_def statement_ends_eq split: sum.splits)
qed

lemma resume_event:
  assumes "drop (cs_tick s) fates = spent_fates m b @ F" and "cs_world s = spent_answers m b @ W" and "branch_ok deps b"
  shows "went deps order frc st fates m b (resume (scripted deps fates) order frc st b t k body s) F W (undated (cs_db s))"
proof (cases b)
  case Marking
  with assms resume_marking [of s fates m F deps order frc st] show ?thesis by (simp add: resume_def)
next
  case (Calling n)
  with assms resume_calling [of s m W n deps order frc st fates t k body] show ?thesis by simp
next
  case (Settled r)
  with assms show ?thesis by (intro wentI [where s = s]) (simp_all add: resume_def view_after_def)
qed (use assms resume_audit_ok [of s fates m F] resume_audit_bad [of s fates m F] resume_storing [of s fates m F]
    resume_backing_off [of s fates Stmt_ok F _ deps] in simp_all)

lemma branch_ok_next: "branch_ok deps b \<Longrightarrow> branch_ok deps (branch_next deps st m b)"
  by (cases b) (auto simp: statement_ends_def next_attempt_def will_retry_def split: stmt_fate.splits sum.splits)

lemma branch_scripted:
  assumes "branch_run deps st ms b = Settled r" and "branch_ok deps b"
    and "drop (cs_tick s) fates = branch_fates deps st ms b @ F" and "cs_world s = branch_answers deps st ms b @ W"
  shows "\<exists>s'. resume (scripted deps fates) order frc st b t k body s = (r, s') \<and>
    drop (cs_tick s') fates = F \<and> cs_world s' = W \<and>
    undated (cs_db s') = fold (on_view (orderId order) st) (branch_writes deps st ms b) (undated (cs_db s))"
  using assms
proof (induction ms arbitrary: b t k body s)
  case Nil
  then show ?case by (auto simp: branch_run_def resume_def)
next
  case (Cons m ms)
  let ?b = "branch_next deps st m b"
  have spent: "(case b of Calling _ \<Rightarrow> [] | Settled _ \<Rightarrow> [] | Backing_off _ _ \<Rightarrow> [Stmt_ok] | _ \<Rightarrow> [mo_fate m]) = spent_fates m b"
    "(case b of Calling _ \<Rightarrow> [mo_answer m] | _ \<Rightarrow> []) = spent_answers m b"
    by (cases b; simp)+
  have "went deps order frc st fates m b (resume (scripted deps fates) order frc st b t k body s)
      (branch_fates deps st ms ?b @ F) (branch_answers deps st ms ?b @ W) (undated (cs_db s))"
    using Cons.prems by (intro resume_event) (simp_all add: spent)
  then obtain t1 k1 body1 s1 where r: "resume (scripted deps fates) order frc st b t k body s =
      resume (scripted deps fates) order frc st ?b t1 k1 body1 s1"
    and s1: "drop (cs_tick s1) fates = branch_fates deps st ms ?b @ F" "cs_world s1 = branch_answers deps st ms ?b @ W"
      "undated (cs_db s1) = view_after deps order st m b (undated (cs_db s))"
    unfolding went_def by blast
  have "branch_run deps st ms ?b = Settled r" using Cons.prems(1) by (simp add: branch_run_def)
  from Cons.IH [OF this branch_ok_next [OF Cons.prems(2)] s1(1,2), of t1 k1 body1] s1(3) r
  show ?case by (auto simp: view_after_def split: option.splits)
qed

section \<open>Every interleaving is a sequence of branches\<close>

definition script_fates :: "'w SagaDeps \<Rightarrow> branch_event list \<Rightarrow> step list \<Rightarrow> stmt_fate list" where
  "script_fates deps zs steps = concat (map (\<lambda>st. branch_fates deps st (turns st zs) Marking) steps)"

definition script_answers :: "'w SagaDeps \<Rightarrow> branch_event list \<Rightarrow> step list \<Rightarrow> answers_left" where
  "script_answers deps zs steps = concat (map (\<lambda>st. branch_answers deps st (turns st zs) Marking) steps)"

lemma branches_scripted:
  assumes "\<forall>st \<in> set steps. is_settled (branch_run deps st (turns st zs) Marking)"
    and "drop (cs_tick s) fates = script_fates deps zs steps" and "cs_world s = script_answers deps zs steps"
  shows "\<exists>rs s'. run_branches (scripted deps fates) order frc steps s = (rs, s') \<and>
    map fst rs = steps \<and> (\<forall>(st, r) \<in> set rs. branch_run deps st (turns st zs) Marking = Settled r) \<and>
    undated (cs_db s') = fold (\<lambda>st. fold (on_view (orderId order) st) (branch_writes deps st (turns st zs) Marking)) steps
      (undated (cs_db s))"
  using assms
proof (induction steps arbitrary: s)
  case (Cons st steps)
  from Cons.prems(1) obtain r where r: "branch_run deps st (turns st zs) Marking = Settled r"
    by (cases "branch_run deps st (turns st zs) Marking") auto
  from branch_scripted [OF r, of s fates "script_fates deps zs steps" "script_answers deps zs steps" order frc] Cons.prems(2,3)
  obtain s1 where s1: "executeStep (scripted deps fates) order st frc s = (r, s1)"
    "drop (cs_tick s1) fates = script_fates deps zs steps" "cs_world s1 = script_answers deps zs steps"
    "undated (cs_db s1) = fold (on_view (orderId order) st) (branch_writes deps st (turns st zs) Marking) (undated (cs_db s))"
    by (auto simp: script_fates_def script_answers_def resume_def)
  from Cons.IH [OF _ s1(2,3)] Cons.prems(1) s1(1,4) r show ?case by auto
qed (simp add: script_fates_def)

lemma scripted_arrange [simp]: "arrange (scripted deps fates) steps = steps"
  by (simp add: arrange_def scripted_def)

lemma settled_outcomes:
  assumes "distinct steps" and "map fst rs = steps" and "\<forall>(st, r) \<in> set rs. bs st = Settled r" and "st \<in> set steps"
  shows "settled rs st = branch_outcome st (bs st)"
proof -
  from assms(2,4) obtain r where r: "(st, r) \<in> set rs" by auto
  with assms(1,2) have "map_of rs st = Some r" by (auto intro: map_of_is_SomeI)
  moreover have "bs st = Settled r" using assms(3) r by blast
  ultimately show ?thesis by (simp add: settled_def branch_outcome_def)
qed

text \<open>
  C13. The parallel branches. However the awaits of the branches of one \<open>runConcurrently\<close> and the
  heartbeat are interleaved, whatever each statement and fetch ends in: once every branch has
  settled, the outcomes and the tables are those of a run in which the branches take effect one after
  another, in an environment where the same statements fail and the same fetches are answered.
  Only dates and the relative order of the audit rows of different steps may differ.
\<close>

theorem branches_one_by_one:
  fixes deps :: "'w SagaDeps"
  assumes "distinct steps" and "par_run deps order steps zs db = (bs, db')"
    and "\<forall>st \<in> set steps. is_settled (bs st)"
  shows "\<exists>s'. runConcurrently (scripted deps (script_fates deps zs steps)) order steps frc
        \<lparr>cs_db = db, cs_now = t, cs_world = script_answers deps zs steps, cs_tick = 0, cs_heartbeat = hb\<rparr> =
      (Inr (map (\<lambda>st. branch_outcome st (bs st)) steps), s') \<and> undated (cs_db s') = undated db'"
proof -
  let ?f = "script_fates deps zs steps"
  let ?s = "\<lparr>cs_db = db, cs_now = t, cs_world = script_answers deps zs steps, cs_tick = 0, cs_heartbeat = hb\<rparr>"
  note by_step = par_run_by_step [OF assms(1,2)]
  have "\<forall>st \<in> set steps. is_settled (branch_run deps st (turns st zs) Marking)" using assms(3) by_step(2) by simp
  from branches_scripted [OF this, of ?s ?f order frc] obtain rs s' where
    run: "run_branches (scripted deps ?f) order frc steps ?s = (rs, s')" "map fst rs = steps"
    and rs: "\<forall>(st, r) \<in> set rs. branch_run deps st (turns st zs) Marking = Settled r"
    and view: "undated (cs_db s') = undated db'"
    by (auto simp: by_step(1))
  have "\<forall>(st, r) \<in> set rs. bs st = Settled r" using rs run(2) by_step(2) by force
  from settled_outcomes [OF assms(1) run(2) this]
  have "map (settled rs) steps = map (\<lambda>st. branch_outcome st (bs st)) steps" by simp
  with run(1) view show ?thesis by (simp add: runConcurrently_def)
qed

text \<open>The tables that are equal without their dates are equal to whatever the saga reads next.\<close>

lemma undated_status:
  assumes "undated db = undated db'"
  shows "step_status_of db = step_status_of db'"
proof -
  have key: "row_at step_key k (map undated_step rows) = map_option undated_step (row_at step_key k rows)" for k rows
    by (induction rows) simp_all
  have "map_option undated_step (row_at step_key k (saga_steps db)) =
      map_option undated_step (row_at step_key k (saga_steps db'))" for k
    using assms key [of k "saga_steps db"] key [of k "saga_steps db'"] by (simp add: undated_def)
  from arg_cong [where f = "map_option ss_status", OF this]
  show ?thesis by (simp add: step_status_of_def row_view_def fun_eq_iff option.map_comp comp_def)
qed

text \<open>An example: two branches and a heartbeat, one fetch refused.\<close>

definition branch_deps :: "nat SagaDeps" where
  "branch_deps = \<lparr>instanceId = ''me'', serviceUrls = (\<lambda>_. ''http://s''), step_timeoutMs = 3000, step_maxAttempts = 2,
     step_baseDelayMs = 100, step_maxDelayMs = 2000, lease_ttlMs = 60000, lease_heartbeatMs = 20000,
     dep_fetch = (\<lambda>_ _ _ _ w. (Inl (Primitive ''down''), 0, w)), dep_fate = (\<lambda>_. Stmt_ok), dep_jitter = (\<lambda>_. 0),
     dep_schedule = id\<rparr>"

definition branch_order :: ClaimedOrder where
  "branch_order = \<lparr>orderId = ''A'', sku = ''S'', qty = 1, amount = ''1.00'', failAt = None, compFailAt = None,
     claimed_id = 1, claimed_status = IN_PROGRESS\<rparr>"

definition answered_with :: "int \<Rightarrow> int \<Rightarrow> moment" where
  "answered_with status t = \<lparr>mo_fate = Stmt_ok, mo_answer = Inr \<lparr>fr_status = status,
     fr_json = Inr \<lparr>resp_operation = Fwd CREATE_ORDER, resp_orderId = ''A'', resp_replayed = False, resp_data = []\<rparr>\<rparr>,
     mo_now = t, mo_startedAt = t, mo_finishedAt = t\<rparr>"

definition branch_events :: "branch_event list" where
  "branch_events = (let a = Turn (Fwd CREATE_ORDER) (answered_with 200 1); b = Turn (Fwd CHARGE_PAYMENT) (answered_with 422 2)
     in [a, b, b, Beat 3, a, b, a, b, a])"

theorem branches_one_by_one_witness:
  "\<exists>bs db' s'. let steps = [Fwd CREATE_ORDER, Fwd CHARGE_PAYMENT]; db = \<lparr>saga_orders = [], saga_steps = [], saga_step_attempts = []\<rparr>
     in par_run branch_deps branch_order steps branch_events db = (bs, db') \<and>
        runConcurrently (scripted branch_deps (script_fates branch_deps branch_events steps)) branch_order steps False
          \<lparr>cs_db = db, cs_now = 0, cs_world = script_answers branch_deps branch_events steps, cs_tick = 0,
            cs_heartbeat = None\<rparr> = (Inr (map (\<lambda>st. branch_outcome st (bs st)) steps), s') \<and>
        map (\<lambda>st. out_ok (branch_outcome st (bs st))) steps = [True, False] \<and> undated (cs_db s') = undated db'"
proof -
  let ?A = "Fwd CREATE_ORDER" and ?B = "Fwd CHARGE_PAYMENT"
  let ?steps = "[?A, ?B]" and ?db = "\<lparr>saga_orders = [], saga_steps = [], saga_step_attempts = []\<rparr>"
  obtain bs db' where run: "par_run branch_deps branch_order ?steps branch_events ?db = (bs, db')" by fastforce
  have bs: "bs st = branch_run branch_deps st (turns st branch_events) (par_start ?steps st)" for st
    using par_branches [of branch_deps branch_order branch_events "par_start ?steps" ?db st] run
    by (simp add: par_run_def)
  note eval = branch_run_def branch_events_def Let_def par_start_def answered_with_def statement_ends_def
    next_attempt_def call_result_def response_ok_def will_retry_def http_error_def branch_deps_def
  have A: "bs ?A = Settled (Inr \<lparr>out_step = ?A, out_ok = True, out_error = None\<rparr>)" by (simp add: bs eval)
  have B: "bs ?B = Settled (Inr \<lparr>out_step = ?B, out_ok = False, out_error = Some (http_error ?B 422)\<rparr>)"
    by (simp add: bs eval)
  have "\<forall>st \<in> set ?steps. is_settled (bs st)" by (simp add: A B)
  from branches_one_by_one [OF _ run this, of False 0 None] run A B show ?thesis
    by (auto simp: Let_def branch_outcome_def)
qed

end
