(* ===== verification/StepServices.thy ===== *)
theory StepServices
  imports SagaRun
begin

text \<open>
  The contract between the saga engine and whatever serves its step URLs, and what the engine makes
  of it: a step recorded SUCCEEDED was carried out, through every failure of statements, requests
  and retries, and undo requests are only sent for steps that were. A request once sent may take effect
  at any later time. The locale's world is opaque;
  theory Shop interprets it on the four services.
\<close>

section \<open>Predicates of database and services\<close>

text \<open>What the step rows claim has happened.\<close>

definition agrees :: "('w \<Rightarrow> string \<Rightarrow> step \<Rightarrow> bool) \<Rightarrow> saga_db \<Rightarrow> 'w \<Rightarrow> bool" where
  "agrees did db w \<longleftrightarrow> (\<forall>oid st. step_status_of db oid st = Some S_SUCCEEDED \<longrightarrow> did w oid st)"

definition consistent ::
  "('w \<Rightarrow> string \<Rightarrow> step \<Rightarrow> bool) \<Rightarrow> ('w \<Rightarrow> bool) \<Rightarrow> saga_db \<Rightarrow> 'w \<Rightarrow> bool" where
  "consistent did good db w \<longleftrightarrow> db_ok db \<and> good w \<and> agrees did db w"

lemma agrees_mono:
  assumes "agrees did db w" and "\<And>oid st. did w oid st \<Longrightarrow> did w' oid st"
    and "\<And>oid st. step_status_of db' oid st = Some S_SUCCEEDED \<Longrightarrow> step_status_of db oid st = Some S_SUCCEEDED"
  shows "agrees did db' w'"
  using assms unfolding agrees_def by blast

lemma agrees_beat [simp]: "agrees did (beat deps oid t db) w = agrees did db w"
  by (simp add: agrees_def)

lemma agrees_running: "agrees did db w \<Longrightarrow> agrees did (snd (markStepRunning oid st t db)) w"
  by (erule agrees_mono) (auto simp: sql_simps split: if_splits)

lemma agrees_attempt: "agrees did db w \<Longrightarrow> agrees did (snd (recordAttempt oid st i t db)) w"
  by (simp add: agrees_def sql_simps)

lemma agrees_init: "agrees did db w \<Longrightarrow> agrees did (snd (initSteps oid sts t db)) w"
  by (erule agrees_mono) (auto simp: sql_simps rearm_def split: if_splits option.splits)

lemma agrees_result:
  "agrees did db w \<Longrightarrow> (x = S_SUCCEEDED \<Longrightarrow> did w oid st) \<Longrightarrow>
    agrees did (snd (markStepResult oid st x n e t db)) w"
  by (auto simp: agrees_def sql_simps split: if_splits)

lemma agrees_status: "db_ok db \<Longrightarrow> agrees did (snd (setOrderStatus oid me x c e t db)) w = agrees did db w"
  by (simp add: agrees_def set_status_near)

section \<open>Actions\<close>

text \<open>A statement that keeps a predicate of the database where it runs.\<close>

lemma query_keeps_at:
  assumes "query deps q s = (r, s')" and "db_pred I s" and "\<And>t. I (snd (q t (cs_db s))) (cs_world s)"
  shows "db_pred I s'"
  using assms(1) by (cases rule: query_cases) (use assms(2,3) in \<open>auto simp: db_pred_def\<close>)

lemma run_branches_preserves:
  assumes "\<And>st. st \<in> set sts \<Longrightarrow> preserves P (executeStep deps order st frc)" and "P s"
    and "run_branches deps order frc sts s = (rs, s')"
  shows "P s'"
  using assms
proof (induction sts arbitrary: s rs)
  case (Cons st sts)
  obtain r s1 where 1: "executeStep deps order st frc s = (r, s1)" by fastforce
  obtain rs1 where 2: "run_branches deps order frc sts s1 = (rs1, s')"
    using Cons.prems(3) 1 by (auto split: prod.splits)
  have "P s1" by (rule preservesD [OF Cons.prems(1) Cons.prems(2) 1]) simp
  with Cons.IH [OF _ _ 2] Cons.prems(1) show ?case by simp
qed simp

lemma runConcurrently_preserves:
  assumes "\<And>st. st \<in> set steps \<Longrightarrow> preserves P (executeStep deps order st frc)"
  shows "preserves P (runConcurrently deps order steps frc)"
proof (rule preservesI)
  fix s assume s: "P s"
  obtain rs s' where b: "run_branches deps order frc (arrange deps steps) s = (rs, s')" by fastforce
  have "P s'" by (rule run_branches_preserves [where P = P, OF _ s b]) (use assms in simp)
  with b show "P (snd (runConcurrently deps order steps frc s))"
    by (simp add: runConcurrently_def)
qed

text \<open>What a successful call establishes: some response was good and readable.\<close>

lemma callStep_Inr:
  assumes "\<And>s r s' b. P s \<Longrightarrow> fetch (call_url opts) (call_key opts) (co_body opts) (co_timeoutMs opts) s = (Inr r, s') \<Longrightarrow>
      response_ok r \<Longrightarrow> fr_json r = Inr b \<Longrightarrow> Q s'"
    and "\<And>i. preserves Q (co_onAttempt opts i)"
    and "preserves P (fetch (call_url opts) (call_key opts) (co_body opts) (co_timeoutMs opts))"
    and "\<And>i. preserves P (co_onAttempt opts i)"
    and "\<And>d s. P s \<Longrightarrow> P (rt_sleep rt d s)" and "\<And>s. P s \<Longrightarrow> P (snd (rt_random rt s))"
    and "P s" and "callStep fetch rt opts s = (Inr a, s')"
  shows "Q s'"
proof -
  have est: "Q s1" if "P s0" "call_attempt fetch opts s0 = (Inr b, s1)" for s0 b s1
    using that(2) assms(1) [OF that(1)]
    by (auto simp: call_attempt_def Let_def call_url_def call_key_def split: prod.splits sum.splits if_splits)
  show ?thesis
  proof (rule retry_loop_Inr [where P = P and Q = Q and fn = "\<lambda>_. call_attempt fetch opts"
        and opts = "call_retry_options rt opts" and attempt = 1 and s = s and s' = s' and a = a])
    show "retry_loop (\<lambda>_. call_attempt fetch opts) (call_retry_options rt opts) 1 (Primitive ''undefined'') s = (Inr a, s')"
      using assms(8) by (simp add: callStep_def withRetry_def)
  qed (use assms est in \<open>auto simp: call_retry_options_def intro: call_attempt_preserves\<close>)
qed

section \<open>The contract\<close>

locale step_services =
  fixes deps :: "'w SagaDeps"
    and did :: "'w \<Rightarrow> string \<Rightarrow> step \<Rightarrow> bool"
    and sent :: "'w \<Rightarrow> string \<Rightarrow> step \<Rightarrow> bool"
    and good :: "'w \<Rightarrow> bool"
  assumes answered: "good w \<Longrightarrow> post_step deps order st frc w = (Inr r, d, w') \<Longrightarrow> response_ok r \<Longrightarrow>
      fr_json r = Inr b \<Longrightarrow> did w' (orderId order) st"
    and lasting: "good w \<Longrightarrow> post_step deps order st frc w = (p, d, w') \<Longrightarrow> did w oid st' \<Longrightarrow> did w' oid st'"
    and own_only: "good w \<Longrightarrow> post_step deps order st frc w = (p, d, w') \<Longrightarrow> did w' oid st' \<Longrightarrow>
      did w oid st' \<or> sent w' oid st'"
    and sent_only: "good w \<Longrightarrow> post_step deps order st frc w = (p, d, w') \<Longrightarrow> sent w' oid st' \<Longrightarrow>
      sent w oid st' \<or> oid = orderId order \<and> st' = st"
    and do_good: "good w \<Longrightarrow> post_step deps order (Fwd f) frc w = (p, d, w') \<Longrightarrow> good w'"
    and undo_good: "good w \<Longrightarrow> did w (orderId order) (Fwd f) \<Longrightarrow>
      post_step deps order (Comp (COMPENSATION_OF f)) frc w = (p, d, w') \<Longrightarrow> good w'"
begin

abbreviation both :: "('w \<Rightarrow> bool) \<Rightarrow> saga_db \<Rightarrow> 'w \<Rightarrow> bool" where
  "both K db w \<equiv> consistent did good db w \<and> K w"

text \<open>A request the services accept in any good state that satisfies \<open>K\<close>.\<close>

definition safe :: "('w \<Rightarrow> bool) \<Rightarrow> ClaimedOrder \<Rightarrow> bool \<Rightarrow> step \<Rightarrow> bool" where
  "safe K order frc st \<longleftrightarrow> (\<forall>w p d w'. good w \<longrightarrow> K w \<longrightarrow> post_step deps order st frc w = (p, d, w') \<longrightarrow>
     good w' \<and> K w')"

lemma keeps_call_both:
  assumes "safe K order frc st"
  shows "keeps_call deps order frc (both K) st"
proof -
  have beat: "keeps_beat deps (both K)" by (simp add: keeps_beat_def consistent_def)
  have run: "both K (snd (markStepRunning (orderId order) st t db)) w" if "both K db w" for t db w
    using that by (simp add: consistent_def markStepRunning_frame agrees_running)
  have att: "both K (snd (recordAttempt (orderId order) st i t db)) w" if "both K db w" for i t db w
    using that by (simp add: consistent_def recordAttempt_frame agrees_attempt)
  have post: "both K db (snd (snd (post_step deps order st frc w)))" if I: "both K db w" for db w
  proof -
    obtain p d w' where post: "post_step deps order st frc w = (p, d, w')" by (rule prod_cases3)
    from I have g: "good w" "K w" "db_ok db" "agrees did db w" by (simp_all add: consistent_def)
    have "agrees did db w'" by (rule agrees_mono [OF g(4)]) (use lasting [OF g(1) post] in auto)
    moreover have "good w' \<and> K w'" using assms g(1,2) post unfolding safe_def by blast
    ultimately show ?thesis using g(3) post by (simp add: consistent_def)
  qed
  show ?thesis unfolding keeps_call_def using beat run att post by blast
qed

text \<open>A call that is answered was carried out.\<close>

lemma call_established:
  assumes safe: "safe K order frc st" and x: "db_pred (both K) (fst x)"
    and c: "callStep (coord_fetch deps) (coord_runtime deps) (step_call_options deps order st frc) x = (Inr a, x')"
  shows "did (cs_world (fst x')) (orderId order) st"
proof -
  let ?oid = "orderId order"
  let ?P = "\<lambda>x :: 'w coord \<times> nat. db_pred (both K) (fst x)"
  let ?Q = "\<lambda>x :: 'w coord \<times> nat. did (cs_world (fst x)) ?oid st"
  note call = keeps_call_both [OF safe]
  show ?thesis
  proof (rule callStep_Inr [where P = ?P and Q = ?Q, OF _ _ _ _ _ _ x c])
    fix y r y' b
    assume y: "?P y" and f: "coord_fetch deps (call_url (step_call_options deps order st frc))
        (call_key (step_call_options deps order st frc)) (co_body (step_call_options deps order st frc))
        (co_timeoutMs (step_call_options deps order st frc)) y = (Inr r, y')"
      and ok: "response_ok r" "fr_json r = Inr b"
    obtain q n where yq: "y = (q, n)" by fastforce
    obtain p d w' where post: "post_step deps order st frc (cs_world q) = (p, d, w')" by (metis prod.collapse)
    with f yq have "p = Inr r" "cs_world (fst y') = w'"
      by (auto simp: coord_fetch_def post_step_def split: prod.splits)
    with answered [OF _ post [unfolded \<open>p = Inr r\<close>] ok] y yq show "?Q y'"
      by (simp add: db_pred_def consistent_def)
  next
    fix i
    show "preserves ?Q (co_onAttempt (step_call_options deps order st frc) i)"
    proof (rule preservesI)
      fix y assume "?Q y"
      then show "?Q (snd (co_onAttempt (step_call_options deps order st frc) i y))"
        by (auto simp: on_attempt_def on_fst_def split: prod.splits elim!: query_cases)
    qed
  next
    show "db_pred (both K) (fst (rt_sleep (coord_runtime deps) d y))"
      if "db_pred (both K) (fst y)" for d and y :: "'w coord \<times> nat"
      using that call by (auto simp: coord_runtime_def keeps_call_def elapse_keeps split: prod.splits)
    show "db_pred (both K) (fst (snd (rt_random (coord_runtime deps) y)))"
      if "db_pred (both K) (fst y)" for y :: "'w coord \<times> nat"
      using that by (auto simp: coord_runtime_def db_pred_def split: prod.splits)
  qed (use coord_fetch_keeps [OF call] on_attempt_keeps [OF call] in simp_all)
qed

lemma mark_keeps:
  assumes "query deps (markStepResult (orderId order) st x n e) q = (r, q')" and "db_pred (both K) q"
    and "x = S_SUCCEEDED \<Longrightarrow> did (cs_world q) (orderId order) st"
  shows "db_pred (both K) q'"
  by (rule query_keeps_at [OF assms(1,2)])
     (use assms(2,3) in \<open>auto simp: db_pred_def consistent_def sql_simps intro: agrees_result\<close>)

lemma try_keeps:
  assumes safe: "safe K order frc st" and s: "db_pred (both K) s"
    and t: "execute_try deps order st frc (s, 0) = (t, (q1, n1))"
  shows "db_pred (both K) q1"
proof -
  let ?oid = "orderId order"
  let ?P = "\<lambda>x :: 'w coord \<times> nat. db_pred (both K) (fst x)"
  let ?run = "on_fst (query deps (markStepRunning ?oid st)) :: ('w coord \<times> nat, js_value, unit) act"
  let ?call = "callStep (coord_fetch deps) (coord_runtime deps) (step_call_options deps order st frc)"
  note call = keeps_call_both [OF safe]
  have run: "preserves ?P ?run"
    by (rule preserves_on_fst, rule preserves_query)
       (use call in \<open>simp add: keeps_call_def\<close>)
  let ?pre = "seq_act ?run ?call"
  have pre: "preserves ?P ?pre" by (rule preserves_seq [OF run call_keeps [OF call]])
  obtain r q n where p: "?pre (s, 0) = (r, (q, n))" by (metis prod.collapse)
  have q: "db_pred (both K) q" using preservesD [OF pre _ p] s by simp
  have did: "did (cs_world q) ?oid st" if "r = Inr a" for a
  proof -
    obtain r0 x0 where r0: "?run (s, 0) = (r0, x0)" by (cases "?run (s, 0)")
    with p that have c: "?call x0 = (Inr a, (q, n))"
      by (cases r0) (auto simp: seq_act_def bind_act_def)
    have "?P x0" using preservesD [OF run _ r0] s by simp
    from call_established [OF safe this c] show ?thesis by simp
  qed
  show ?thesis
  proof (cases r)
    case (Inl e)
    with t p q show ?thesis
      unfolding execute_try_def seq_bind_assoc bind_act_Inl [where m = ?pre, OF p [unfolded Inl]] by simp
  next
    case (Inr a)
    obtain z q2 where z: "query deps (markStepResult ?oid st S_SUCCEEDED n None) q = (z, q2)" by fastforce
    with t have "q1 = q2"
      unfolding execute_try_def seq_bind_assoc bind_act_Inr [where m = ?pre, OF p [unfolded Inr]]
      by (cases z) (auto simp: seq_act_def bind_act_def on_fst_def ret_act_def)
    with mark_keeps [OF z q did [OF Inr]] show ?thesis by simp
  qed
qed

lemma execute_keeps:
  assumes safe: "safe K order frc st"
  shows "preserves (db_pred (both K)) (executeStep deps order st frc)"
proof (rule preservesI)
  fix s assume s: "db_pred (both K) s"
  obtain t q1 n1 where t: "execute_try deps order st frc (s, 0) = (t, (q1, n1))" by (metis prod.collapse)
  have q1: "db_pred (both K) q1" by (rule try_keeps [OF safe s t])
  show "db_pred (both K) (snd (executeStep deps order st frc s))"
  proof (cases t)
    case (Inl e)
    let ?m = "markStepResult (orderId order) st S_FAILED n1 (Some (error_message e))"
    obtain z q2 where z: "query deps ?m q1 = (z, q2)" by fastforce
    have "db_pred (both K) q2" by (rule mark_keeps [OF z q1]) simp
    with t Inl z show ?thesis
      by (cases z) (simp_all add: executeStep_def seq_act_def bind_act_def ret_act_def)
  qed (use t q1 in \<open>simp add: executeStep_def\<close>)
qed

lemma run_keeps:
  assumes "\<And>st. st \<in> set steps \<Longrightarrow> safe K order frc st"
  shows "preserves (db_pred (both K)) (runConcurrently deps order steps frc)"
  by (rule runConcurrently_preserves) (rule execute_keeps, rule assms)

lemma init_keeps: "preserves (db_pred (both K)) (query deps (initSteps oid sts))"
  by (rule preserves_query) (simp add: consistent_def initSteps_frame agrees_init)

lemma status_keeps: "preserves (db_pred (both K)) (query deps (setOrderStatus oid me x c e))"
  by (rule preserves_query) (simp add: consistent_def set_status_near agrees_status)

lemma finish_keeps: "preserves (db_pred (both K)) (finish_order deps order x)"
  unfolding finish_order_def by (intro preserves_bind status_keeps preserves_ret)

lemma skip_keeps: "preserves (db_pred (both K)) (mark_skipped deps oid needed cs)"
  by (rule mark_skipped_keeps) (auto simp: consistent_def markStepResult_frame intro: agrees_result)

text \<open>Forward steps may always be sent, and undo nothing.\<close>

definition never_undone :: "string \<Rightarrow> 'w \<Rightarrow> bool" where
  "never_undone oid w \<longleftrightarrow> (\<forall>c. \<not> did w oid (Comp c) \<and> \<not> sent w oid (Comp c))"

lemma forward_safe:
  assumes "K = (\<lambda>_. True) \<or> K = never_undone oid"
  shows "safe K order frc (Fwd f)"
  unfolding safe_def
proof (intro allI impI)
  fix w p d w' assume g: "good w" "K w" and post: "post_step deps order (Fwd f) frc w = (p, d, w')"
  have "K w'"
  proof (cases "K = (\<lambda>_. True)")
    case False
    with assms have K: "K = never_undone oid" by blast
    have sent: "\<not> sent w' oid (Comp c)" for c
      using sent_only [OF g(1) post, of oid "Comp c"] g(2) K by (auto simp: never_undone_def)
    have "\<not> did w' oid (Comp c)" for c
      using own_only [OF g(1) post, of oid "Comp c"] sent [of c] g(2) K by (auto simp: never_undone_def)
    with sent K show ?thesis by (simp add: never_undone_def)
  qed simp
  with do_good [OF g(1) post] show "good w' \<and> K w'" by simp
qed

lemma forward_keeps:
  assumes "K = (\<lambda>_. True) \<or> K = never_undone oid"
  shows "preserves (db_pred (both K)) (forward_phase deps order)"
  unfolding forward_phase_def
  by (intro preserves_seq preserves_bind init_keeps run_keeps preserves_read)
     (use forward_safe [OF assms] in auto)

text \<open>An undo is sent for a recorded success only, and so for a step that was carried out.\<close>

lemma undo_safe:
  assumes "f \<in> F"
  shows "safe (\<lambda>w. \<forall>f \<in> F. did w (orderId order) (Fwd f)) order frc (Comp (COMPENSATION_OF f))"
  unfolding safe_def
proof (intro allI impI conjI)
  fix w p d w' assume g: "good w" "\<forall>f \<in> F. did w (orderId order) (Fwd f)"
    and post: "post_step deps order (Comp (COMPENSATION_OF f)) frc w = (p, d, w')"
  show "good w'" by (rule undo_good [OF g(1) _ post]) (use g assms in simp)
  show "\<forall>f \<in> F. did w' (orderId order) (Fwd f)" using g lasting [OF g(1) post] by blast
qed

lemma compensate_keeps: "preserves (db_pred (both (\<lambda>_. True))) (compensate deps order frc)"
proof (rule preservesI)
  fix s assume s: "db_pred (both (\<lambda>_. True)) s"
  let ?oid = "orderId order"
  define F where "F = {f. step_status_of (cs_db s) ?oid (Fwd f) = Some S_SUCCEEDED}"
  let ?K = "\<lambda>w. \<forall>f \<in> F. did w ?oid (Fwd f)"
  obtain r0 s0 where q0: "query deps (getSucceededForwardSteps ?oid) s = (r0, s0)"
    by (cases "query deps (getSucceededForwardSteps ?oid) s")
  have s0: "cs_db s0 = cs_db s" "cs_world s0 = cs_world s"
    using q0 by (cases rule: query_cases; auto)+
  have K: "db_pred (both ?K) s0"
    using s s0 by (auto simp: db_pred_def consistent_def agrees_def F_def)
  have ok: "db_ok (cs_db s)" using s by (simp add: db_pred_def consistent_def)
  show "db_pred (both (\<lambda>_. True)) (snd (compensate deps order frc s))"
  proof (cases r0)
    case (Inl e)
    with q0 s s0 show ?thesis by (simp add: compensate_def bind_act_Inl db_pred_def)
  next
    case (Inr succeeded)
    have needed: "safe ?K order frc (Comp c)" if "c \<in> set (map COMPENSATION_OF succeeded)" for c
    proof -
      from that obtain f where f: "f \<in> set succeeded" "c = COMPENSATION_OF f" by auto
      then have "f \<in> F"
        using query_Inr_db [OF q0 [unfolded Inr]] succeeded_forward_iff [OF ok, of f ?oid]
        by (simp add: F_def)
      then show ?thesis unfolding f(2) by (rule undo_safe)
    qed
    let ?needed = "map COMPENSATION_OF succeeded"
    let ?toRun = "filter (List.member ?needed) COMPENSATION_STEPS"
    let ?rest = "seq_act (query deps (initSteps ?oid (map Comp COMPENSATION_STEPS)))
           (seq_act (mark_skipped deps ?oid ?needed COMPENSATION_STEPS)
             (if ?toRun = [] then ret_act CANCELLED
              else bind_act (runConcurrently deps order (map Comp ?toRun) frc) (\<lambda>outcomes.
                ret_act (if filter (\<lambda>out. \<not> out_ok out) outcomes = [] then CANCELLED else NEEDS_ATTENTION))))"
    have run: "preserves (db_pred (both ?K)) (runConcurrently deps order (map Comp ?toRun) frc)"
      by (rule run_keeps) (use needed in auto)
    have "preserves (db_pred (both ?K)) ?rest"
      by (intro preserves_seq init_keeps skip_keeps, cases "?toRun = []")
         (simp_all only: if_True if_False simp_thms preserves_ret preserves_bind [OF run preserves_ret])
    then have "db_pred (both ?K) (snd (?rest s0))" using K by (simp add: preserves_def)
    moreover have "compensate deps order frc s = ?rest s0"
      using q0 Inr by (simp only: compensate_def bind_act_Inr Let_def)
    ultimately show ?thesis by (simp add: db_pred_def)
  qed
qed

lemma rollback_keeps:
  "preserves (db_pred (both (\<lambda>_. True))) (bind_act (compensate deps order frc) (finish_order deps order'))"
  by (rule preserves_bind [OF compensate_keeps finish_keeps])

lemmas plain_keeps = finish_keeps [where K = "\<lambda>_. True", simplified]
  status_keeps [where K = "\<lambda>_. True", simplified] compensate_keeps [simplified] rollback_keeps [simplified]
  forward_keeps [where K = "\<lambda>_. True", simplified]

lemma saga_keeps: "preserves (db_pred (consistent did good)) (saga_body deps order)"
  by (auto simp: saga_body_def Let_def intro!: plain_keeps preserves_bind)

lemma runSaga_keeps:
  assumes "consistent did good (cs_db s) (cs_world s)" and "runSaga deps order s = (r, s')"
  shows "consistent did good (cs_db s') (cs_world s')"
proof -
  obtain s1 where b: "saga_body deps order (startHeartbeat (orderId order) s) = (r, s1)"
    and s1: "cs_db s' = cs_db s1" "cs_world s' = cs_world s1" using runSaga_body [OF assms(2)] by auto
  from preservesD [OF saga_keeps _ b] assms(1) show ?thesis by (simp add: db_pred_def s1)
qed

lemma retryCompensation_keeps:
  assumes "consistent did good (cs_db s) (cs_world s)" and "retryCompensation deps order s = (r, s')"
  shows "consistent did good (cs_db s') (cs_world s')"
  using preservesD [OF rollback_keeps _ assms(2) [unfolded retryCompensation_def]] assms(1)
  by (simp add: db_pred_def)

text \<open>An order that was placed is carried out at every service, and nothing of it was undone.\<close>

lemma placed:
  assumes "consistent did good (cs_db s) (cs_world s)" and "never_undone (orderId order) (cs_world s)"
    and "runSaga deps order s = (Inr PLACED, s')"
  shows "did (cs_world s') (orderId order) (Fwd f) \<and> never_undone (orderId order) (cs_world s')"
proof -
  let ?oid = "orderId order"
  let ?s = "startHeartbeat ?oid s"
  obtain s1 where b: "saga_body deps order ?s = (Inr PLACED, s1)"
    and s1: "cs_db s' = cs_db s1" "cs_world s' = cs_world s1" using runSaga_body [OF assms(3)] by auto
  have ok: "db_ok (cs_db s)" using assms(1) by (simp add: consistent_def)
  have rolled: "bind_act (compensate deps o' frc) (finish_order deps o'') s2 \<noteq> (Inr PLACED, s1)" if "db_ok (cs_db s2)" for o' o'' frc s2
  proof
    assume run: "bind_act (compensate deps o' frc) (finish_order deps o'') s2 = (Inr PLACED, s1)"
    obtain p s3 where c: "compensate deps o' frc s2 = (p, s3)" by (cases "compensate deps o' frc s2")
    from compensate_result [where J = "\<lambda>_. True", OF _ _ that c] have "p \<noteq> Inr PLACED"
      by (auto simp: undo_calls_keep_def)
    with run c show False
      by (cases p) (auto simp: bind_act_def finish_order_def ret_act_def split: prod.splits sum.splits)
  qed
  have new: "claimed_status order \<noteq> COMPENSATING"
    using b rolled [of ?s] ok by (auto simp: saga_body_def)
  obtain p s2 where f: "forward_phase deps order ?s = (p, s2)" by (cases "forward_phase deps order ?s")
  have s2: "db_pred (both (never_undone ?oid)) s2"
    by (rule preservesD [OF forward_keeps _ f]) (use assms in \<open>auto simp: db_pred_def\<close>)
  obtain outs where p: "p = Inr outs"
    using b f new by (cases p) (auto simp: saga_body_def bind_act_Inl)
  have ok_outs: "filter (\<lambda>out. \<not> out_ok out) outs = []"
  proof (rule ccontr)
    assume bad: "filter (\<lambda>out. \<not> out_ok out) outs \<noteq> []"
    let ?q = "query deps (setOrderStatus ?oid (instanceId deps) COMPENSATING False
        (Some (first_error_text (filter (\<lambda>out. \<not> out_ok out) outs))))"
    obtain p3 s3 where q: "?q s2 = (p3, s3)" by (cases "?q s2")
    have "db_pred (both (\<lambda>_. True)) s3"
      by (rule preservesD [OF status_keeps _ q]) (use s2 in \<open>simp add: db_pred_def\<close>)
    then have "db_ok (cs_db s3)" by (simp add: db_pred_def consistent_def)
    from rolled [OF this] b f new p bad q show False
      by (cases p3) (auto simp: saga_body_def bind_act_Inr bind_act_Inl Let_def)
  qed
  with b f new p have fin: "finish_order deps order PLACED s2 = (Inr PLACED, s1)"
    by (simp add: saga_body_def bind_act_Inr)
  have end_: "db_pred (both (never_undone ?oid)) s1" by (rule preservesD [OF finish_keeps s2 fin])
  from saga_forward_result [where J = "\<lambda>_. True", OF _ _ _ _ new b] ok
  have "step_status_of (cs_db s1) ?oid (Fwd f) = Some S_SUCCEEDED"
    by (simp add: forward_calls_keep_def status_fits_def)
  with end_ show ?thesis by (auto simp: db_pred_def consistent_def agrees_def s1)
qed

text \<open>An order that was cancelled had every recorded success undone.\<close>

lemma cancelled:
  assumes "consistent did good (cs_db s) (cs_world s)"
    and "runSaga deps order s = (Inr CANCELLED, s') \<or> retryCompensation deps order s = (Inr CANCELLED, s')"
  shows "if step_status_of (cs_db s') (orderId order) (Fwd f) = Some S_SUCCEEDED
    then did (cs_world s') (orderId order) (Comp (COMPENSATION_OF f))
    else step_status_of (cs_db s') (orderId order) (Comp (COMPENSATION_OF f)) = Some S_SKIPPED"
proof -
  have ok: "db_ok (cs_db s)" using assms(1) by (simp add: consistent_def)
  have fits: "status_fits (cs_db s') (orderId order) CANCELLED"
    using assms(2)
  proof
    assume run: "runSaga deps order s = (Inr CANCELLED, s')"
    obtain s1 where b: "saga_body deps order (startHeartbeat (orderId order) s) = (Inr CANCELLED, s1)"
      and s1: "cs_db s' = cs_db s1" using runSaga_body [OF run] by auto
    show ?thesis
    proof (cases "claimed_status order = COMPENSATING")
      case True
      with b have "bind_act (compensate deps order False) (finish_order deps order)
        (startHeartbeat (orderId order) s) = (Inr CANCELLED, s1)" by (simp add: saga_body_def)
      from compensate_finish_result [where J = "\<lambda>_. True", OF _ _ _ this] ok s1
      show ?thesis by (simp add: undo_calls_keep_def)
    next
      case False
      from saga_forward_result [where J = "\<lambda>_. True", OF _ _ _ _ False b] ok s1
      show ?thesis by (simp add: forward_calls_keep_def)
    qed
  next
    assume "retryCompensation deps order s = (Inr CANCELLED, s')"
    from compensate_finish_result [where J = "\<lambda>_. True", OF _ _ _ this [unfolded retryCompensation_def]] ok
    show ?thesis by (simp add: undo_calls_keep_def)
  qed
  have "consistent did good (cs_db s') (cs_world s')"
    using assms runSaga_keeps retryCompensation_keeps by blast
  with fits show ?thesis
    by (auto simp: status_fits_def classified_def consistent_def agrees_def split: if_splits)
qed

end

end
