(* ===== verification/BranchWorld.thy ===== *)
theory BranchWorld
  imports Branches StepServices
begin

text \<open>
  The interleaved branches in front of the services: a fetch is answered by the world at some moment
  between the events of the others. Whatever the interleaving, and wherever it stops (the process may
  die at any point), the step rows stay true: the contract of theory StepServices, statement by
  statement.
\<close>

type_synonym 'w branches_world = "((step \<Rightarrow> branch) \<times> saga_db) \<times> 'w"

fun world_event :: "'w SagaDeps \<Rightarrow> ClaimedOrder \<Rightarrow> bool \<Rightarrow> branch_event \<Rightarrow> 'w branches_world \<Rightarrow> 'w branches_world" where
  "world_event deps order frc (Turn st m) ((bs, db), w) =
     (case bs st of
        Calling n \<Rightarrow> (case post_step deps order st frc w of (answer, d, w') \<Rightarrow>
          (par_event deps order (Turn st (m\<lparr>mo_answer := answer\<rparr>)) (bs, db), w'))
      | _ \<Rightarrow> (par_event deps order (Turn st m) (bs, db), w))"
| "world_event deps order frc (Beat t) (p, w) = (par_event deps order (Beat t) p, w)"

definition world_run ::
  "'w SagaDeps \<Rightarrow> ClaimedOrder \<Rightarrow> bool \<Rightarrow> step list \<Rightarrow> branch_event list \<Rightarrow> saga_db \<Rightarrow> 'w \<Rightarrow> 'w branches_world" where
  "world_run deps order frc steps zs db w = fold (world_event deps order frc) zs ((par_start steps, db), w)"

text \<open>A branch that has its answer: the step is about to be recorded, or was.\<close>

fun answered_branch :: "branch \<Rightarrow> bool" where
  "answered_branch (Audit_ok _) = True"
| "answered_branch (Storing_ok _) = True"
| "answered_branch (Settled (Inr out)) = out_ok out"
| "answered_branch _ = False"

lemma answered_next:
  "answered_branch (branch_next deps st m b) \<Longrightarrow> answered_branch b \<or>
    (\<exists>n r body. b = Calling n \<and> mo_answer m = Inr r \<and> response_ok r \<and> fr_json r = Inr body)"
  by (cases b) (auto simp: statement_ends_def next_attempt_def call_result_def split: stmt_fate.splits sum.splits if_splits)

context step_services
begin

definition branches_true :: "('w \<Rightarrow> bool) \<Rightarrow> ClaimedOrder \<Rightarrow> step set \<Rightarrow> 'w branches_world \<Rightarrow> bool" where
  "branches_true K order S x = (case x of ((bs, db), w) \<Rightarrow> both K db w \<and>
     (\<forall>st. (st \<notin> S \<longrightarrow> is_settled (bs st)) \<and> (answered_branch (bs st) \<longrightarrow> did w (orderId order) st)))"

lemma write_true:
  assumes "both K db w" and "answered_branch b \<longrightarrow> did w (orderId order) st"
  shows "both K (branch_write deps order st m b db) w"
proof (cases "issued deps m b")
  case (Some x)
  then show ?thesis
    using assms by (cases b; cases x)
      (auto simp: branch_write_def issued_def consistent_def sql_simps agrees_running agrees_attempt
        intro: agrees_result split: if_splits)
qed (use assms in \<open>simp add: branch_write_def\<close>)

lemma turn_true:
  assumes x: "branches_true K order S ((bs, db), w)"
    and w': "both K db w'" "\<And>oid st'. did w oid st' \<Longrightarrow> did w' oid st'"
    and new: "answered_branch (branch_next deps st m (bs st)) \<Longrightarrow> did w' (orderId order) st"
  shows "branches_true K order S (par_event deps order (Turn st m) (bs, db), w')"
proof -
  have own: "answered_branch (bs st) \<longrightarrow> did w' (orderId order) st"
    using x w'(2) by (simp add: branches_true_def)
  have "both K (branch_write deps order st m (bs st) db) w'"
    using write_true [where K = K and db = db and w = w' and b = "bs st" and order = order and st = st and m = m] w'(1) own by blast
  moreover have "st \<notin> S \<longrightarrow> is_settled (branch_next deps st m (bs st))"
    using x settled_stays [of "bs st" deps st m] by (auto simp: branches_true_def)
  ultimately show ?thesis using x w'(2) new by (auto simp: branches_true_def)
qed

lemma event_true:
  assumes safe: "\<And>st. st \<in> S \<Longrightarrow> safe K order frc st" and x: "branches_true K order S x"
  shows "branches_true K order S (world_event deps order frc z x)"
proof -
  obtain bs db w where p: "x = ((bs, db), w)" by (metis prod.collapse)
  from x have K: "both K db w" by (simp add: p branches_true_def)
  show ?thesis
  proof (cases z)
    case (Beat t)
    with x show ?thesis by (simp add: p branches_true_def consistent_def)
  next
    case (Turn st m)
    show ?thesis
    proof (cases "\<exists>n. bs st = Calling n")
      case True
      then obtain n where n: "bs st = Calling n" by blast
      obtain a d w' where post: "post_step deps order st frc w = (a, d, w')" by (rule prod_cases3)
      have "st \<in> S" using x n by (auto simp: p branches_true_def dest: spec [where x = st])
      from safe [OF this] post K have "good w' \<and> K w'" by (auto simp: safe_def consistent_def)
      moreover have lasts: "did w oid st' \<Longrightarrow> did w' oid st'" for oid st'
        using lasting [OF _ post] K by (simp add: consistent_def)
      ultimately have "both K db w'" using K by (auto simp: consistent_def intro: agrees_mono)
      moreover have "did w' (orderId order) st"
        if "answered_branch (branch_next deps st (m\<lparr>mo_answer := a\<rparr>) (bs st))"
        using answered_next [OF that] answered [OF _ _, of w order st frc] post K n by (auto simp: consistent_def)
      ultimately show ?thesis
        using turn_true [of K order S bs db w w' st "m\<lparr>mo_answer := a\<rparr>"] x lasts by (simp add: p Turn n post)
    next
      case False
      have "did w (orderId order) st" if "answered_branch (branch_next deps st m (bs st))"
        using answered_next [OF that] False x by (auto simp: p branches_true_def)
      moreover have "world_event deps order frc z x = (par_event deps order (Turn st m) (bs, db), w)"
        using False by (cases "bs st") (simp_all add: p Turn)
      ultimately show ?thesis using turn_true [OF x [unfolded p] K] by simp
    qed
  qed
qed

lemma run_true:
  assumes "\<And>st. st \<in> set steps \<Longrightarrow> safe K order frc st" and "both K db w"
    and "world_run deps order frc steps zs db w = ((bs, db'), w')"
  shows "both K db' w'"
proof -
  have start: "branches_true K order (set steps) ((par_start steps, db), w)"
    using assms(2) by (simp add: branches_true_def par_start_def)
  have "branches_true K order (set steps) (fold (world_event deps order frc) zs ((par_start steps, db), w))"
    using start by (induction zs arbitrary: db w rule: rev_induct) (simp_all add: event_true assms(1))
  with assms(3) show ?thesis by (simp add: world_run_def branches_true_def)
qed

text \<open>The steps \<open>runConcurrently\<close> is called with: forward steps, and undos of recorded successes.\<close>

lemma midway_true:
  assumes c: "consistent did good db w"
    and steps: "\<forall>st \<in> set steps. \<exists>f. st = Fwd f \<or>
      st = Comp (COMPENSATION_OF f) \<and> step_status_of db (orderId order) (Fwd f) = Some S_SUCCEEDED"
    and run: "world_run deps order frc steps zs db w = ((bs, db'), w')"
  shows "consistent did good db' w'"
proof -
  let ?oid = "orderId order"
  define F where "F = {f. step_status_of db ?oid (Fwd f) = Some S_SUCCEEDED}"
  let ?K = "\<lambda>w. \<forall>f \<in> F. did w ?oid (Fwd f)"
  have K: "both ?K db w" using c by (auto simp: consistent_def agrees_def F_def)
  have fwd: "safe ?K order frc (Fwd f)" for f
    unfolding safe_def using do_good lasting by blast
  have "safe ?K order frc st" if "st \<in> set steps" for st
    using steps that fwd undo_safe [of _ F order frc] by (auto simp: F_def)
  from run_true [OF this K run] show ?thesis by simp
qed

end

end
