(* ===== verification/SagaSteps.thy ===== *)
theory SagaSteps
  imports BranchWorld
begin

text \<open>
  saga.ts cut at its awaits: the constructors of \<open>saga_pc\<close> say what a run of runSaga or
  retryCompensation waits for. A run may be interleaved with anything else between two of its events, and dies by
  having no more of them. Theory Saga's big steps are runs of this machine, and an undisturbed run of the machine
  keeps what theory StepServices says of them; theory Fleet lets several coordinators run over the same tables.
\<close>

section \<open>A saga between two awaits\<close>

text \<open>\<open>Undo_marks needed c rest\<close> waits for marking \<open>c\<close> SKIPPED and has \<open>rest\<close> still to go through.\<close>

datatype saga_pc =
    Init_forward
  | Read_statuses
  | Forward "step list" "step \<Rightarrow> branch"
  | Set_compensating string
  | Read_succeeded
  | Init_undo "compensation_step list"
  | Undo_marks "compensation_step list" compensation_step "compensation_step list"
  | Undo "compensation_step list" "step \<Rightarrow> branch"
  | Set_final order_status
  | Over "js_value + order_status"

definition saga_start :: "ClaimedOrder \<Rightarrow> saga_pc" where
  "saga_start order = (if claimed_status order = COMPENSATING then Read_succeeded else Init_forward)"

text \<open>An awaited statement of the saga itself: when it throws, the saga is aborted.\<close>

definition awaited ::
  "moment \<Rightarrow> (int \<Rightarrow> saga_db \<Rightarrow> 'a \<times> saga_db) \<Rightarrow> ('a \<Rightarrow> saga_pc) \<Rightarrow> saga_db \<Rightarrow> saga_pc \<times> saga_db" where
  "awaited m q go_on db =
    (case mo_fate m of
       Stmt_ok \<Rightarrow> (go_on (fst (q (mo_now m) db)), snd (q (mo_now m) db))
     | Stmt_fails e \<Rightarrow> (Over (Inl e), db)
     | Stmt_ack_lost e \<Rightarrow> (Over (Inl e), snd (q (mo_now m) db)))"

definition all_settled :: "step list \<Rightarrow> (step \<Rightarrow> branch) \<Rightarrow> bool" where
  "all_settled steps bs = list_all (\<lambda>st. is_settled (bs st)) steps"

definition failed_branches :: "step list \<Rightarrow> (step \<Rightarrow> branch) \<Rightarrow> StepOutcome list" where
  "failed_branches steps bs = filter (\<lambda>out. \<not> out_ok out) (map (\<lambda>st. branch_outcome st (bs st)) steps)"

text \<open>\<open>pending\<close>, and what follows the forward steps.\<close>

definition forward_start :: "(step \<rightharpoonup> step_status) \<Rightarrow> saga_pc" where
  "forward_start existing =
    (let pending = filter (\<lambda>st. existing st \<noteq> Some S_SUCCEEDED) (map Fwd FORWARD_STEPS)
     in Forward pending (par_start pending))"

definition forward_over :: "step list \<Rightarrow> (step \<Rightarrow> branch) \<Rightarrow> saga_pc" where
  "forward_over steps bs =
    (if failed_branches steps bs = [] then Set_final PLACED
     else Set_compensating (first_error_text (failed_branches steps bs)))"

text \<open>The loop that marks the undos nobody needs, and the undos.\<close>

definition undo_start :: "compensation_step list \<Rightarrow> saga_pc" where
  "undo_start needed =
    (let toRun = filter (List.member needed) COMPENSATION_STEPS
     in if toRun = [] then Set_final CANCELLED else Undo toRun (par_start (map Comp toRun)))"

fun mark_next :: "compensation_step list \<Rightarrow> compensation_step list \<Rightarrow> saga_pc" where
  "mark_next needed [] = undo_start needed"
| "mark_next needed (c # cs) = (if List.member needed c then mark_next needed cs else Undo_marks needed c cs)"

definition undo_over :: "compensation_step list \<Rightarrow> (step \<Rightarrow> branch) \<Rightarrow> saga_pc" where
  "undo_over toRun bs =
    Set_final (if failed_branches (map Comp toRun) bs = [] then CANCELLED else NEEDS_ATTENTION)"

type_synonym 'w saga_moment = "(saga_pc \<times> saga_db) \<times> 'w"

text \<open>An event of a branch or, once all have settled, the end of \<open>Promise.allSettled\<close>.\<close>

definition branches_go ::
  "'w SagaDeps \<Rightarrow> ClaimedOrder \<Rightarrow> bool \<Rightarrow> step list \<Rightarrow> ((step \<Rightarrow> branch) \<Rightarrow> saga_pc) \<Rightarrow> saga_pc \<Rightarrow> branch_event \<Rightarrow>
     'w branches_world \<Rightarrow> 'w saga_moment" where
  "branches_go deps order frc steps on going z x =
    (case x of ((bs, db), w) \<Rightarrow>
       if all_settled steps bs then ((going, db), w)
       else (case world_event deps order frc z x of ((bs', db'), w') \<Rightarrow> ((on bs', db'), w')))"

fun saga_turn :: "'w SagaDeps \<Rightarrow> ClaimedOrder \<Rightarrow> bool \<Rightarrow> step \<Rightarrow> moment \<Rightarrow> 'w saga_moment \<Rightarrow> 'w saga_moment" where
  "saga_turn deps order frc st m ((Init_forward, db), w) =
     (awaited m (initSteps (orderId order) (map Fwd FORWARD_STEPS)) (\<lambda>_. Read_statuses) db, w)"
| "saga_turn deps order frc st m ((Read_statuses, db), w) =
     (awaited m (getStepStatuses (orderId order)) forward_start db, w)"
| "saga_turn deps order frc st m ((Forward steps bs, db), w) =
     branches_go deps order False steps (Forward steps) (forward_over steps bs) (Turn st m) ((bs, db), w)"
| "saga_turn deps order frc st m ((Set_compensating lastError, db), w) =
     (awaited m (setOrderStatus (orderId order) (instanceId deps) COMPENSATING False (Some lastError))
        (\<lambda>_. Read_succeeded) db, w)"
| "saga_turn deps order frc st m ((Read_succeeded, db), w) =
     (awaited m (getSucceededForwardSteps (orderId order)) (\<lambda>succeeded. Init_undo (map COMPENSATION_OF succeeded)) db, w)"
| "saga_turn deps order frc st m ((Init_undo needed, db), w) =
     (awaited m (initSteps (orderId order) (map Comp COMPENSATION_STEPS)) (\<lambda>_. mark_next needed COMPENSATION_STEPS) db, w)"
| "saga_turn deps order frc st m ((Undo_marks needed c rest, db), w) =
     (awaited m (markStepResult (orderId order) (Comp c) S_SKIPPED 0 None) (\<lambda>_. mark_next needed rest) db, w)"
| "saga_turn deps order frc st m ((Undo toRun bs, db), w) =
     branches_go deps order frc (map Comp toRun) (Undo toRun) (undo_over toRun bs) (Turn st m) ((bs, db), w)"
| "saga_turn deps order frc st m ((Set_final status, db), w) =
     (awaited m (setOrderStatus (orderId order) (instanceId deps) status True None) (\<lambda>_. Over (Inr status)) db, w)"
| "saga_turn deps order frc st m ((Over r, db), w) = ((Over r, db), w)"

text \<open>The heartbeat beats in runSaga only; a renewal under way when the saga ends may still arrive.\<close>

fun saga_event :: "'w SagaDeps \<Rightarrow> ClaimedOrder \<Rightarrow> bool \<Rightarrow> branch_event \<Rightarrow> 'w saga_moment \<Rightarrow> 'w saga_moment" where
  "saga_event deps order frc (Turn st m) x = saga_turn deps order frc st m x"
| "saga_event deps order frc (Beat t) ((pc, db), w) =
     ((pc, if frc then db else beat deps (orderId order) t db), w)"

definition saga_run ::
  "'w SagaDeps \<Rightarrow> ClaimedOrder \<Rightarrow> bool \<Rightarrow> branch_event list \<Rightarrow> 'w saga_moment \<Rightarrow> 'w saga_moment" where
  "saga_run deps order frc = fold (saga_event deps order frc)"

section \<open>What every event keeps true\<close>

text \<open>
  \<open>going_true\<close>: what a run relies on, said of the services alone, so that nobody else can make it false.
  Steps that are not called again were carried out, undos are called for steps that were, a branch
  that has its answer was carried out, and PLACED is only written when all four steps were.
\<close>

context step_services
begin

definition branches_done :: "ClaimedOrder \<Rightarrow> step set \<Rightarrow> (step \<Rightarrow> branch) \<Rightarrow> 'w \<Rightarrow> bool" where
  "branches_done order S bs w \<longleftrightarrow>
     (\<forall>st. (st \<notin> S \<longrightarrow> is_settled (bs st)) \<and> (answered_branch (bs st) \<longrightarrow> did w (orderId order) st))"

definition undoable :: "ClaimedOrder \<Rightarrow> compensation_step set \<Rightarrow> 'w \<Rightarrow> bool" where
  "undoable order C w \<longleftrightarrow> (\<forall>f. COMPENSATION_OF f \<in> C \<longrightarrow> did w (orderId order) (Fwd f))"

fun going_true :: "ClaimedOrder \<Rightarrow> saga_pc \<Rightarrow> 'w \<Rightarrow> bool" where
  "going_true order (Forward steps bs) w = (set steps \<subseteq> range Fwd \<and> branches_done order (set steps) bs w \<and>
     (\<forall>f. Fwd f \<notin> set steps \<longrightarrow> did w (orderId order) (Fwd f)))"
| "going_true order (Init_undo needed) w = undoable order (set needed) w"
| "going_true order (Undo_marks needed c rest) w = undoable order (set needed) w"
| "going_true order (Undo toRun bs) w = (undoable order (set toRun) w \<and> branches_done order (Comp ` set toRun) bs w)"
| "going_true order (Set_final status) w = (status \<in> {PLACED, CANCELLED, NEEDS_ATTENTION} \<and>
     (status = PLACED \<longrightarrow> (\<forall>f. did w (orderId order) (Fwd f))))"
| "going_true order (Over (Inr status)) w = (status = PLACED \<longrightarrow> (\<forall>f. did w (orderId order) (Fwd f)))"
| "going_true order _ w = True"

lemma going_lasts:
  assumes "going_true order pc w" and "\<And>oid st. did w oid st \<Longrightarrow> did w' oid st"
  shows "going_true order pc w'"
  using assms(1)
  by (cases "(order, pc, w)" rule: going_true.cases) (auto simp: branches_done_def undoable_def assms(2))

lemma branches_true_iff: "branches_true K order S ((bs, db), w) \<longleftrightarrow> both K db w \<and> branches_done order S bs w"
  by (auto simp: branches_true_def branches_done_def)

lemma branches_done_start: "branches_done order (set steps) (par_start steps) w"
  by (auto simp: branches_done_def par_start_def)

lemma awaited_keeps:
  assumes "consistent did good db w" and "awaited m q k db = (pc, db')"
    and "\<And>t. consistent did good (snd (q t db)) w" and "\<And>t. going_true order (k (fst (q t db))) w"
  shows "consistent did good db' w \<and> going_true order pc w"
  using assms by (auto simp: awaited_def split: stmt_fate.splits)

lemma undo_start_true: "undoable order (set needed) w \<Longrightarrow> going_true order (undo_start needed) w"
  using branches_done_start [of order "map Comp (filter (List.member needed) COMPENSATION_STEPS)" w]
  by (auto simp: undo_start_def Let_def undoable_def)

lemma mark_next_true: "undoable order (set needed) w \<Longrightarrow> going_true order (mark_next needed cs) w"
  by (induction cs) (simp_all add: undo_start_true)

lemma world_lasts:
  assumes "good w" and "world_event deps order frc z ((bs, db), w) = ((bs', db'), w')" and "did w oid st"
  shows "did w' oid st"
proof (cases z)
  case (Turn st' m)
  with assms(2,3) lasting [OF assms(1)] show ?thesis by (cases "bs st'") (auto split: prod.splits)
qed (use assms in simp)

text \<open>One event of the branches of a run.\<close>

lemma branches_go_true:
  assumes c: "consistent did good db w" and S: "branches_done order (set steps) bs w"
    and safe: "\<And>st. st \<in> set steps \<Longrightarrow> safe K order frc st" and K: "K w"
    and go: "branches_go deps order frc steps on going z ((bs, db), w) = ((pc, db'), w')"
    and over: "all_settled steps bs \<Longrightarrow> going_true order going w"
    and on: "\<And>bs' w'. K w' \<Longrightarrow> branches_done order (set steps) bs' w' \<Longrightarrow>
      (\<And>oid st. did w oid st \<Longrightarrow> did w' oid st) \<Longrightarrow> going_true order (on bs') w'"
  shows "consistent did good db' w' \<and> going_true order pc w' \<and> (\<forall>oid st. did w oid st \<longrightarrow> did w' oid st)"
proof (cases "all_settled steps bs")
  case True
  with go c over show ?thesis by (simp add: branches_go_def)
next
  case False
  obtain bs1 db1 w1 where e: "world_event deps order frc z ((bs, db), w) = ((bs1, db1), w1)" by (metis prod.collapse)
  have "branches_true K order (set steps) ((bs1, db1), w1)"
    using event_true [of "set steps" K order frc "((bs, db), w)" z] safe c S K by (simp add: e branches_true_iff)
  then have B: "both K db1 w1" "branches_done order (set steps) bs1 w1" by (simp_all add: branches_true_iff)
  have g: "good w" using c by (simp add: consistent_def)
  have l: "did w oid st \<Longrightarrow> did w1 oid st" for oid st by (rule world_lasts [OF g e])
  from go False have "pc = on bs1" "db' = db1" "w' = w1" by (simp_all add: branches_go_def e)
  with B on [OF _ B(2)] l show ?thesis by auto
qed

lemma ok_branch_done:
  assumes "branches_done order S bs w" and "is_settled (bs st)" and "out_ok (branch_outcome st (bs st))"
  shows "did w (orderId order) st"
proof -
  have "answered_branch (bs st)" using assms(2,3) by (cases "bs st") (auto simp: branch_outcome_def split: sum.splits)
  with assms(1) show ?thesis by (simp add: branches_done_def)
qed

lemma forward_over_true:
  assumes "going_true order (Forward steps bs) w" and "all_settled steps bs"
  shows "going_true order (forward_over steps bs) w"
proof (cases "failed_branches steps bs = []")
  case True
  then have "did w (orderId order) (Fwd f)" for f
    using assms ok_branch_done [of order "set steps" bs w "Fwd f"]
    by (cases "Fwd f \<in> set steps") (auto simp: failed_branches_def all_settled_def list_all_iff filter_empty_conv)
  with True show ?thesis by (simp add: forward_over_def)
qed (simp add: forward_over_def)

lemma forward_start_true:
  assumes "consistent did good db w"
  shows "going_true order (forward_start (fst (getStepStatuses (orderId order) t db))) w"
proof -
  have ok: "db_ok db" using assms by (simp add: consistent_def)
  have "did w (orderId order) (Fwd f)" if "step_status_of db (orderId order) (Fwd f) = Some S_SUCCEEDED" for f
    using that assms by (simp add: consistent_def agrees_def)
  then show ?thesis
    by (auto simp: forward_start_def Let_def branches_done_start [unfolded set_filter] step_statuses_eq [OF ok]
      forward_step_cases) (use branches_done_start in \<open>auto simp: branches_done_def par_start_def\<close>)
qed

lemma awaited_turn:
  assumes "consistent did good db w" and "saga_turn deps order frc st m ((pc, db), w) = ((pc', db'), w')"
    and "saga_turn deps order frc st m ((pc, db), w) = (awaited m q k db, w)"
    and "\<And>t. consistent did good (snd (q t db)) w" and "\<And>t. going_true order (k (fst (q t db))) w"
  shows "consistent did good db' w' \<and> going_true order pc' w' \<and> (\<forall>oid st. did w oid st \<longrightarrow> did w' oid st)"
proof -
  have "awaited m q k db = (pc', db')" "w' = w" using assms(2,3) by auto
  with awaited_keeps [where q = q and k = k, OF assms(1) _ assms(4,5)] show ?thesis by auto
qed

lemma succeeded_undoable:
  assumes "consistent did good db w"
  shows "undoable order (set (map COMPENSATION_OF (fst (getSucceededForwardSteps (orderId order) t db)))) w"
proof -
  have "db_ok db" using assms by (simp add: consistent_def)
  from succeeded_forward_iff [OF this, of _ "orderId order" t] assms show ?thesis
    by (auto simp: undoable_def COMPENSATION_OF_inj consistent_def agrees_def)
qed

lemma forward_turn_true:
  assumes c: "consistent did good db w" and t: "going_true order (Forward steps bs) w"
    and e: "branches_go deps order False steps (Forward steps) (forward_over steps bs) z ((bs, db), w) = ((pc', db'), w')"
  shows "consistent did good db' w' \<and> going_true order pc' w' \<and> (\<forall>oid st. did w oid st \<longrightarrow> did w' oid st)"
proof (rule branches_go_true [OF c _ _ _ e])
  show "safe (\<lambda>_. True) order False st" if "st \<in> set steps" for st
    using that t forward_safe [of "\<lambda>_. True" "orderId order" order False] by auto
  show "going_true order (Forward steps bs') w'" if "branches_done order (set steps) bs' w'"
      "\<And>oid st. did w oid st \<Longrightarrow> did w' oid st" for bs' w'
    using that t by simp
qed (use t forward_over_true [OF t] in simp_all)

lemma undo_turn_true:
  assumes c: "consistent did good db w" and t: "going_true order (Undo toRun bs) w"
    and e: "branches_go deps order frc (map Comp toRun) (Undo toRun) (undo_over toRun bs) z ((bs, db), w) = ((pc', db'), w')"
  shows "consistent did good db' w' \<and> going_true order pc' w' \<and> (\<forall>oid st. did w oid st \<longrightarrow> did w' oid st)"
proof -
  let ?F = "{f. COMPENSATION_OF f \<in> set toRun}"
  let ?K = "\<lambda>w. \<forall>f \<in> ?F. did w (orderId order) (Fwd f)"
  show ?thesis
  proof (rule branches_go_true [where K = ?K, OF c _ _ _ e])
    show "safe ?K order frc st" if st: "st \<in> set (map Comp toRun)" for st
    proof -
      from st obtain x where x: "st = Comp x" "x \<in> set toRun" by auto
      obtain f where "x = COMPENSATION_OF f" using COMPENSATION_OF_surj by metis
      with x undo_safe [of f ?F] show ?thesis by simp
    qed
    show "going_true order (Undo toRun bs') w'" if "?K w'" "branches_done order (set (map Comp toRun)) bs' w'" for bs' w'
      using that by (simp add: undoable_def)
  qed (use t in \<open>simp_all add: undoable_def undo_over_def\<close>)
qed

lemma saga_turn_true:
  assumes c: "consistent did good db w" and t: "going_true order pc w"
    and e: "saga_turn deps order frc st m ((pc, db), w) = ((pc', db'), w')"
  shows "consistent did good db' w' \<and> going_true order pc' w' \<and> (\<forall>oid st. did w oid st \<longrightarrow> did w' oid st)"
proof -
  have init: "consistent did good (snd (initSteps (orderId order) sts t' db)) w" for sts t'
    using c by (simp add: consistent_def initSteps_frame agrees_init)
  have stat: "consistent did good (snd (setOrderStatus (orderId order) me x b err t' db)) w" for me x b err t'
    using c by (simp add: consistent_def set_status_near agrees_status)
  have skip: "consistent did good (snd (markStepResult (orderId order) (Comp x) S_SKIPPED 0 None t' db)) w" for x t'
    using c by (auto simp: consistent_def markStepResult_frame intro: agrees_result)
  note sent = awaited_turn [OF c e]
  show ?thesis
  proof (cases pc)
    case Init_forward
    show ?thesis by (rule sent, simp only: Init_forward saga_turn.simps, rule init, simp)
  next
    case Read_statuses
    show ?thesis by (rule sent, simp only: Read_statuses saga_turn.simps, simp add: c getStepStatuses_def)
      (rule forward_start_true [OF c])
  next
    case (Forward steps bs)
    with forward_turn_true [OF c] t e show ?thesis by simp
  next
    case (Set_compensating x)
    show ?thesis by (rule sent, simp only: Set_compensating saga_turn.simps, rule stat, simp)
  next
    case Read_succeeded
    show ?thesis by (rule sent, simp only: Read_succeeded saga_turn.simps, simp add: c getSucceededForwardSteps_def)
      (simp only: going_true.simps, rule succeeded_undoable [OF c])
  next
    case (Init_undo needed)
    show ?thesis by (rule sent, simp only: Init_undo saga_turn.simps, rule init)
      (use t Init_undo in \<open>simp add: mark_next_true\<close>)
  next
    case (Undo_marks needed x rest)
    show ?thesis by (rule sent, simp only: Undo_marks saga_turn.simps, rule skip)
      (use t Undo_marks in \<open>simp add: mark_next_true\<close>)
  next
    case (Undo toRun bs)
    with undo_turn_true [OF c] t e show ?thesis by simp
  next
    case (Set_final x)
    show ?thesis by (rule sent, simp only: Set_final saga_turn.simps, rule stat)
      (use t Set_final in simp)
  next
    case (Over r)
    with e c t show ?thesis by auto
  qed
qed

text \<open>An event of a run keeps the step rows true and what the run relies on; it takes nothing back.\<close>

lemma saga_event_true:
  assumes "consistent did good db w" and "going_true order pc w"
    and "saga_event deps order frc z ((pc, db), w) = ((pc', db'), w')"
  shows "consistent did good db' w' \<and> going_true order pc' w' \<and> (\<forall>oid st. did w oid st \<longrightarrow> did w' oid st)"
proof (cases z)
  case (Turn st m)
  with saga_turn_true [OF assms(1,2)] assms(3) show ?thesis by simp
next
  case (Beat t)
  with assms show ?thesis by (auto simp: consistent_def split: if_splits)
qed

end

end
