(* ===== verification/SagaVerdict.thy ===== *)
theory SagaVerdict
  imports SagaRun
begin

text \<open>
  What the saga engine decides when its database works and each service either answers a step or
  does not: the status of the order is a function of those answers and of the recorded steps.
  \<open>saga_verdict\<close> is that function, the specification of the saga without retries, schedules,
  leases or tables; the theorem says that runSaga computes it.
\<close>

definition saga_verdict :: "bool \<Rightarrow> (forward_step \<Rightarrow> bool) \<Rightarrow> (step \<Rightarrow> bool) \<Rightarrow> order_status" where
  "saga_verdict rollback recorded_ok answered =
    (let carried = (\<lambda>f. recorded_ok f \<or> \<not> rollback \<and> answered (Fwd f))
     in if \<not> rollback \<and> list_all carried FORWARD_STEPS then PLACED
        else if list_all (\<lambda>f. carried f \<longrightarrow> answered (Comp (COMPENSATION_OF f))) FORWARD_STEPS then CANCELLED
        else NEEDS_ATTENTION)"

definition answers :: "'w SagaDeps \<Rightarrow> ClaimedOrder \<Rightarrow> bool \<Rightarrow> step \<Rightarrow> 'w \<Rightarrow> bool" where
  "answers deps order frc st w =
    (case post_step deps order st frc w of
       (Inr r, _, _) \<Rightarrow> response_ok r \<and> (case fr_json r of Inr _ \<Rightarrow> True | Inl _ \<Rightarrow> False)
     | _ \<Rightarrow> False)"

text \<open>
  In every world that can occur the step is answered as \<open>V\<close> says, and its request has the effect
  \<open>E\<close>, which no later request takes back.
\<close>

definition decided ::
  "('w \<Rightarrow> bool) \<Rightarrow> (step \<Rightarrow> 'w \<Rightarrow> bool) \<Rightarrow> (step \<Rightarrow> bool) \<Rightarrow> 'w SagaDeps \<Rightarrow> ClaimedOrder \<Rightarrow> bool \<Rightarrow> step \<Rightarrow> bool" where
  "decided K E V deps order frc st \<longleftrightarrow>
     (\<forall>w. K w \<longrightarrow> answers deps order frc st w = V st \<and>
       (let w' = snd (snd (post_step deps order st frc w))
        in K w' \<and> E st w' \<and> (\<forall>st'. E st' w \<longrightarrow> E st' w')))"

definition only_more :: "(step \<Rightarrow> 'w \<Rightarrow> bool) \<Rightarrow> 'w \<Rightarrow> 'w \<Rightarrow> bool" where
  "only_more E w w' \<longleftrightarrow> (\<forall>st. E st w \<longrightarrow> E st w')"

lemma only_more_refl [simp]: "only_more E w w"
  by (simp add: only_more_def)

lemma only_more_trans: "only_more E a b \<Longrightarrow> only_more E b c \<Longrightarrow> only_more E a c"
  by (simp add: only_more_def)

lemma decided_grow: "decided K E V deps order frc st \<Longrightarrow>
    decided (\<lambda>w. K w \<and> only_more E w0 w) E V deps order frc st"
  by (auto simp: decided_def only_more_def Let_def)

definition database_works :: "'w SagaDeps \<Rightarrow> bool" where
  "database_works deps \<longleftrightarrow> dep_fate deps = (\<lambda>_. Stmt_ok) \<and> 1 \<le> step_maxAttempts deps"

section \<open>One step\<close>

lemma query_works:
  "database_works deps \<Longrightarrow> \<exists>s'. query deps q s = (Inr (fst (q (cs_now s) (cs_db s))), s') \<and>
    cs_db s' = snd (q (cs_now s) (cs_db s)) \<and> cs_world s' = cs_world s"
  by (auto simp: query_def database_works_def Let_def split: prod.splits)

lemma decided_keeps_call:
  "decided K E V deps order frc st \<Longrightarrow> keeps_call deps order frc (\<lambda>_. K) st"
  by (simp add: keeps_call_def keeps_beat_def decided_def Let_def)

lemma attempt_answers:
  fixes deps :: "'w SagaDeps"
  shows "(\<exists>b. fst (call_attempt (coord_fetch deps) (step_call_options deps order st frc) (s, n)) = Inr b) \<longleftrightarrow>
    answers deps order frc st (cs_world s)"
proof -
  obtain p d w where p: "post_step deps order st frc (cs_world s) = (p, d, w)" by (rule prod_cases3)
  have f: "coord_fetch deps (step_url deps st) (idempotencyKey (orderId order) st) (step_body order frc)
      (step_timeoutMs deps) (s, n) = (p, (elapse deps d (s\<lparr>cs_world := w\<rparr>), n))"
    using p by (simp add: coord_fetch_def post_step_def)
  have u: "trim_slash (co_baseUrl (step_call_options deps order st frc)) @ stepPath st = step_url deps st"
    by (simp add: step_call_options_def step_url_def)
  have o: "orderId (step_body order frc) = orderId order" by (simp add: step_body_def)
  show ?thesis
    by (cases p) (auto simp: call_attempt_def Let_def f u o answers_def p split: sum.splits)
qed

lemma call_attempt_world:
  "cs_world (fst (snd (call_attempt (coord_fetch deps) (step_call_options deps order st frc) (s, n)))) =
    snd (snd (post_step deps order st frc (cs_world s)))"
proof -
  obtain p d w where p: "post_step deps order st frc (cs_world s) = (p, d, w)" by (rule prod_cases3)
  have f: "coord_fetch deps (step_url deps st) (idempotencyKey (orderId order) st) (step_body order frc)
      (step_timeoutMs deps) (s, n) = (p, (elapse deps d (s\<lparr>cs_world := w\<rparr>), n))"
    using p by (simp add: coord_fetch_def post_step_def)
  have u: "trim_slash (co_baseUrl (step_call_options deps order st frc)) @ stepPath st = step_url deps st"
    by (simp add: step_call_options_def step_url_def)
  have o: "orderId (step_body order frc) = orderId order" by (simp add: step_body_def)
  show ?thesis by (cases p) (simp_all add: call_attempt_def Let_def f u o p)
qed

text \<open>What the coordinator's runtime cannot change between two attempts.\<close>

lemma call_runtime_keeps:
  fixes deps :: "'w SagaDeps" and st :: step
  assumes "keeps_call deps order frc I st"
  defines "ro \<equiv> call_retry_options (coord_runtime deps) (step_call_options deps order st frc)"
  shows "db_pred I (fst x) \<Longrightarrow> db_pred I (fst (sleep ro d x))"
    and "db_pred I (fst x) \<Longrightarrow> db_pred I (fst (snd (random ro x)))"
    and "preserves (\<lambda>x. db_pred I (fst x)) (onAttempt ro i)"
    and "preserves (\<lambda>x. db_pred I (fst x)) (call_attempt (coord_fetch deps) (step_call_options deps order st frc))"
proof -
  have beat: "keeps_beat deps I" using assms(1) by (simp add: keeps_call_def)
  show "db_pred I (fst x) \<Longrightarrow> db_pred I (fst (sleep ro d x))"
    using beat by (auto simp: ro_def call_retry_options_def coord_runtime_def elapse_keeps split: prod.splits)
  show "db_pred I (fst x) \<Longrightarrow> db_pred I (fst (snd (random ro x)))"
    by (auto simp: ro_def call_retry_options_def coord_runtime_def db_pred_def split: prod.splits)
  show "preserves (\<lambda>x. db_pred I (fst x)) (onAttempt ro i)"
    using on_attempt_keeps [OF assms(1)] by (simp add: ro_def call_retry_options_def)
  show "preserves (\<lambda>x. db_pred I (fst x)) (call_attempt (coord_fetch deps) (step_call_options deps order st frc))"
    by (rule call_attempt_preserves) (use coord_fetch_keeps [OF assms(1)] in simp)
qed

lemma callStep_reaches:
  fixes deps :: "'w SagaDeps"
  assumes works: "database_works deps" and dec: "decided K E V deps order frc st" and K: "K (cs_world s)"
    and run: "callStep (coord_fetch deps) (coord_runtime deps) (step_call_options deps order st frc) (s, n) = (r, (s', n'))"
  shows "E st (cs_world s')"
proof -
  let ?fn = "\<lambda>_ :: nat. call_attempt (coord_fetch deps) (step_call_options deps order st frc)"
  let ?ro = "call_retry_options (coord_runtime deps) (step_call_options deps order st frc)"
  let ?R = "\<lambda>x :: 'w coord \<times> nat. db_pred (\<lambda>_ w. K w \<and> E st w) (fst x)"
  have dec': "decided (\<lambda>w. K w \<and> E st w) E V deps order frc st" using dec by (auto simp: decided_def Let_def)
  note keeps = call_runtime_keeps [OF decided_keeps_call [OF dec']]
  have first: "?R (snd (?fn 1 (s, n)))"
    using dec K by (auto simp: call_attempt_world decided_def db_pred_def Let_def)
  have max: "1 \<le> maxAttempts ?ro" using works by (simp add: database_works_def call_retry_options_def)
  have "?R (snd (retry_loop ?fn ?ro 1 (Primitive ''undefined'') (s, n)))"
    by (rule retry_loop_reaches [where P = ?R and fn = ?fn and opts = ?ro, OF max first keeps(4,3,1,2)])
  with run show ?thesis by (simp add: callStep_def withRetry_def db_pred_def)
qed

lemma callStep_refused:
  fixes deps :: "'w SagaDeps"
  assumes dec: "decided K E V deps order frc st" and K: "K (cs_world s)" and V: "\<not> V st"
    and run: "callStep (coord_fetch deps) (coord_runtime deps) (step_call_options deps order st frc) (s, n) = (Inr a, (s', n'))"
  shows False
proof -
  let ?fn = "\<lambda>_ :: nat. call_attempt (coord_fetch deps) (step_call_options deps order st frc)"
  let ?ro = "call_retry_options (coord_runtime deps) (step_call_options deps order st frc)"
  let ?P = "\<lambda>x :: 'w coord \<times> nat. db_pred (\<lambda>_. K) (fst x)"
  note keeps = call_runtime_keeps [OF decided_keeps_call [OF dec]]
  have loop: "retry_loop ?fn ?ro 1 (Primitive ''undefined'') (s, n) = (Inr a, (s', n'))"
    using run by (simp add: callStep_def withRetry_def)
  show False
  proof (rule retry_loop_Inr [where P = ?P and Q = "\<lambda>_. False" and fn = ?fn and opts = ?ro, OF _ _ keeps(4,3,1,2) _ loop])
    show "False" if "?P x" "?fn k x = (Inr b, x')" for k x b x'
      using that attempt_answers [of deps order st frc "fst x" "snd x"] dec V by (auto simp: decided_def db_pred_def)
  qed (use K in \<open>simp_all add: db_pred_def preserves_def\<close>)
qed

lemma callStep_answered:
  fixes deps :: "'w SagaDeps"
  assumes works: "database_works deps" and dec: "decided K E V deps order frc st" and K: "K (cs_world s)" and V: "V st"
    and run: "callStep (coord_fetch deps) (coord_runtime deps) (step_call_options deps order st frc) (s, n) = (r, x)"
  shows "\<exists>a. r = Inr a"
proof -
  let ?fn = "\<lambda>_ :: nat. call_attempt (coord_fetch deps) (step_call_options deps order st frc)"
  let ?ro = "call_retry_options (coord_runtime deps) (step_call_options deps order st frc)"
  have "answers deps order frc st (cs_world s)" using dec K V by (simp add: decided_def)
  then obtain b s1 where b: "?fn 1 (s, n) = (Inr b, s1)"
    using attempt_answers [of deps order st frc s n] by (metis prod.collapse)
  have "\<exists>s2. onAttempt ?ro i s1 = (Inr (), s2)" for i
    using query_works [OF works, of "recordAttempt (orderId order) st i" "fst s1"]
    by (cases s1) (auto simp: call_retry_options_def on_attempt_def on_fst_def)
  then obtain s2 where s2: "\<And>i. onAttempt ?ro i s1 = (Inr (), s2 i)" by metis
  have "0 < maxAttempts ?ro" using works by (simp add: database_works_def call_retry_options_def)
  from withRetry_first_success [where fn = ?fn and opts = ?ro and s = "(s, n)", OF this b s2] run
  show ?thesis by (simp add: callStep_def)
qed

lemma callStep_decided:
  fixes deps :: "'w SagaDeps"
  assumes works: "database_works deps" and dec: "decided K E V deps order frc st" and K: "K (cs_world s)"
    and run: "callStep (coord_fetch deps) (coord_runtime deps) (step_call_options deps order st frc) (s, n) = (r, (s', n'))"
  shows "(\<exists>a. r = Inr a) = V st \<and> K (cs_world s') \<and> E st (cs_world s') \<and> only_more E (cs_world s) (cs_world s')"
proof -
  have kept: "K' (cs_world s')" if "decided K' E V deps order frc st" "K' (cs_world s)" for K'
    using preservesD [OF call_keeps [OF decided_keeps_call [OF that(1)]] _ run] that(2) by (simp add: db_pred_def)
  have "K (cs_world s') \<and> only_more E (cs_world s) (cs_world s')"
    using kept [OF decided_grow [OF dec, of "cs_world s"]] K by simp
  moreover have "(\<exists>a. r = Inr a) = V st"
    using callStep_answered [OF works dec K _ run] callStep_refused [OF dec K] run by blast
  ultimately show ?thesis using callStep_reaches [OF works dec K run] by simp
qed

lemma executeStep_decided:
  fixes deps :: "'w SagaDeps"
  assumes works: "database_works deps" and dec: "decided K E V deps order frc st" and K: "K (cs_world s)"
  shows "\<exists>out s'. executeStep deps order st frc s = (Inr out, s') \<and> out_ok out = V st \<and>
    K (cs_world s') \<and> E st (cs_world s') \<and> only_more E (cs_world s) (cs_world s')"
proof -
  let ?oid = "orderId order"
  obtain s1 where run: "query deps (markStepRunning ?oid st) s = (Inr (), s1)" and s1: "cs_world s1 = cs_world s"
    using query_works [OF works, of "markStepRunning ?oid st" s] by auto
  let ?call = "callStep (coord_fetch deps) (coord_runtime deps) (step_call_options deps order st frc)"
  obtain r s2 n where c: "?call (s1, 0) = (r, (s2, n))" by (metis prod.collapse)
  have C: "(\<exists>a. r = Inr a) = V st" "K (cs_world s2)" "E st (cs_world s2)" "only_more E (cs_world s) (cs_world s2)"
    using callStep_decided [OF works dec _ c] K s1 by auto
  let ?run = "on_fst (query deps (markStepRunning ?oid st)) :: ('w coord \<times> nat, js_value, unit) act"
  have run': "?run (s, 0) = (Inr (), (s1, 0))"
    using run by (simp add: on_fst_def)
  show ?thesis
  proof (cases r)
    case (Inl e)
    obtain s3 where m: "query deps (markStepResult ?oid st S_FAILED n (Some (error_message e))) s2 = (Inr (), s3)"
      and s3: "cs_world s3 = cs_world s2"
      using query_works [OF works, of "markStepResult ?oid st S_FAILED n (Some (error_message e))" s2] by auto
    have "execute_try deps order st frc (s, 0) = (Inl e, (s2, n))"
      by (simp only: execute_try_def seq_act_Inr [where m = ?run, OF run'] bind_act_Inl [where m = ?call, OF c [unfolded Inl]])
    with m s3 C Inl show ?thesis by (simp add: executeStep_def seq_act_Inr ret_act_def)
  next
    case (Inr a)
    obtain s3 where m: "query deps (markStepResult ?oid st S_SUCCEEDED n None) s2 = (Inr (), s3)"
      and s3: "cs_world s3 = cs_world s2"
      using query_works [OF works, of "markStepResult ?oid st S_SUCCEEDED n None" s2] by auto
    have "execute_try deps order st frc (s, 0) = (Inr \<lparr>out_step = st, out_ok = True, out_error = None\<rparr>, (s3, n))"
      unfolding execute_try_def seq_act_Inr [where m = ?run, OF run'] bind_act_Inr [where m = ?call, OF c [unfolded Inr]]
      using m by (simp add: seq_act_def bind_act_def on_fst_def ret_act_def)
    with s3 C Inr show ?thesis by (simp add: executeStep_def)
  qed
qed

section \<open>Several steps\<close>

lemma run_branches_decided:
  assumes works: "database_works deps"
    and "\<And>st. st \<in> set sts \<Longrightarrow> decided K E V deps order frc st" and "K (cs_world s)" and "distinct sts"
  shows "\<exists>rs s'. run_branches deps order frc sts s = (rs, s') \<and> K (cs_world s') \<and>
    only_more E (cs_world s) (cs_world s') \<and> (\<forall>st \<in> set sts. E st (cs_world s')) \<and>
    (\<forall>st \<in> set sts. \<exists>out. map_of rs st = Some (Inr out) \<and> out_ok out = V st)"
  using assms(2-)
proof (induction sts arbitrary: s)
  case (Cons st sts)
  obtain out s1 where 1: "executeStep deps order st frc s = (Inr out, s1)" "out_ok out = V st" "K (cs_world s1)"
      "E st (cs_world s1)" "only_more E (cs_world s) (cs_world s1)"
    using executeStep_decided [OF works Cons.prems(1) [of st] Cons.prems(2)] by auto
  obtain rs s' where 2: "run_branches deps order frc sts s1 = (rs, s')" "K (cs_world s')"
      "only_more E (cs_world s1) (cs_world s')" "\<forall>st \<in> set sts. E st (cs_world s')"
      "\<forall>st \<in> set sts. \<exists>out. map_of rs st = Some (Inr out) \<and> out_ok out = V st"
    using Cons.IH [of s1] Cons.prems 1(3) by auto
  from 1(4) 2(3) have "E st (cs_world s')" by (simp add: only_more_def)
  with 1 2 Cons.prems(3) only_more_trans [OF 1(5) 2(3)] show ?case by auto
qed simp

lemma runConcurrently_decided:
  assumes works: "database_works deps"
    and dec: "\<And>st. st \<in> set steps \<Longrightarrow> decided K E V deps order frc st" and K: "K (cs_world s)"
    and db: "db_ok (cs_db s)" "has_rows (orderId order) rows (cs_db s)" "set steps \<subseteq> rows" "distinct steps"
  shows "\<exists>g s'. runConcurrently deps order steps frc s = (Inr (map g steps), s') \<and> K (cs_world s') \<and>
    only_more E (cs_world s) (cs_world s') \<and> (\<forall>st \<in> set steps. E st (cs_world s')) \<and>
    near (orderId order) (set steps) (cs_db s) (cs_db s') \<and>
    (\<forall>st \<in> set steps. out_ok (g st) = V st \<and>
       step_status_of (cs_db s') (orderId order) st = Some (if V st then S_SUCCEEDED else S_FAILED))"
proof -
  let ?sts = "arrange deps steps"
  obtain rs s' where b: "run_branches deps order frc ?sts s = (rs, s')" and K': "K (cs_world s')"
      "only_more E (cs_world s) (cs_world s')" "\<forall>st \<in> set ?sts. E st (cs_world s')"
    and outs: "\<forall>st \<in> set ?sts. \<exists>out. map_of rs st = Some (Inr out) \<and> out_ok out = V st"
    using run_branches_decided [OF works, of ?sts K E V order frc s] dec K db(4) by auto
  have B: "near (orderId order) (set ?sts) (cs_db s) (cs_db s') \<and> has_rows (orderId order) rows (cs_db s') \<and>
    (\<lambda>_. True) (cs_world s') \<and>
    (\<forall>st \<in> set ?sts. \<exists>r. map_of rs st = Some r \<and> recorded (cs_db s') (orderId order) st r)"
    by (rule run_branches_result [where J = "\<lambda>_. True", OF _ _ db(1,2) _ _ b]) (use db in auto)
  have "out_ok (settled rs st) = V st \<and>
      step_status_of (cs_db s') (orderId order) st = Some (if V st then S_SUCCEEDED else S_FAILED)"
    if st: "st \<in> set steps" for st
  proof -
    obtain out where out: "map_of rs st = Some (Inr out)" "out_ok out = V st" using outs st by auto
    with B st have "recorded (cs_db s') (orderId order) st (Inr out)" by auto
    with out show ?thesis by (auto simp: recorded_def settled_def)
  qed
  with b K' B show ?thesis by (auto simp: runConcurrently_def)
qed

lemma mark_skipped_works:
  assumes "database_works deps"
  shows "\<exists>s'. mark_skipped deps oid needed cs s = (Inr (), s')"
proof (induction cs arbitrary: s)
  case (Cons c cs)
  obtain s1 where s1: "query deps (markStepResult oid (Comp c) S_SKIPPED 0 None) s = (Inr (), s1)"
    using query_works [OF assms, of "markStepResult oid (Comp c) S_SKIPPED 0 None" s] by auto
  from Cons.IH [of s] Cons.IH [of s1] s1 show ?case by (auto simp: seq_act_Inr)
qed (simp add: ret_act_def)

section \<open>The rollback\<close>

lemma all_out_ok:
  "filter (\<lambda>out. \<not> out_ok out) (map g steps) = [] \<longleftrightarrow> (\<forall>st \<in> set steps. out_ok (g st))"
  by (induction steps) auto

lemma prepare_works:
  assumes works: "database_works deps" and ok: "db_ok (cs_db s)"
  shows "\<exists>s'. prepare_undo deps oid needed s = (Inr (), s') \<and> cs_world s' = cs_world s \<and> db_ok (cs_db s') \<and>
    has_rows oid (range Comp) (cs_db s')"
proof -
  obtain s1 where q1: "query deps (initSteps oid (map Comp COMPENSATION_STEPS)) s = (Inr (), s1)"
    using query_works [OF works, of "initSteps oid (map Comp COMPENSATION_STEPS)" s] by auto
  obtain s2 where "mark_skipped deps oid needed COMPENSATION_STEPS s1 = (Inr (), s2)"
    using mark_skipped_works [OF works] by blast
  with q1 have q: "prepare_undo deps oid needed s = (Inr (), s2)" by (simp add: prepare_undo_def seq_act_Inr)
  from prepare_result [OF q ok] q show ?thesis by auto
qed

lemma undo_decided:
  fixes deps :: "'w SagaDeps"
  assumes works: "database_works deps"
    and dec: "\<And>st. st \<in> set toRun \<Longrightarrow> decided K E V deps order frc st" and K: "K (cs_world s)"
    and db: "db_ok (cs_db s)" "has_rows (orderId order) (range Comp) (cs_db s)" "set toRun \<subseteq> range Comp" "distinct toRun"
  shows "\<exists>s'. undo_needed deps order frc toRun s =
      (Inr (if \<forall>st \<in> set toRun. V st then CANCELLED else NEEDS_ATTENTION), s') \<and> K (cs_world s') \<and>
      only_more E (cs_world s) (cs_world s') \<and> (\<forall>st \<in> set toRun. E st (cs_world s'))"
proof (cases "toRun = []")
  case True
  with K show ?thesis by (simp add: undo_needed_def ret_act_def)
next
  case False
  obtain g s1 where q: "runConcurrently deps order toRun frc s = (Inr (map g toRun), s1)"
    and R: "K (cs_world s1)" "\<forall>st \<in> set toRun. out_ok (g st) = V st" "only_more E (cs_world s) (cs_world s1)"
      "\<forall>st \<in> set toRun. E st (cs_world s1)"
    using runConcurrently_decided [where K = K and V = V, OF works dec K db] by blast
  have "filter (\<lambda>out. \<not> out_ok out) (map g toRun) = [] \<longleftrightarrow> (\<forall>st \<in> set toRun. V st)"
    using R(2) unfolding all_out_ok by blast
  with q False have "undo_needed deps order frc toRun s =
      (Inr (if \<forall>st \<in> set toRun. V st then CANCELLED else NEEDS_ATTENTION), s1)"
    by (simp only: undo_needed_def bind_act_Inr ret_act_def if_False)
  with R show ?thesis by blast
qed

lemma compensate_decided:
  fixes deps :: "'w SagaDeps"
  assumes works: "database_works deps"
    and dec: "\<And>f. step_status_of (cs_db s) (orderId order) (Fwd f) = Some S_SUCCEEDED \<Longrightarrow>
      decided K E V deps order frc (Comp (COMPENSATION_OF f))"
    and K: "K (cs_world s)" and ok: "db_ok (cs_db s)"
  shows "\<exists>s'. compensate deps order frc s =
      (Inr (if \<forall>f. step_status_of (cs_db s) (orderId order) (Fwd f) = Some S_SUCCEEDED \<longrightarrow> V (Comp (COMPENSATION_OF f))
            then CANCELLED else NEEDS_ATTENTION), s') \<and> K (cs_world s') \<and> only_more E (cs_world s) (cs_world s') \<and>
      (\<forall>f. step_status_of (cs_db s) (orderId order) (Fwd f) = Some S_SUCCEEDED \<longrightarrow>
        E (Comp (COMPENSATION_OF f)) (cs_world s'))"
proof -
  let ?oid = "orderId order" and ?P = "\<lambda>f. step_status_of (cs_db s) (orderId order) (Fwd f) = Some S_SUCCEEDED"
  let ?q0 = "getSucceededForwardSteps ?oid"
  let ?succ = "fst (?q0 (cs_now s) (cs_db s))"
  obtain s0 where q0: "query deps ?q0 s = (Inr ?succ, s0)" and s0: "cs_db s0 = cs_db s" "cs_world s0 = cs_world s"
    using query_works [OF works, of ?q0 s] by auto
  have need: "f \<in> set ?succ \<longleftrightarrow> ?P f" for f using succeeded_forward_iff [OF ok, of f ?oid] by simp
  obtain s1 where q1: "prepare_undo deps ?oid (map COMPENSATION_OF ?succ) s0 = (Inr (), s1)"
    and s1: "cs_world s1 = cs_world s" "db_ok (cs_db s1)" "has_rows ?oid (range Comp) (cs_db s1)"
    using prepare_works [OF works, of s0 ?oid "map COMPENSATION_OF ?succ"] ok s0 by auto
  have d: "decided K E V deps order frc st" if "st \<in> set (undo_steps ?succ)" for st
    using undo_stepsE [OF that] need dec by auto
  have K1: "K (cs_world s1)" using K s1 by simp
  have steps: "(\<forall>st \<in> set (undo_steps ?succ). Q st) \<longleftrightarrow> (\<forall>f. ?P f \<longrightarrow> Q (Comp (COMPENSATION_OF f)))" for Q
    using undo_stepsE [of _ ?succ] undo_steps_set [of _ ?succ] need by metis
  note undo = undo_decided [where toRun = "undo_steps ?succ" and K = K and V = V,
    OF works d K1 s1(2,3) undo_steps_range undo_steps_distinct]
  obtain s2 where "undo_needed deps order frc (undo_steps ?succ) s1 =
      (Inr (if \<forall>f. ?P f \<longrightarrow> V (Comp (COMPENSATION_OF f)) then CANCELLED else NEEDS_ATTENTION), s2)"
    "K (cs_world s2)" "only_more E (cs_world s) (cs_world s2)" "\<forall>f. ?P f \<longrightarrow> E (Comp (COMPENSATION_OF f)) (cs_world s2)"
    using undo unfolding steps s1(1) by blast
  with q0 q1 show ?thesis by (simp add: compensate_eq bind_act_Inr seq_act_Inr)
qed

section \<open>The forward phase\<close>

text \<open>The steps that are pending, once their rows are there.\<close>

lemma pending_decided:
  fixes deps :: "'w SagaDeps"
  assumes works: "database_works deps"
    and dec: "\<And>f. step_status_of (cs_db s) (orderId order) (Fwd f) \<noteq> Some S_SUCCEEDED \<Longrightarrow>
      decided K E V deps order False (Fwd f)"
    and K: "K (cs_world s)" and ok: "db_ok (cs_db s)" and rows: "has_rows (orderId order) (range Fwd) (cs_db s)"
  shows "\<exists>outs s'. runConcurrently deps order (filter (\<lambda>st. step_status_of (cs_db s) (orderId order) st \<noteq> Some S_SUCCEEDED)
      (map Fwd FORWARD_STEPS)) False s = (Inr outs, s') \<and> K (cs_world s') \<and> db_ok (cs_db s') \<and>
    only_more E (cs_world s) (cs_world s') \<and>
    (\<forall>f. step_status_of (cs_db s) (orderId order) (Fwd f) \<noteq> Some S_SUCCEEDED \<longrightarrow> E (Fwd f) (cs_world s')) \<and>
    (\<forall>f. step_status_of (cs_db s') (orderId order) (Fwd f) = Some S_SUCCEEDED \<longleftrightarrow>
       step_status_of (cs_db s) (orderId order) (Fwd f) = Some S_SUCCEEDED \<or> V (Fwd f)) \<and>
    (filter (\<lambda>out. \<not> out_ok out) outs = [] \<longleftrightarrow>
       (\<forall>f. step_status_of (cs_db s) (orderId order) (Fwd f) = Some S_SUCCEEDED \<or> V (Fwd f)))"
proof -
  let ?oid = "orderId order"
  let ?P = "\<lambda>f. step_status_of (cs_db s) ?oid (Fwd f) = Some S_SUCCEEDED"
  let ?pending = "filter (\<lambda>st. step_status_of (cs_db s) ?oid st \<noteq> Some S_SUCCEEDED) (map Fwd FORWARD_STEPS)"
  have pend: "Fwd f \<in> set ?pending \<longleftrightarrow> \<not> ?P f" for f using forward_step_cases [of f] by auto
  have all: "(\<forall>st \<in> set ?pending. Q st) \<longleftrightarrow> (\<forall>f. \<not> ?P f \<longrightarrow> Q (Fwd f))" for Q using forward_step_cases by auto
  have d: "decided K E V deps order False st" if "st \<in> set ?pending" for st using that dec by auto
  have dist: "distinct ?pending" using distinct_FORWARD_STEPS by (simp add: distinct_map inj_on_def)
  have sub: "set ?pending \<subseteq> range Fwd" by auto
  obtain g s' where q: "runConcurrently deps order ?pending False s = (Inr (map g ?pending), s')"
    and R: "K (cs_world s')" "near ?oid (set ?pending) (cs_db s) (cs_db s')"
      "\<forall>st \<in> set ?pending. out_ok (g st) = V st \<and>
        step_status_of (cs_db s') ?oid st = Some (if V st then S_SUCCEEDED else S_FAILED)"
      "only_more E (cs_world s) (cs_world s')" "\<forall>st \<in> set ?pending. E st (cs_world s')"
    using runConcurrently_decided [where K = K and V = V, OF works d K ok rows sub dist] by blast
  have done_: "step_status_of (cs_db s') ?oid (Fwd f) = Some S_SUCCEEDED \<longleftrightarrow> ?P f \<or> V (Fwd f)" for f
  proof (cases "?P f")
    case True
    with near_status [OF R(2), of "Fwd f"] pend [of f] show ?thesis by simp
  next
    case False
    with R(3) show ?thesis unfolding all by simp
  qed
  have "filter (\<lambda>out. \<not> out_ok out) (map g ?pending) = [] \<longleftrightarrow> (\<forall>f. ?P f \<or> V (Fwd f))"
    using R(3) unfolding all_out_ok all by blast
  with q R(1,4,5) near_ok [OF R(2)] done_ show ?thesis unfolding all by blast
qed

lemma forward_decided:
  fixes deps :: "'w SagaDeps"
  assumes works: "database_works deps"
    and dec: "\<And>f. step_status_of (cs_db s) (orderId order) (Fwd f) \<noteq> Some S_SUCCEEDED \<Longrightarrow>
      decided K E V deps order False (Fwd f)"
    and K: "K (cs_world s)" and ok: "db_ok (cs_db s)"
  shows "\<exists>outs s'. forward_phase deps order s = (Inr outs, s') \<and> K (cs_world s') \<and> db_ok (cs_db s') \<and>
    only_more E (cs_world s) (cs_world s') \<and>
    (\<forall>f. step_status_of (cs_db s) (orderId order) (Fwd f) \<noteq> Some S_SUCCEEDED \<longrightarrow> E (Fwd f) (cs_world s')) \<and>
    (\<forall>f. step_status_of (cs_db s') (orderId order) (Fwd f) = Some S_SUCCEEDED \<longleftrightarrow>
       step_status_of (cs_db s) (orderId order) (Fwd f) = Some S_SUCCEEDED \<or> V (Fwd f)) \<and>
    (filter (\<lambda>out. \<not> out_ok out) outs = [] \<longleftrightarrow>
       (\<forall>f. step_status_of (cs_db s) (orderId order) (Fwd f) = Some S_SUCCEEDED \<or> V (Fwd f)))"
proof -
  let ?oid = "orderId order"
  let ?P = "\<lambda>f. step_status_of (cs_db s) ?oid (Fwd f) = Some S_SUCCEEDED"
  obtain s1 where q1: "query deps (initSteps ?oid (map Fwd FORWARD_STEPS)) s = (Inr (), s1)"
    and s1: "cs_world s1 = cs_world s" "cs_db s1 = snd (initSteps ?oid (map Fwd FORWARD_STEPS) (cs_now s) (cs_db s))"
    using query_works [OF works, of "initSteps ?oid (map Fwd FORWARD_STEPS)" s] by auto
  have st1: "step_status_of (cs_db s1) ?oid (Fwd f) = Some (rearm (step_status_of (cs_db s) ?oid (Fwd f)))" for f
    by (simp add: s1 sql_simps forward_step_cases)
  have ok1: "db_ok (cs_db s1)" using ok by (simp add: s1 sql_simps)
  obtain s2 where q2: "query deps (getStepStatuses ?oid) s1 = (Inr (step_status_of (cs_db s1) ?oid), s2)"
    and s2: "cs_db s2 = cs_db s1" "cs_world s2 = cs_world s"
    using query_works [OF works, of "getStepStatuses ?oid" s1] s1 step_statuses_eq [OF ok1] by auto
  have st2: "step_status_of (cs_db s2) ?oid (Fwd f) = Some S_SUCCEEDED \<longleftrightarrow> ?P f" for f
    using st1 [of f] s2 by (simp add: rearm_def)
  have rows: "has_rows ?oid (range Fwd) (cs_db s2)" using st1 s2 by (auto simp: has_rows_def)
  have d: "\<And>f. step_status_of (cs_db s2) ?oid (Fwd f) \<noteq> Some S_SUCCEEDED \<Longrightarrow> decided K E V deps order False (Fwd f)"
    using dec st2 by simp
  have K2: "K (cs_world s2)" and ok2: "db_ok (cs_db s2)" using K ok1 s2 by auto
  have "forward_phase deps order s = runConcurrently deps order
      (filter (\<lambda>st. step_status_of (cs_db s2) ?oid st \<noteq> Some S_SUCCEEDED) (map Fwd FORWARD_STEPS)) False s2"
    using q1 q2 s2(1) by (simp add: forward_phase_def seq_act_Inr bind_act_Inr)
  with pending_decided [where K = K and V = V and E = E, OF works d K2 ok2 rows] show ?thesis
    unfolding st2 s2(2) by simp
qed

section \<open>The saga\<close>

lemma finish_works:
  "database_works deps \<Longrightarrow> \<exists>s'. finish_order deps order x s = (Inr x, s') \<and> cs_world s' = cs_world s"
  using query_works [of deps "setOrderStatus (orderId order) (instanceId deps) x True None" s]
  by (auto simp: finish_order_def bind_act_Inr ret_act_def)

lemma decided_status [simp]:
  "decided K E V deps (order\<lparr>claimed_status := x\<rparr>) frc st = decided K E V deps order frc st"
  by (simp add: decided_def answers_def post_step_def step_body_def)

lemma list_all_FORWARD: "list_all P FORWARD_STEPS \<longleftrightarrow> (\<forall>f. P f)"
  using forward_step_cases by (auto simp: list_all_iff)

text \<open>The steps of an order that are recorded as done.\<close>

definition on_record :: "saga_db \<Rightarrow> ClaimedOrder \<Rightarrow> forward_step \<Rightarrow> bool" where
  "on_record db order f \<longleftrightarrow> step_status_of db (orderId order) (Fwd f) = Some S_SUCCEEDED"

lemma on_record_status [simp]: "on_record db (order\<lparr>claimed_status := x\<rparr>) = on_record db order"
  by (simp add: on_record_def fun_eq_iff)

lemma rollback_decided:
  fixes deps :: "'w SagaDeps"
  assumes works: "database_works deps"
    and "\<And>f. on_record (cs_db s) order f \<Longrightarrow> decided K E V deps order frc (Comp (COMPENSATION_OF f))"
    and "K (cs_world s)" and "db_ok (cs_db s)"
    and x: "x = (if \<forall>f. on_record (cs_db s) order f \<longrightarrow> V (Comp (COMPENSATION_OF f)) then CANCELLED else NEEDS_ATTENTION)"
  shows "\<exists>s'. bind_act (compensate deps order frc) (finish_order deps order') s = (Inr x, s') \<and>
      K (cs_world s') \<and> only_more E (cs_world s) (cs_world s') \<and>
      (\<forall>f. on_record (cs_db s) order f \<longrightarrow> E (Comp (COMPENSATION_OF f)) (cs_world s'))"
proof -
  obtain s1 where c: "compensate deps order frc s = (Inr x, s1)" and s1: "K (cs_world s1)"
      "only_more E (cs_world s) (cs_world s1)" "\<forall>f. on_record (cs_db s) order f \<longrightarrow> E (Comp (COMPENSATION_OF f)) (cs_world s1)"
    using compensate_decided [where K = K and V = V and E = E, OF assms(1-4) [unfolded on_record_def]]
    unfolding x on_record_def by blast
  obtain s2 where "finish_order deps order' x s1 = (Inr x, s2)" "cs_world s2 = cs_world s1"
    using finish_works [OF works] by blast
  with c s1 show ?thesis by (auto simp: bind_act_Inr)
qed

text \<open>
  What a run of the saga has to do: the forward steps it requests, the undo steps it requests, and
  its answer.
\<close>

definition verdict_of :: "(step \<Rightarrow> bool) \<Rightarrow> ClaimedOrder \<Rightarrow> saga_db \<Rightarrow> order_status" where
  "verdict_of V order db = saga_verdict (claimed_status order = COMPENSATING) (on_record db order) V"

definition wants_do :: "ClaimedOrder \<Rightarrow> saga_db \<Rightarrow> forward_step \<Rightarrow> bool" where
  "wants_do order db f \<longleftrightarrow> claimed_status order \<noteq> COMPENSATING \<and> \<not> on_record db order f"

definition wants_undo :: "(step \<Rightarrow> bool) \<Rightarrow> ClaimedOrder \<Rightarrow> saga_db \<Rightarrow> forward_step \<Rightarrow> bool" where
  "wants_undo V order db f \<longleftrightarrow> verdict_of V order db \<noteq> PLACED \<and>
     (on_record db order f \<or> claimed_status order \<noteq> COMPENSATING \<and> V (Fwd f))"

definition carried_out ::
  "('w \<Rightarrow> bool) \<Rightarrow> (step \<Rightarrow> 'w \<Rightarrow> bool) \<Rightarrow> (step \<Rightarrow> bool) \<Rightarrow> ClaimedOrder \<Rightarrow> saga_db \<Rightarrow> 'w \<Rightarrow> 'w \<Rightarrow> bool" where
  "carried_out K E V order db w w' \<longleftrightarrow> K w' \<and> only_more E w w' \<and>
     (\<forall>f. wants_do order db f \<longrightarrow> E (Fwd f) w') \<and>
     (\<forall>f. wants_undo V order db f \<longrightarrow> E (Comp (COMPENSATION_OF f)) w')"

lemmas decision_defs = carried_out_def wants_do_def wants_undo_def on_record_def

lemma recovery_decision:
  fixes deps :: "'w SagaDeps"
  assumes works: "database_works deps" and ok: "db_ok (cs_db s)" and K: "K (cs_world s)"
    and undo: "\<And>f. wants_undo V order (cs_db s) f \<Longrightarrow> decided K E V deps order False (Comp (COMPENSATION_OF f))"
    and rec: "claimed_status order = COMPENSATING"
  shows "\<exists>s'. saga_body deps order s = (Inr (verdict_of V order (cs_db s)), s') \<and>
    carried_out K E V order (cs_db s) (cs_world s) (cs_world s')"
proof -
  have v: "verdict_of V order (cs_db s) =
      (if \<forall>f. on_record (cs_db s) order f \<longrightarrow> V (Comp (COMPENSATION_OF f)) then CANCELLED else NEEDS_ATTENTION)"
    using rec by (simp add: verdict_of_def saga_verdict_def list_all_FORWARD)
  have "decided K E V deps order False (Comp (COMPENSATION_OF f))" if "on_record (cs_db s) order f" for f
    by (rule undo) (use that in \<open>simp add: wants_undo_def v\<close>)
  from rollback_decided [where K = K and V = V and E = E and order' = order, OF works this K ok v] rec
  show ?thesis by (auto simp: saga_body_def carried_out_def wants_do_def wants_undo_def)
qed

lemma forward_decision:
  fixes deps :: "'w SagaDeps"
  assumes works: "database_works deps" and ok: "db_ok (cs_db s)" and K: "K (cs_world s)"
    and fwd: "\<And>f. wants_do order (cs_db s) f \<Longrightarrow> decided K E V deps order False (Fwd f)"
    and undo: "\<And>f. wants_undo V order (cs_db s) f \<Longrightarrow> decided K E V deps order False (Comp (COMPENSATION_OF f))"
    and new: "claimed_status order \<noteq> COMPENSATING"
  shows "\<exists>s'. saga_body deps order s = (Inr (verdict_of V order (cs_db s)), s') \<and>
    carried_out K E V order (cs_db s) (cs_world s) (cs_world s')"
proof -
  let ?v = "verdict_of V order (cs_db s)"
  let ?P = "on_record (cs_db s) order"
  obtain outs s1 where f: "forward_phase deps order s = (Inr outs, s1)"
    and F: "K (cs_world s1)" "db_ok (cs_db s1)" "\<And>f. on_record (cs_db s1) order f \<longleftrightarrow> ?P f \<or> V (Fwd f)"
      "filter (\<lambda>out. \<not> out_ok out) outs = [] \<longleftrightarrow> (\<forall>f. ?P f \<or> V (Fwd f))"
      "only_more E (cs_world s) (cs_world s1)" "\<And>f. \<not> ?P f \<Longrightarrow> E (Fwd f) (cs_world s1)"
    using forward_decided [where K = K and V = V and E = E and s = s and order = order, OF works _ K ok]
      fwd new by (auto simp: wants_do_def on_record_def)
  show ?thesis
  proof (cases "\<forall>f. ?P f \<or> V (Fwd f)")
    case True
    then have v: "?v = PLACED" using new by (simp add: verdict_of_def saga_verdict_def list_all_FORWARD)
    obtain s2 where s2: "finish_order deps order PLACED s1 = (Inr PLACED, s2)" "cs_world s2 = cs_world s1"
      using finish_works [OF works] by blast
    then have "saga_body deps order s = (Inr PLACED, s2)"
      using True new f F(4) by (simp add: saga_body_def bind_act_Inr)
    with v s2 F show ?thesis by (auto simp: carried_out_def wants_do_def wants_undo_def)
  next
    case False
    define x where "x = (if \<forall>f. (?P f \<or> V (Fwd f)) \<longrightarrow> V (Comp (COMPENSATION_OF f)) then CANCELLED else NEEDS_ATTENTION)"
    have v: "?v = x" "x \<noteq> PLACED"
      using False new by (auto simp: verdict_of_def saga_verdict_def list_all_FORWARD x_def)
    have dec: "decided K E V deps order False (Comp (COMPENSATION_OF f))" if "?P f \<or> V (Fwd f)" for f
      by (rule undo) (use that v new in \<open>auto simp: wants_undo_def\<close>)
    let ?q = "setOrderStatus (orderId order) (instanceId deps) COMPENSATING False
      (Some (first_error_text (filter (\<lambda>out. \<not> out_ok out) outs)))"
    obtain s2 where q: "query deps ?q s1 = (Inr (fst (?q (cs_now s1) (cs_db s1))), s2)"
      and s2: "cs_db s2 = snd (?q (cs_now s1) (cs_db s1))" "cs_world s2 = cs_world s1"
      using query_works [OF works, of ?q s1] by auto
    have rows: "on_record (cs_db s2) order = on_record (cs_db s1) order" "db_ok (cs_db s2)"
      using set_status_near [OF F(2)] s2 by (auto simp: on_record_def fun_eq_iff)
    obtain s3 where s3: "bind_act (compensate deps (order\<lparr>claimed_status := COMPENSATING\<rparr>) False)
        (finish_order deps order) s2 = (Inr x, s3)"
      and R: "K (cs_world s3)" "only_more E (cs_world s1) (cs_world s3)"
        "\<forall>f. ?P f \<or> V (Fwd f) \<longrightarrow> E (Comp (COMPENSATION_OF f)) (cs_world s3)"
      using rollback_decided [where K = K and V = V and E = E and s = s2 and x = x and frc = False
          and order = "order\<lparr>claimed_status := COMPENSATING\<rparr>" and order' = order, OF works]
        dec F(1,3) rows s2(2) x_def by auto
    have "filter (\<lambda>out. \<not> out_ok out) outs \<noteq> []" using False F(4) by blast
    then have "saga_body deps order s = (Inr x, s3)"
      using s3 new f q by (simp add: saga_body_def bind_act_Inr Let_def)
    moreover have "E (Fwd f) (cs_world s3)" if "\<not> ?P f" for f
      using R(2) F(6) [OF that] by (simp add: only_more_def)
    ultimately show ?thesis
      using v(1) R(1,3) only_more_trans [OF F(5) R(2)] by (auto simp: carried_out_def wants_do_def wants_undo_def)
  qed
qed

lemma saga_decision:
  fixes deps :: "'w SagaDeps"
  assumes "database_works deps" and "db_ok (cs_db s)" and "K (cs_world s)"
    and "\<And>f. wants_do order (cs_db s) f \<Longrightarrow> decided K E V deps order False (Fwd f)"
    and "\<And>f. wants_undo V order (cs_db s) f \<Longrightarrow> decided K E V deps order False (Comp (COMPENSATION_OF f))"
  shows "\<exists>s'. runSaga deps order s = (Inr (verdict_of V order (cs_db s)), s') \<and>
    carried_out K E V order (cs_db s) (cs_world s) (cs_world s')"
proof -
  let ?s = "startHeartbeat (orderId order) s"
  have "\<exists>s'. saga_body deps order ?s = (Inr (verdict_of V order (cs_db ?s)), s') \<and>
      carried_out K E V order (cs_db ?s) (cs_world ?s) (cs_world s')"
    using recovery_decision [where K = K and V = V and E = E and order = order and s = ?s and deps = deps]
      forward_decision [where K = K and V = V and E = E and order = order and s = ?s and deps = deps] assms
    by (cases "claimed_status order = COMPENSATING") simp_all
  then obtain s1 where "saga_body deps order ?s = (Inr (verdict_of V order (cs_db s)), s1)"
    "carried_out K E V order (cs_db s) (cs_world s) (cs_world s1)" by auto
  then show ?thesis by (intro exI [of _ "stopHeartbeat s1"]) (simp add: runSaga_def)
qed

text \<open>
  C3. The saga decides as specified. When the coordinator's database works and every step the run
  wants is either answered or not, in all states of the services that can occur (however often
  it is tried, in whatever order the branches go, whatever time passes), runSaga returns
  \<open>saga_verdict\<close>: PLACED when every forward step is recorded or answered; otherwise CANCELLED when
  the undo of every step that was recorded or answered is answered, else NEEDS_ATTENTION; an order
  claimed in COMPENSATING only gets the second half. Every forward step not yet recorded was
  requested, answered or not, and unless the order is PLACED so was the undo of every step that
  was recorded or answered: the effects \<open>E\<close> of those requests are there in the end.
\<close>

theorem saga_decided:
  fixes deps :: "'w SagaDeps"
  assumes "database_works deps" and "db_ok (cs_db s)" and "K (cs_world s)"
    and "\<And>f. wants_do order (cs_db s) f \<Longrightarrow> decided K E V deps order False (Fwd f)"
    and "\<And>f. wants_undo V order (cs_db s) f \<Longrightarrow> decided K E V deps order False (Comp (COMPENSATION_OF f))"
  shows "\<exists>s'. runSaga deps order s =
      (Inr (saga_verdict (claimed_status order = COMPENSATING) (on_record (cs_db s) order) V), s') \<and>
    K (cs_world s') \<and> only_more E (cs_world s) (cs_world s') \<and>
    (\<forall>f. wants_do order (cs_db s) f \<longrightarrow> E (Fwd f) (cs_world s')) \<and>
    (\<forall>f. wants_undo V order (cs_db s) f \<longrightarrow> E (Comp (COMPENSATION_OF f)) (cs_world s'))"
  using saga_decision [where K = K and V = V and E = E and order = order, OF assms]
  by (simp add: carried_out_def verdict_of_def)

theorem saga_decided_witness:
  "fst (runSaga (log_deps 200 (\<lambda>_. Stmt_ok)) (sample_order\<lparr>claimed_status := IN_PROGRESS\<rparr>)
     (sample_saga S_FAILED)) = Inr PLACED \<and>
   fst (runSaga (log_deps 503 (\<lambda>_. Stmt_ok)) (sample_order\<lparr>claimed_status := IN_PROGRESS\<rparr>)
     (sample_saga S_SUCCEEDED)) = Inr NEEDS_ATTENTION"
proof -
  let ?o = "sample_order\<lparr>claimed_status := IN_PROGRESS\<rparr>"
  let ?E = "\<lambda>st w. idempotencyKey ''A'' st \<in> set w"
  have works: "database_works (log_deps n (\<lambda>_. Stmt_ok))" for n by (simp add: database_works_def log_deps_def)
  have dec: "decided (\<lambda>_. True) ?E (\<lambda>_. n = 200) (log_deps n (\<lambda>_. Stmt_ok)) ?o False st" if "n = 200 \<or> n = 503" for n st
    using that by (auto simp: decided_def answers_def post_step_def log_deps_def log_fetch_def response_ok_def Let_def)
  have "fst (runSaga (log_deps 200 (\<lambda>_. Stmt_ok)) ?o (sample_saga S_FAILED)) = Inr PLACED"
    using saga_decided [where K = "\<lambda>_. True" and V = "\<lambda>_. True" and E = ?E and order = ?o
        and s = "sample_saga S_FAILED" and deps = "log_deps 200 (\<lambda>_. Stmt_ok)", OF works sample_saga_ok]
      dec [of 200] by (auto simp: saga_verdict_def list_all_FORWARD on_record_def)
  moreover have "fst (runSaga (log_deps 503 (\<lambda>_. Stmt_ok)) ?o (sample_saga S_SUCCEEDED)) = Inr NEEDS_ATTENTION"
    using saga_decided [where K = "\<lambda>_. True" and V = "\<lambda>_. False" and E = ?E and order = ?o
        and s = "sample_saga S_SUCCEEDED" and deps = "log_deps 503 (\<lambda>_. Stmt_ok)", OF works sample_saga_ok]
      dec [of 503] by (auto simp: saga_verdict_def list_all_FORWARD on_record_def sample_status)
  ultimately show ?thesis by blast
qed

end
