(* ===== verification/StepContract.thy ===== *)
theory StepContract
  imports Service
begin

text \<open>
  What the coordinator may rely on in a pair of step endpoints, whichever service serves them: the
  forward handler makes its effect for an order live and refuses to do so twice, the compensating
  handler never fails and is a no-op when there is nothing to undo. The locale states these laws;
  its lemmas follow the effect of an order through any sequence of requests, with the idempotency
  records on one side and the tables on the other. Each service interprets it.
\<close>

section \<open>Requests to a pair of endpoints\<close>

record step_request =
  rq_undo :: bool
  rq_raw :: "json option"
  rq_env :: idem_env
  rq_wait :: nat
  rq_disturbances :: "disturbance list"

definition settle_in :: "step_request \<Rightarrow> 'd step_service \<Rightarrow> 'd step_service" where
  "settle_in q s = s\<lparr>svc_now := svc_now s + int (rq_wait q),
     svc_cache := fold disturb (rq_disturbances q) (svc_cache s)\<rparr>"

definition serve ::
  "forward_step \<Rightarrow> 'd handler \<Rightarrow> 'd handler \<Rightarrow> step_request \<Rightarrow> 'd step_service \<Rightarrow>
     http_response \<times> 'd step_service" where
  "serve f doit undo q s =
    (if rq_undo q
     then registerStep (rq_env q) (Comp (COMPENSATION_OF f)) undo (rq_raw q) (settle_in q s)
     else registerStep (rq_env q) (Fwd f) doit (rq_raw q) (settle_in q s))"

fun serves ::
  "forward_step \<Rightarrow> 'd handler \<Rightarrow> 'd handler \<Rightarrow> step_request list \<Rightarrow> 'd step_service \<Rightarrow>
     http_response list \<times> 'd step_service" where
  "serves f doit undo [] s = ([], s)"
| "serves f doit undo (q # qs) s =
     (case serve f doit undo q s of (r, s1) \<Rightarrow>
       (case serves f doit undo qs s1 of (rs, s2) \<Rightarrow> (r # rs, s2)))"

definition is_done :: "step \<Rightarrow> 'd step_service \<Rightarrow> string \<Rightarrow> bool" where
  "is_done step s oid \<longleftrightarrow> completed (records s) (idempotencyKey oid step) \<noteq> None"

text \<open>A response that reports the step as carried out, now or before.\<close>

definition confirms :: "step \<Rightarrow> string \<Rightarrow> http_response \<Rightarrow> bool" where
  "confirms step oid r \<longleftrightarrow> http_status r = 200 \<and>
     (case http_body r of Inr p \<Rightarrow> resp_operation p = step \<and> resp_orderId p = oid | Inl _ \<Rightarrow> False)"

lemma errorMiddleware_status: "http_status (errorMiddleware e) \<in> {409, 422, 500}"
  by (cases e) (simp_all add: errorMiddleware_def error_response_def)

lemma errorMiddleware_not_confirms [simp]: "\<not> confirms step oid (errorMiddleware e)"
  using errorMiddleware_status [of e] by (auto simp: confirms_def)

lemma settle_in_simps [simp]:
  "domain (settle_in q s) = domain s" "records (settle_in q s) = records s"
  by (simp_all add: settle_in_def)

lemma settle_in_ok: "redis.svc_ok s \<Longrightarrow> redis.svc_ok (settle_in q s)"
  by (auto simp: redis.svc_ok_def settle_in_def intro: disturbs_sound)

lemma is_done_settle [simp]: "is_done step (settle_in q s) = is_done step s"
  by (simp add: is_done_def fun_eq_iff)

lemma settle_in_now: "svc_now (settle_in q s) = svc_now s + int (rq_wait q)"
  by (simp add: settle_in_def)

lemma is_done_empty [simp]: "\<not> is_done step (empty_service d) oid"
  by (simp add: is_done_def)

text \<open>What one request did: nothing that lasts, or one run of the handler and its record.\<close>

lemma registerStep_cases:
  assumes "redis.svc_ok s" and "registerStep env step handler raw s = (r, s')"
  obtains (idle) "redis.svc_ok s'" "domain s' = domain s" "\<And>step'. is_done step' s' = is_done step' s"
      "\<And>oid. confirms step oid r \<Longrightarrow> is_done step s oid"
  | (runs) body v t where "redis.svc_ok s'" "validateBody raw = Inr body"
      "handler body t (domain s) = (Inr v, domain s')" "\<not> is_done step s (orderId body)"
      "\<And>step'. is_done step' s' =
        (if step' = step then (is_done step' s)(orderId body := True) else is_done step' s)"
      "\<And>oid. confirms step oid r \<Longrightarrow> oid = orderId body"
proof -
  obtain q s1 where q: "step_route env step handler raw s = (q, s1)" by fastforce
  note P = step_route_spec [OF assms(1) q]
  have s1: "s1 = s'" using assms(2) q by (auto simp: registerStep_def split: sum.splits)
  have grow: "is_done step' s' = (if step' = step then (is_done step' s)(orderId body := True) else is_done step' s)"
    if "completed (records s') = (completed (records s))(idempotencyKey (orderId body) step \<mapsto> v)" for body v step'
    using that by (auto simp: is_done_def fun_eq_iff idempotencyKey_inj)
  show ?thesis
  proof (cases q)
    case (Inl e)
    then have r: "r = errorMiddleware e" using assms(2) q by (simp add: registerStep_def)
    from P Inl consider
        "redis.svc_ok s1" "domain s1 = domain s" "completed (records s1) = completed (records s)"
      | body v t where "redis.svc_ok s1" "validateBody raw = Inr body"
          "completed (records s) (idempotencyKey (orderId body) step) = None"
          "handler body t (domain s) = (Inr v, domain s1)"
          "completed (records s1) = (completed (records s))(idempotencyKey (orderId body) step \<mapsto> v)"
      by auto
    then show ?thesis
    proof cases
      case 1
      then show ?thesis by (intro idle) (auto simp: s1 r is_done_def)
    next
      case 2
      then show ?thesis
        by (intro runs [OF _ _ _ _ grow]) (auto simp: s1 r is_done_def)
    qed
  next
    case (Inr p)
    then have r: "r = \<lparr>http_status = 200, http_body = Inr p\<rparr>"
      using assms(2) q by (simp add: registerStep_def)
    from P Inr obtain body where b: "validateBody raw = Inr body" "resp_orderId p = orderId body"
        "redis.svc_ok s1" "completed (records s1) (idempotencyKey (orderId body) step) = Some (resp_data p)"
      and c: "if resp_replayed p then domain s1 = domain s \<and> completed (records s1) = completed (records s)
          else completed (records s) (idempotencyKey (orderId body) step) = None \<and>
            (\<exists>t. handler body t (domain s) = (Inr (resp_data p), domain s1)) \<and>
            completed (records s1) =
              (completed (records s))(idempotencyKey (orderId body) step \<mapsto> resp_data p)"
      by auto
    show ?thesis
    proof (cases "resp_replayed p")
      case True
      with b c show ?thesis by (intro idle) (auto simp: s1 r confirms_def is_done_def)
    next
      case False
      with c obtain t where "handler body t (domain s) = (Inr (resp_data p), domain s1)" by auto
      with False b c show ?thesis
        by (intro runs [OF _ _ _ _ grow]) (auto simp: s1 r confirms_def is_done_def)
    qed
  qed
qed

text \<open>Records of completed steps never go away.\<close>

lemma serve_done_mono:
  assumes "redis.svc_ok s" and "serve f doit undo q s = (r, s')"
  shows "redis.svc_ok s' \<and> (is_done step s oid \<longrightarrow> is_done step s' oid)"
proof (cases "rq_undo q")
  case True
  with assms have "registerStep (rq_env q) (Comp (COMPENSATION_OF f)) undo (rq_raw q) (settle_in q s) = (r, s')"
    by (simp add: serve_def)
  from settle_in_ok [OF assms(1)] this show ?thesis
    by (cases rule: registerStep_cases) auto
next
  case False
  with assms have "registerStep (rq_env q) (Fwd f) doit (rq_raw q) (settle_in q s) = (r, s')"
    by (simp add: serve_def)
  from settle_in_ok [OF assms(1)] this show ?thesis
    by (cases rule: registerStep_cases) auto
qed

lemma serves_done_mono:
  assumes "redis.svc_ok s" and "serves f doit undo qs s = (rs, s')"
  shows "redis.svc_ok s' \<and> (is_done step s oid \<longrightarrow> is_done step s' oid)"
  using assms
proof (induction qs arbitrary: s rs)
  case (Cons q qs)
  obtain r s1 where 1: "serve f doit undo q s = (r, s1)" by fastforce
  obtain rs1 where 2: "serves f doit undo qs s1 = (rs1, s')"
    using Cons.prems(2) 1 by (auto split: prod.splits)
  from serve_done_mono [OF Cons.prems(1) 1] Cons.IH [OF _ 2] show ?case by blast
qed simp

section \<open>The contract\<close>

text \<open>
  The coordinator's discipline: it asks to undo a step of an order only when the step's record is
  there.
\<close>

definition undo_in_order :: "forward_step \<Rightarrow> step_request \<Rightarrow> 'd step_service \<Rightarrow> bool" where
  "undo_in_order f q s \<longleftrightarrow> (rq_undo q \<longrightarrow>
     (case validateBody (rq_raw q) of Inl _ \<Rightarrow> True | Inr b \<Rightarrow> is_done (Fwd f) s (orderId b)))"

fun disciplined ::
  "forward_step \<Rightarrow> 'd handler \<Rightarrow> 'd handler \<Rightarrow> step_request list \<Rightarrow> 'd step_service \<Rightarrow> bool" where
  "disciplined f doit undo [] s = True"
| "disciplined f doit undo (q # qs) s =
     (undo_in_order f q s \<and> disciplined f doit undo qs (snd (serve f doit undo q s)))"

locale step_contract =
  fixes doit undo :: "'d handler"
    and active :: "'d \<Rightarrow> string \<Rightarrow> bool"
    and wf :: "'d \<Rightarrow> bool"
  assumes do_effect: "wf d \<Longrightarrow> doit b t d = (Inr v, d') \<Longrightarrow>
      wf d' \<and> \<not> active d (orderId b) \<and> active d' = (active d)(orderId b := True)"
    and undo_effect: "wf d \<Longrightarrow> undo b t d = (r, d') \<Longrightarrow>
      (\<exists>v. r = Inr v) \<and> wf d' \<and> active d' = (active d)(orderId b := False)"
    and undo_idle: "wf d \<Longrightarrow> \<not> active d (orderId b) \<Longrightarrow> snd (undo b t d) = d"
begin

lemma undo_twice:
  assumes "wf d" and "undo b t d = (r, d')"
  shows "snd (undo b t' d') = d'"
  using undo_effect [OF assms] by (intro undo_idle) auto

text \<open>The tables say an order's effect is live exactly when it was done and not undone.\<close>

definition exact :: "forward_step \<Rightarrow> 'd step_service \<Rightarrow> bool" where
  "exact f s \<longleftrightarrow> redis.svc_ok s \<and> wf (domain s) \<and>
     (\<forall>oid. active (domain s) oid \<longleftrightarrow>
        is_done (Fwd f) s oid \<and> \<not> is_done (Comp (COMPENSATION_OF f)) s oid) \<and>
     (\<forall>oid. is_done (Comp (COMPENSATION_OF f)) s oid \<longrightarrow> is_done (Fwd f) s oid)"

lemma exact_empty: "wf d \<Longrightarrow> (\<And>oid. \<not> active d oid) \<Longrightarrow> exact f (empty_service d)"
  by (simp add: exact_def)

lemma serve_exact:
  assumes inv: "exact f s" and "undo_in_order f q s" and run: "serve f doit undo q s = (r, s')"
  shows "exact f s'"
proof (cases "rq_undo q")
  case True
  with run have reg: "registerStep (rq_env q) (Comp (COMPENSATION_OF f)) undo (rq_raw q) (settle_in q s) = (r, s')"
    by (simp add: serve_def)
  have "redis.svc_ok (settle_in q s)" using inv by (simp add: exact_def settle_in_ok)
  from this reg show ?thesis
  proof (cases rule: registerStep_cases)
    case idle
    with inv show ?thesis by (simp add: exact_def)
  next
    case (runs body v t)
    with assms(2) True have "is_done (Fwd f) s (orderId body)" by (simp add: undo_in_order_def)
    moreover from undo_effect [OF _ runs(3)] inv
    have "wf (domain s')" "active (domain s') = (active (domain s))(orderId body := False)"
      by (auto simp: exact_def)
    ultimately show ?thesis using inv runs(1,5) by (auto simp: exact_def)
  qed
next
  case False
  with run have reg: "registerStep (rq_env q) (Fwd f) doit (rq_raw q) (settle_in q s) = (r, s')"
    by (simp add: serve_def)
  have "redis.svc_ok (settle_in q s)" using inv by (simp add: exact_def settle_in_ok)
  from this reg show ?thesis
  proof (cases rule: registerStep_cases)
    case idle
    with inv show ?thesis by (simp add: exact_def)
  next
    case (runs body v t)
    from do_effect [OF _ runs(3)] inv
    have "wf (domain s')" "active (domain s') = (active (domain s))(orderId body := True)"
      by (auto simp: exact_def)
    moreover from inv runs(4) have "\<not> is_done (Comp (COMPENSATION_OF f)) s (orderId body)"
      by (auto simp: exact_def)
    ultimately show ?thesis using inv runs(1,5) by (auto simp: exact_def)
  qed
qed

lemma serves_exact:
  assumes "exact f s" and "disciplined f doit undo qs s" and "serves f doit undo qs s = (rs, s')"
  shows "exact f s'"
  using assms
proof (induction qs arbitrary: s rs)
  case (Cons q qs)
  obtain r s1 where 1: "serve f doit undo q s = (r, s1)" by fastforce
  obtain rs1 where 2: "serves f doit undo qs s1 = (rs1, s')"
    using Cons.prems(3) 1 by (auto split: prod.splits)
  from serve_exact [OF Cons.prems(1) _ 1] Cons.prems(2) 1 Cons.IH [OF _ _ 2] show ?case by simp
qed simp

text \<open>Once undone, an order's effect is off for good.\<close>

lemma undone_forever:
  assumes "exact f s" and "is_done (Comp (COMPENSATION_OF f)) s oid"
    and "disciplined f doit undo qs s" and "serves f doit undo qs s = (rs, s')"
  shows "\<not> active (domain s') oid"
  using serves_exact [OF assms(1,3,4)] serves_done_mono [OF _ assms(4)] assms(1,2)
  by (auto simp: exact_def)

end

section \<open>Predicates that successful handlers keep\<close>

lemma serve_keeps:
  assumes ok: "redis.svc_ok s"
    and P: "P (domain s) (is_done (Fwd f) s) (is_done (Comp (COMPENSATION_OF f)) s)"
    and bodies: "\<And>b. validateBody (rq_raw q) = Inr b \<Longrightarrow> B b"
    and doit: "\<And>b t v d d' D U. B b \<Longrightarrow> P d D U \<Longrightarrow> doit b t d = (Inr v, d') \<Longrightarrow>
        P d' (D(orderId b := True)) U"
    and undo: "\<And>b t v d d' D U. B b \<Longrightarrow> P d D U \<Longrightarrow> (in_order \<longrightarrow> D (orderId b)) \<Longrightarrow>
        undo b t d = (Inr v, d') \<Longrightarrow> P d' D (U(orderId b := True))"
    and disc: "in_order \<longrightarrow> undo_in_order f q s"
    and run: "serve f doit undo q s = (r, s')"
  shows "P (domain s') (is_done (Fwd f) s') (is_done (Comp (COMPENSATION_OF f)) s')"
proof (cases "rq_undo q")
  case True
  with run have reg: "registerStep (rq_env q) (Comp (COMPENSATION_OF f)) undo (rq_raw q) (settle_in q s) = (r, s')"
    by (simp add: serve_def)
  from settle_in_ok [OF ok] reg show ?thesis
  proof (cases rule: registerStep_cases)
    case idle
    with P show ?thesis by simp
  next
    case (runs body v t)
    with disc True have "in_order \<longrightarrow> is_done (Fwd f) s (orderId body)" by (simp add: undo_in_order_def)
    from undo [OF bodies [OF runs(2)] P this] runs show ?thesis by simp
  qed
next
  case False
  with run have reg: "registerStep (rq_env q) (Fwd f) doit (rq_raw q) (settle_in q s) = (r, s')"
    by (simp add: serve_def)
  from settle_in_ok [OF ok] reg show ?thesis
  proof (cases rule: registerStep_cases)
    case idle
    with P show ?thesis by simp
  next
    case (runs body v t)
    from doit [OF bodies [OF runs(2)] P] runs show ?thesis by simp
  qed
qed

text \<open>The bodies of a list of requests.\<close>

definition bodies_are :: "(StepRequestBody \<Rightarrow> bool) \<Rightarrow> step_request list \<Rightarrow> bool" where
  "bodies_are B qs \<longleftrightarrow>
     list_all (\<lambda>q. case validateBody (rq_raw q) of Inl _ \<Rightarrow> True | Inr b \<Rightarrow> B b) qs"

lemma bodies_are_any [simp]: "bodies_are (\<lambda>_. True) qs"
  by (auto simp: bodies_are_def list_all_iff split: sum.splits)

lemma serves_keeps:
  assumes "redis.svc_ok s"
    and "P (domain s) (is_done (Fwd f) s) (is_done (Comp (COMPENSATION_OF f)) s)"
    and "bodies_are B qs"
    and doit: "\<And>b t v d d' D U. B b \<Longrightarrow> P d D U \<Longrightarrow> doit b t d = (Inr v, d') \<Longrightarrow>
        P d' (D(orderId b := True)) U"
    and undo: "\<And>b t v d d' D U. B b \<Longrightarrow> P d D U \<Longrightarrow> (in_order \<longrightarrow> D (orderId b)) \<Longrightarrow>
        undo b t d = (Inr v, d') \<Longrightarrow> P d' D (U(orderId b := True))"
    and "in_order \<longrightarrow> disciplined f doit undo qs s"
    and "serves f doit undo qs s = (rs, s')"
  shows "P (domain s') (is_done (Fwd f) s') (is_done (Comp (COMPENSATION_OF f)) s')"
  using assms(1,2,3,6,7)
proof (induction qs arbitrary: s rs)
  case (Cons q qs)
  obtain r s1 where 1: "serve f doit undo q s = (r, s1)" by fastforce
  obtain rs1 where 2: "serves f doit undo qs s1 = (rs1, s')"
    using Cons.prems(5) 1 by (auto split: prod.splits)
  have b: "validateBody (rq_raw q) = Inr b \<Longrightarrow> B b" for b
    using Cons.prems(3) by (simp add: bodies_are_def)
  have u: "in_order \<longrightarrow> undo_in_order f q s" using Cons.prems(4) by simp
  have "P (domain s1) (is_done (Fwd f) s1) (is_done (Comp (COMPENSATION_OF f)) s1)"
    by (rule serve_keeps [where P = P and B = B and in_order = in_order, OF Cons.prems(1,2) b doit undo u 1])
  with serve_done_mono [OF Cons.prems(1) 1] Cons.IH [OF _ _ _ _ 2] Cons.prems(3,4) 1
  show ?case by (simp add: bodies_are_def)
qed simp

section \<open>Sample requests\<close>

definition sample_body :: StepRequestBody where
  "sample_body = \<lparr>orderId = ''A'', sku = ''S1'', qty = 2, amount = ''10.00'', failAt = None,
     compFailAt = None, force = False\<rparr>"

definition plain_request :: "bool \<Rightarrow> StepRequestBody \<Rightarrow> step_request" where
  "plain_request undo body = \<lparr>rq_undo = undo, rq_raw = Some (body_json body), rq_env = no_faults,
     rq_wait = 0, rq_disturbances = []\<rparr>"

lemmas serve_eval =
  serve_def settle_in_def registerStep_def step_route_def validateBody_def body_json_def nullable_def
  assertNoInjectedFailure_def runIdempotent_def redis_ops_def redis_get_def redis_set_def
  createCache_def no_faults_def claim_phase_def insert_claim_def sql_insert_def sql_update_def
  work_phase_def Let_def complete_record_def claim_duplicate_def default_idem_options_def
  step_context_def idempotencyKey_def plain_request_def empty_service_def abandon_def
  release_claim_def sql_delete_def undo_in_order_def is_done_def completed_def bodies_are_def

end
