(* ===== verification/ServiceCalm.thy ===== *)
theory ServiceCalm
  imports StepContract
begin

text \<open>
  A step service without faults: it answers 200, replaying what is recorded and carrying out what
  is not, and stays ready for the next request of the order. The cache may be in any sound state.
\<close>

section \<open>Claims left behind\<close>

lemma in_progress_complete:
  "in_progress (fst (complete_record t key v rs)) k \<Longrightarrow> in_progress rs k \<and> k \<noteq> key"
  by (cases "row_at idempotency_key k rs")
     (auto simp: in_progress_def complete_record_def sql_key dest: row_at_Some_key split: if_splits)

lemma in_progress_insert:
  "insert_claim t ctx rs = Some rs' \<Longrightarrow> in_progress rs' k \<Longrightarrow> in_progress rs k \<or> k = ctx_key ctx"
  using row_at_snoc [of idempotency_key "\<lparr>idempotency_key = ctx_key ctx,
      rec_operation = ctx_operation ctx, rec_order_id = ctx_orderId ctx, rec_status = REC_IN_PROGRESS,
      created_at = t, completed_at = None\<rparr>" rs]
  by (auto simp: insert_claim_def sql_insert_Some in_progress_def split: if_splits)

text \<open>A call that answers leaves no claim open that was not open before.\<close>

lemma answered_no_claim:
  assumes "runIdempotent env C ctx work opts s = (Inr x, s')" and "in_progress (records s') k"
  shows "in_progress (records s) k"
proof (cases "cache_get C (svc_now s) (idempotencyCacheKey (ctx_key ctx)) (svc_cache s)")
  case (Some hit)
  with assms show ?thesis by (simp add: runIdempotent_def)
next
  case None
  obtain c s1 where c: "claim_phase env C ctx opts s = (c, s1)" by (cases "claim_phase env C ctx opts s")
  have dup: "in_progress (records s1) k \<Longrightarrow> in_progress (records s) k"
    if "claim_duplicate env C ctx opts s = (c, s1)" for k
    using that in_progress_takeover [of "svc_now s" "staleSeconds opts" "ctx_key ctx" "records s" k]
    by (auto simp: claim_duplicate_def split: option.splits rec_status.splits prod.splits if_splits)
  have claimed: "in_progress (records s1) k \<Longrightarrow> in_progress (records s) k \<or> k = ctx_key ctx" for k
    using c dup in_progress_insert [of "svc_now s" ctx "records s" _ k]
    by (auto simp: claim_phase_def split: option.splits if_splits)
  have replay: "c = Claim_replay v \<Longrightarrow> records s1 = records s" for v
    using c by (auto simp: claim_phase_def claim_duplicate_def
        split: option.splits rec_status.splits prod.splits if_splits)
  have "stmt_fault env Q_getConnection = None"
    using assms(1) None by (auto simp: runIdempotent_def split: option.splits)
  show ?thesis
  proof (cases c)
    case Claim_mine
    with assms(1) None c \<open>stmt_fault env Q_getConnection = None\<close>
    have "work_phase env C ctx work opts s1 = (Inr x, s')" by (simp add: runIdempotent_def)
    then obtain t v where "records s' = fst (complete_record t (ctx_key ctx) v (records s1))"
      by (auto simp: work_phase_def abandon_def Let_def split: option.splits prod.splits sum.splits commit_fate.splits)
    with assms(2) in_progress_complete have "in_progress (records s1) k" "k \<noteq> ctx_key ctx" by fastforce+
    with claimed show ?thesis by blast
  next
    case (Claim_replay v)
    with assms None c replay \<open>stmt_fault env Q_getConnection = None\<close> show ?thesis
      by (auto simp: runIdempotent_def)
  next
    case (Claim_error e)
    with assms(1) None c \<open>stmt_fault env Q_getConnection = None\<close> show ?thesis
      by (simp add: runIdempotent_def)
  qed
qed

section \<open>Calm services\<close>

text \<open>The step of a forward endpoint and its undo that a request is for.\<close>

definition served :: "forward_step \<Rightarrow> step_request \<Rightarrow> step" where
  "served f q = (if rq_undo q then Comp (COMPENSATION_OF f) else Fwd f)"

lemma validate_sent: "validateBody (Some (body_json b)) = Inr b' \<Longrightarrow> b' = b"
  by (cases b) (auto simp: validateBody_def body_json_def Let_def split: if_splits)

lemma validate_ok: "orderId b \<noteq> [] \<Longrightarrow> validateBody (Some (body_json b)) = Inr b"
  by (simp add: validateBody_def body_json_def Let_def)

context step_contract
begin

definition calm :: "forward_step \<Rightarrow> StepRequestBody \<Rightarrow> 'd step_service \<Rightarrow> bool" where
  "calm f b s \<longleftrightarrow> redis.svc_ok s \<and> wf (domain s) \<and>
     \<not> in_progress (records s) (idempotencyKey (orderId b) (Fwd f)) \<and>
     \<not> in_progress (records s) (idempotencyKey (orderId b) (Comp (COMPENSATION_OF f))) \<and>
     (is_done (Fwd f) s (orderId b) \<or> (\<forall>t. \<exists>v. fst (doit b t (domain s)) = Inr v))"

lemma calm_settle: "calm f b s \<Longrightarrow> calm f b (settle_in q s)"
  by (auto simp: calm_def settle_in_ok)

lemma calm_handler:
  assumes "calm f b s" and "st = Fwd f \<or> st = Comp (COMPENSATION_OF f)"
    and "\<not> is_done st s (orderId b)"
  shows "\<exists>v d. (if st = Fwd f then doit else undo) b t (domain s) = (Inr v, d) \<and> wf d \<and>
    (is_done (Fwd f) s (orderId b) \<or> st = Fwd f \<or> d = domain s)"
proof (cases "st = Fwd f")
  case True
  obtain r d where d: "doit b t (domain s) = (r, d)" by (cases "doit b t (domain s)")
  moreover obtain v where "r = Inr v" using assms True d by (auto simp: calm_def) (metis fst_conv)
  moreover have "wf d" using do_effect [of "domain s" b t v d] assms(1) d \<open>r = Inr v\<close> by (simp add: calm_def)
  ultimately show ?thesis using True by simp
next
  case False
  obtain r d where d: "undo b t (domain s) = (r, d)" by (cases "undo b t (domain s)")
  have wf: "wf (domain s)" using assms(1) by (simp add: calm_def)
  have "d = domain s" if "\<not> is_done (Fwd f) s (orderId b)"
  proof -
    have "\<exists>v. fst (doit b t (domain s)) = Inr v" using that assms(1) by (auto simp: calm_def)
    then obtain v d' where "doit b t (domain s) = (Inr v, d')" by (metis prod.collapse)
    from do_effect [OF wf this] have "\<not> active (domain s) (orderId b)" by simp
    from undo_idle [OF wf this, of t] d show ?thesis by simp
  qed
  with undo_effect [OF wf d] d False show ?thesis by auto
qed

text \<open>What the idempotent execution of a calm request does.\<close>

lemma calm_runs:
  assumes c: "calm f b s" and kind: "st = Fwd f \<or> st = Comp (COMPENSATION_OF f)"
  shows "\<exists>v rep s1. runIdempotent no_faults redis.ops (step_context st b) ((if st = Fwd f then doit else undo) b)
      default_idem_options s = (Inr (v, rep), s1) \<and> wf (domain s1) \<and>
    (is_done (Fwd f) s1 (orderId b) \<or> domain s1 = domain s)"
proof -
  let ?st = st and ?s = s
  let ?h = "if ?st = Fwd f then doit else undo"
  let ?ctx = "step_context ?st b"
  have ok: "redis.svc_ok ?s" and wf: "wf (domain ?s)" using c by (simp_all add: calm_def)
  let ?go = "runIdempotent no_faults redis.ops ?ctx (?h b) default_idem_options ?s"
  have faults: "stmt_fault no_faults x = None" "commit_fate no_faults = Commit_ok" for x
    by (simp_all add: no_faults_def)
  show ?thesis
  proof (cases "completed (records ?s) (ctx_key ?ctx)")
    case (Some v)
    obtain s1 where go: "?go = (Inr (v, True), s1)"
      using redis.runIdempotent_replays [OF ok Some faults(1)] by (metis prod.collapse)
    from redis.runIdempotent_spec [OF ok go] Some wf go show ?thesis by auto
  next
    case None
    then have nd: "\<not> is_done ?st ?s (orderId b)" by (simp add: is_done_def)
    have abs: "absent (records ?s) (ctx_key ?ctx)"
      using record_trichotomy [of "records ?s" "ctx_key ?ctx"] None c kind by (auto simp: calm_def)
    obtain v d where h: "?h b (svc_now ?s) (domain ?s) = (Inr v, d)" and d: "wf d"
        "is_done (Fwd f) ?s (orderId b) \<or> ?st = Fwd f \<or> d = domain ?s"
      using calm_handler [OF c kind nd] by blast
    obtain s1 where go: "?go = (Inr (v, False), s1)" "domain s1 = d"
        "completed (records s1) (ctx_key ?ctx) = Some v"
      using redis.runIdempotent_executes [where work = "?h b" and opts = default_idem_options and env = no_faults
        and v = v and d = d, OF ok abs faults h] by auto
    have keep: "is_done (Fwd f) ?s (orderId b) \<or> ?st = Fwd f \<Longrightarrow> is_done (Fwd f) s1 (orderId b)"
      using redis.runIdempotent_spec [OF ok go(1)] None go(3) by (auto simp: is_done_def)
    with go d show ?thesis by auto
  qed
qed

lemma calm_answers:
  assumes calm: "calm f b s" and req: "rq_raw q = Some (body_json b)" "rq_env q = no_faults"
    and b: "orderId b \<noteq> []" "assertNoInjectedFailure (served f q) b = Inr ()"
    and run: "serve f doit undo q s = (r, s')"
  shows "calm f b s' \<and> http_status r = 200 \<and> (\<exists>p. http_body r = Inr p) \<and> is_done (served f q) s' (orderId b)"
proof -
  let ?st = "served f q"
  let ?h = "if ?st = Fwd f then doit else undo"
  let ?s = "settle_in q s"
  let ?ctx = "step_context ?st b"
  have kind: "?st = Fwd f \<or> ?st = Comp (COMPENSATION_OF f)" by (simp add: served_def)
  have reg: "registerStep no_faults ?st ?h (Some (body_json b)) ?s = (r, s')"
    using run req by (cases "rq_undo q") (simp_all add: serve_def served_def)
  have c: "calm f b ?s" by (rule calm_settle [OF calm])
  then have ok: "redis.svc_ok ?s" and wf: "wf (domain ?s)" by (simp_all add: calm_def)
  let ?go = "runIdempotent no_faults redis.ops ?ctx (?h b) default_idem_options ?s"
  have faults: "stmt_fault no_faults x = None" "commit_fate no_faults = Commit_ok" for x
    by (simp_all add: no_faults_def)
  from calm_runs [OF c kind] obtain v rep s1 where go: "?go = (Inr (v, rep), s1)" and s1: "wf (domain s1)"
      "is_done (Fwd f) s1 (orderId b) \<or> domain s1 = domain ?s" by blast
  have route: "step_route no_faults ?st ?h (Some (body_json b)) ?s =
      (Inr \<lparr>resp_operation = ?st, resp_orderId = orderId b, resp_replayed = rep, resp_data = v\<rparr>, s1)"
    using go b by (simp add: step_route_def validate_ok redis_ops_def)
  have fin: "s' = s1" "http_status r = 200" "\<exists>p. http_body r = Inr p"
    using reg route by (auto simp: registerStep_def)
  have dn: "is_done ?st s1 (orderId b)"
    using step_route_spec [OF ok route] validate_ok [OF b(1)] by (auto simp: is_done_def)
  have "\<not> in_progress (records s1) (idempotencyKey (orderId b) x)" if "x = Fwd f \<or> x = Comp (COMPENSATION_OF f)" for x
    using answered_no_claim [OF go, of "idempotencyKey (orderId b) x"] c that by (auto simp: calm_def)
  moreover have "is_done (Fwd f) s1 (orderId b) \<or> (\<forall>t. \<exists>v. fst (doit b t (domain s1)) = Inr v)"
  proof (cases "is_done (Fwd f) s (orderId b)")
    case True
    have "serve f doit undo q s = (r, s1)" using run fin by simp
    from serve_done_mono [OF _ this] True calm show ?thesis by (auto simp: calm_def)
  next
    case False
    with s1 c show ?thesis by (auto simp: calm_def)
  qed
  moreover have "redis.svc_ok s1" using redis.runIdempotent_spec [OF ok go] by simp
  ultimately show ?thesis using fin dn s1 by (auto simp: calm_def)
qed

end

end
