(* ===== verification/OrderSvc.thy ===== *)
theory OrderSvc
  imports ServiceCalm
begin

text \<open>
  services/order/src/index.ts over the table orders of svc_order (UNIQUE on order_id). The
  columns the server fills in and nothing reads (id, created_at, updated_at) are left out.
\<close>

datatype orders_status = O_CREATED | O_CANCELLED

record orders_row =
  ord_order_id :: string
  ord_sku :: string
  ord_qty :: int
  ord_amount :: string
  ord_status :: orders_status
  ord_cancelled_at :: "int option"

type_synonym orders_table = "orders_row list"

definition create_order :: "orders_table handler" where
  "create_order body t rows =
    (case sql_insert ord_order_id
        \<lparr>ord_order_id = orderId body, ord_sku = sku body, ord_qty = qty body, ord_amount = amount body,
         ord_status = O_CREATED, ord_cancelled_at = None\<rparr> rows of
       None \<Rightarrow> (Inl dup_entry, rows)
     | Some rows' \<Rightarrow> (Inr [(''orderId'', JStr (orderId body)), (''status'', JStr ''CREATED'')], rows'))"

definition cancel_order :: "orders_table handler" where
  "cancel_order body t rows =
    (case sql_update (\<lambda>r. ord_order_id r = orderId body \<and> ord_status r = O_CREATED)
        (\<lambda>r. r\<lparr>ord_status := O_CANCELLED, ord_cancelled_at := Some t\<rparr>) rows of
       (rows', affectedRows) \<Rightarrow>
         (Inr [(''orderId'', JStr (orderId body)), (''status'', JStr ''CANCELLED''),
               (''changed'', JBool (affectedRows = 1))], rows'))"

definition order_open :: "orders_table \<Rightarrow> string \<Rightarrow> bool" where
  "order_open = live ord_order_id (\<lambda>r. ord_status r = O_CREATED)"

interpretation orders: step_contract create_order cancel_order order_open "unique_key ord_order_id"
proof unfold_locales
  fix d :: orders_table and b t v d'
  assume "unique_key ord_order_id d" and "create_order b t d = (Inr v, d')"
  then show "unique_key ord_order_id d' \<and> \<not> order_open d (orderId b) \<and>
      order_open d' = (order_open d)(orderId b := True)"
    using live_insert [of ord_order_id _ d d' "\<lambda>r. ord_status r = O_CREATED"]
    by (fastforce simp: create_order_def order_open_def split: option.splits)
next
  fix d :: orders_table and b t r d'
  assume "unique_key ord_order_id d" and "cancel_order b t d = (r, d')"
  then show "(\<exists>v. r = Inr v) \<and> unique_key ord_order_id d' \<and>
      order_open d' = (order_open d)(orderId b := False)"
    using live_switch_off [of ord_order_id d "\<lambda>r. r\<lparr>ord_status := O_CANCELLED, ord_cancelled_at := Some t\<rparr>"
        "\<lambda>r. ord_status r = O_CREATED" "orderId b"]
    by (auto simp: cancel_order_def order_open_def split: prod.splits)
next
  fix d :: orders_table and b :: StepRequestBody and t
  assume "unique_key ord_order_id d" and "\<not> order_open d (orderId b)"
  then show "snd (cancel_order b t d) = d"
    by (simp add: cancel_order_def order_open_def live_switch_idle)
qed

text \<open>A cancelled order reports whether this call changed it.\<close>

lemma cancel_order_changed:
  assumes "unique_key ord_order_id rows"
  shows "fst (cancel_order body t rows) = Inr [(''orderId'', JStr (orderId body)),
    (''status'', JStr ''CANCELLED''), (''changed'', JBool (order_open rows (orderId body)))]"
  using live_switch_affected [OF assms, of "orderId body" "\<lambda>r. ord_status r = O_CREATED"
      "\<lambda>r. r\<lparr>ord_status := O_CANCELLED, ord_cancelled_at := Some t\<rparr>"]
  by (auto simp: cancel_order_def order_open_def split: prod.splits if_splits)

text \<open>
  C29. The order service, over any sequence of create and cancel requests, with faults, lost
  acknowledgements, retries and cache outages anywhere: when a cancel is only asked for an order
  whose create is recorded, an order is open exactly when its create is recorded and its cancel is
  not; so a cancelled order never comes back, and no order has two rows.
\<close>

theorem order_open_exactly:
  assumes "disciplined CREATE_ORDER create_order cancel_order qs (empty_service [])"
    and "serves CREATE_ORDER create_order cancel_order qs (empty_service []) = (rs, s)"
  shows "unique_key ord_order_id (domain s) \<and>
    (order_open (domain s) oid \<longleftrightarrow>
       is_done (Fwd CREATE_ORDER) s oid \<and> \<not> is_done (Comp CANCEL_ORDER) s oid)"
proof -
  have "orders.exact CREATE_ORDER (empty_service [])"
    by (rule orders.exact_empty) (simp_all add: order_open_def)
  from orders.serves_exact [OF this assms] show ?thesis by (simp add: orders.exact_def)
qed

theorem order_open_exactly_witness:
  "\<not> order_open (domain (snd (serves CREATE_ORDER create_order cancel_order
      [plain_request False sample_body, plain_request True sample_body] (empty_service [])))) ''A''"
proof -
  let ?qs = "[plain_request False sample_body, plain_request True sample_body]"
  let ?run = "serves CREATE_ORDER create_order cancel_order ?qs (empty_service [])"
  have run: "?run = (fst ?run, snd ?run)" by simp
  have d: "disciplined CREATE_ORDER create_order cancel_order ?qs (empty_service [])"
    by (simp add: serve_eval create_order_def sample_body_def)
  have u: "is_done (Comp CANCEL_ORDER) (snd ?run) ''A''"
    by (simp add: serve_eval create_order_def cancel_order_def sample_body_def)
  from order_open_exactly [OF d run, of "''A''"] u show ?thesis by simp
qed

text \<open>
  Why the order of the requests matters: a cancel that is asked for before the create is
  recorded as completed like any other, and when the create has landed after it, the genuine
  cancel is answered from that record. It reports success and the order stays open.
\<close>

theorem early_cancel_disarms_cancel:
  "\<exists>rs s. serves CREATE_ORDER create_order cancel_order
      [plain_request True sample_body, plain_request False sample_body, plain_request True sample_body]
      (empty_service []) = (rs, s) \<and>
    map http_status rs = [200, 200, 200] \<and> order_open (domain s) ''A''"
  by (simp add: serve_eval create_order_def cancel_order_def sample_body_def order_open_def live_def)

end
