(* ===== verification/PaymentSvc.thy ===== *)
theory PaymentSvc
  imports ServiceCalm
begin

text \<open>
  services/payment/src/index.ts over the table payments of svc_payment (UNIQUE on order_id). The
  amount is the decimal string of the request; it is stored and answered as it came.
\<close>

datatype payment_status = CHARGED | REFUNDED

record payments_row =
  pay_order_id :: string
  pay_amount :: string
  pay_status :: payment_status
  pay_refunded_at :: "int option"

type_synonym payments_table = "payments_row list"

definition charge_payment :: "payments_table handler" where
  "charge_payment body t rows =
    (case sql_insert pay_order_id
        \<lparr>pay_order_id = orderId body, pay_amount = amount body, pay_status = CHARGED,
         pay_refunded_at = None\<rparr> rows of
       None \<Rightarrow> (Inl dup_entry, rows)
     | Some rows' \<Rightarrow>
         (Inr [(''orderId'', JStr (orderId body)), (''amount'', JStr (amount body)),
               (''status'', JStr ''CHARGED'')], rows'))"

definition refund_payment :: "payments_table handler" where
  "refund_payment body t rows =
    (case sql_update (\<lambda>r. pay_order_id r = orderId body \<and> pay_status r = CHARGED)
        (\<lambda>r. r\<lparr>pay_status := REFUNDED, pay_refunded_at := Some t\<rparr>) rows of
       (rows', affectedRows) \<Rightarrow>
         (Inr [(''orderId'', JStr (orderId body)), (''status'', JStr ''REFUNDED''),
               (''changed'', JBool (affectedRows = 1))], rows'))"

definition charged :: "payments_table \<Rightarrow> string \<Rightarrow> bool" where
  "charged = live pay_order_id (\<lambda>r. pay_status r = CHARGED)"

interpretation payments: step_contract charge_payment refund_payment charged "unique_key pay_order_id"
proof unfold_locales
  fix d :: payments_table and b t v d'
  assume "unique_key pay_order_id d" and "charge_payment b t d = (Inr v, d')"
  then show "unique_key pay_order_id d' \<and> \<not> charged d (orderId b) \<and>
      charged d' = (charged d)(orderId b := True)"
    using live_insert [of pay_order_id _ d d' "\<lambda>r. pay_status r = CHARGED"]
    by (fastforce simp: charge_payment_def charged_def split: option.splits)
next
  fix d :: payments_table and b t r d'
  assume "unique_key pay_order_id d" and "refund_payment b t d = (r, d')"
  then show "(\<exists>v. r = Inr v) \<and> unique_key pay_order_id d' \<and> charged d' = (charged d)(orderId b := False)"
    using live_switch_off [of pay_order_id d "\<lambda>r. r\<lparr>pay_status := REFUNDED, pay_refunded_at := Some t\<rparr>"
        "\<lambda>r. pay_status r = CHARGED" "orderId b"]
    by (auto simp: refund_payment_def charged_def split: prod.splits)
next
  fix d :: payments_table and b :: StepRequestBody and t
  assume "unique_key pay_order_id d" and "\<not> charged d (orderId b)"
  then show "snd (refund_payment b t d) = d"
    by (simp add: refund_payment_def charged_def live_switch_idle)
qed

section \<open>The ledger\<close>

text \<open>What the table says of an order: the amount, and whether the money is still with the shop.\<close>

definition ledger :: "payments_table \<Rightarrow> string \<rightharpoonup> string \<times> payment_status" where
  "ledger = row_view pay_order_id (\<lambda>r. (pay_amount r, pay_status r))"

definition ledger_ok ::
  "(string \<Rightarrow> string) \<Rightarrow> payments_table \<Rightarrow> (string \<Rightarrow> bool) \<Rightarrow> (string \<Rightarrow> bool) \<Rightarrow> bool" where
  "ledger_ok price rows D U \<longleftrightarrow> unique_key pay_order_id rows \<and> (\<forall>oid. U oid \<longrightarrow> D oid) \<and>
     (\<forall>oid. ledger rows oid =
       (if D oid then Some (price oid, if U oid then REFUNDED else CHARGED) else None))"

lemma charge_ledger:
  assumes "amount b = price (orderId b)" and "ledger_ok price d D U"
    and "charge_payment b t d = (Inr v, d')"
  shows "ledger_ok price d' (D(orderId b := True)) U"
  using assms row_view_insert [of pay_order_id _ d d' "\<lambda>r. (pay_amount r, pay_status r)"]
  by (fastforce simp: charge_payment_def ledger_ok_def ledger_def split: option.splits if_splits)

lemma refund_ledger:
  assumes "ledger_ok price d D U" and "D (orderId b)" and "refund_payment b t d = (Inr v, d')"
  shows "ledger_ok price d' D (U(orderId b := True))"
proof -
  let ?p = "\<lambda>r. pay_order_id r = orderId b \<and> pay_status r = CHARGED"
  let ?f = "\<lambda>r. r\<lparr>pay_status := REFUNDED, pay_refunded_at := Some t\<rparr>"
  have d': "d' = fst (sql_update ?p ?f d)"
    using assms(3) by (auto simp: refund_payment_def split: prod.splits)
  have "ledger d' = (ledger d)(orderId b := map_option (\<lambda>(a, _). (a, REFUNDED)) (ledger d (orderId b)))"
    unfolding ledger_def d'
    by (rule row_view_update) (auto intro: payment_status.exhaust)
  with assms(1,2) show ?thesis
    by (auto simp: ledger_ok_def d' unique_key_update)
qed



end
