(* ===== verification/ShippingSvc.thy ===== *)
theory ShippingSvc
  imports ServiceCalm
begin

text \<open>
  services/shipping/src/index.ts over the table shipments of svc_shipping (UNIQUE on order_id).
\<close>

datatype shipment_status = SHIPMENT_CREATED | SHIPMENT_CANCELLED

record shipments_row =
  shp_order_id :: string
  shp_tracking_no :: string
  shp_status :: shipment_status
  shp_cancelled_at :: "int option"

type_synonym shipments_table = "shipments_row list"

definition create_shipment :: "shipments_table handler" where
  "create_shipment body t rows =
    (let trackingNo = ''TRK-'' @ orderId body
     in case sql_insert shp_order_id
          \<lparr>shp_order_id = orderId body, shp_tracking_no = trackingNo, shp_status = SHIPMENT_CREATED,
           shp_cancelled_at = None\<rparr> rows of
          None \<Rightarrow> (Inl dup_entry, rows)
        | Some rows' \<Rightarrow>
            (Inr [(''orderId'', JStr (orderId body)), (''trackingNo'', JStr trackingNo),
                  (''status'', JStr ''CREATED'')], rows'))"

definition cancel_shipment :: "shipments_table handler" where
  "cancel_shipment body t rows =
    (case sql_update (\<lambda>r. shp_order_id r = orderId body \<and> shp_status r = SHIPMENT_CREATED)
        (\<lambda>r. r\<lparr>shp_status := SHIPMENT_CANCELLED, shp_cancelled_at := Some t\<rparr>) rows of
       (rows', affectedRows) \<Rightarrow>
         (Inr [(''orderId'', JStr (orderId body)), (''status'', JStr ''CANCELLED''),
               (''changed'', JBool (affectedRows = 1))], rows'))"

definition shipment_live :: "shipments_table \<Rightarrow> string \<Rightarrow> bool" where
  "shipment_live = live shp_order_id (\<lambda>r. shp_status r = SHIPMENT_CREATED)"

interpretation shipments: step_contract create_shipment cancel_shipment shipment_live "unique_key shp_order_id"
proof unfold_locales
  fix d :: shipments_table and b t v d'
  assume "unique_key shp_order_id d" and "create_shipment b t d = (Inr v, d')"
  then show "unique_key shp_order_id d' \<and> \<not> shipment_live d (orderId b) \<and>
      shipment_live d' = (shipment_live d)(orderId b := True)"
    using live_insert [of shp_order_id _ d d' "\<lambda>r. shp_status r = SHIPMENT_CREATED"]
    by (fastforce simp: create_shipment_def shipment_live_def Let_def split: option.splits)
next
  fix d :: shipments_table and b t r d'
  assume "unique_key shp_order_id d" and "cancel_shipment b t d = (r, d')"
  then show "(\<exists>v. r = Inr v) \<and> unique_key shp_order_id d' \<and>
      shipment_live d' = (shipment_live d)(orderId b := False)"
    using live_switch_off [of shp_order_id d
        "\<lambda>r. r\<lparr>shp_status := SHIPMENT_CANCELLED, shp_cancelled_at := Some t\<rparr>"
        "\<lambda>r. shp_status r = SHIPMENT_CREATED" "orderId b"]
    by (auto simp: cancel_shipment_def shipment_live_def split: prod.splits)
next
  fix d :: shipments_table and b :: StepRequestBody and t
  assume "unique_key shp_order_id d" and "\<not> shipment_live d (orderId b)"
  then show "snd (cancel_shipment b t d) = d"
    by (simp add: cancel_shipment_def shipment_live_def live_switch_idle)
qed

section \<open>Tracking numbers\<close>

definition tracked :: "shipments_row \<Rightarrow> bool" where
  "tracked r \<longleftrightarrow> shp_tracking_no r = ''TRK-'' @ shp_order_id r"

lemma create_shipment_tracked:
  "list_all tracked d \<Longrightarrow> create_shipment b t d = (Inr v, d') \<Longrightarrow>
    list_all tracked d' \<and> (''trackingNo'', JStr (''TRK-'' @ orderId b)) \<in> set v"
  by (auto simp: create_shipment_def Let_def tracked_def sql_key split: option.splits)

lemma cancel_shipment_tracked:
  "list_all tracked d \<Longrightarrow> cancel_shipment b t d = (Inr v, d') \<Longrightarrow> list_all tracked d'"
  by (auto simp: cancel_shipment_def tracked_def sql_update_def list_all_iff split: prod.splits)



end
