(* ===== verification/InventorySvc.thy ===== *)
theory InventorySvc
  imports ServiceCalm
begin

text \<open>
  services/inventory/src/index.ts over the tables inventory (PRIMARY KEY sku) and reservations
  (UNIQUE on order_id) of svc_inventory, and services/inventory/src/seed.ts. Quantities are
  integers; a statement that would leave the range of INT is an error of the server, which rolls
  back like any other (a fault of \<open>idem_env\<close>).
\<close>

datatype reservation_status = RESERVED | RELEASED

record inventory_row =
  inv_sku :: string
  available_qty :: int
  reserved_qty :: int

record reservations_row =
  res_order_id :: string
  res_sku :: string
  res_qty :: int
  res_status :: reservation_status
  released_at :: "int option"

record inventory_tables =
  stock :: "inventory_row list"
  reservations :: "reservations_row list"

definition reserve_inventory :: "inventory_tables handler" where
  "reserve_inventory body t d =
    (case sql_update (\<lambda>r. inv_sku r = sku body \<and> available_qty r \<ge> qty body)
        (\<lambda>r. r\<lparr>available_qty := available_qty r - qty body, reserved_qty := reserved_qty r + qty body\<rparr>)
        (stock d) of
       (st, affectedRows) \<Rightarrow>
         if affectedRows = 0 then
           (Inl (BusinessRuleError (''insufficient stock for '' @ sku body @ '' (requested '' @
              show_int (qty body) @ '')'')), d\<lparr>stock := st\<rparr>)
         else
           (case sql_insert res_order_id
               \<lparr>res_order_id = orderId body, res_sku = sku body, res_qty = qty body,
                res_status = RESERVED, released_at = None\<rparr> (reservations d) of
              None \<Rightarrow> (Inl dup_entry, d\<lparr>stock := st\<rparr>)
            | Some rs \<Rightarrow>
                (Inr [(''orderId'', JStr (orderId body)), (''sku'', JStr (sku body)),
                      (''qty'', JNum (qty body)), (''status'', JStr ''RESERVED'')],
                 d\<lparr>stock := st, reservations := rs\<rparr>)))"

definition release_inventory :: "inventory_tables handler" where
  "release_inventory body t d =
    (case sql_update (\<lambda>r. res_order_id r = orderId body \<and> res_status r = RESERVED)
        (\<lambda>r. r\<lparr>res_status := RELEASED, released_at := Some t\<rparr>) (reservations d) of
       (rs, affectedRows) \<Rightarrow>
         if affectedRows = 0 then
           (Inr [(''orderId'', JStr (orderId body)), (''released'', JBool False),
                 (''reason'', JStr ''no active reservation'')], d\<lparr>reservations := rs\<rparr>)
         else
           (Inr [(''orderId'', JStr (orderId body)), (''sku'', JStr (sku body)),
                 (''qty'', JNum (qty body)), (''released'', JBool True)],
            d\<lparr>stock := fst (sql_update (\<lambda>r. inv_sku r = sku body)
                 (\<lambda>r. r\<lparr>available_qty := available_qty r + qty body,
                        reserved_qty := reserved_qty r - qty body\<rparr>) (stock d)),
              reservations := rs\<rparr>))"

text \<open>seed.ts: one upsert per row of the file; the file's rows are (sku, Number(available_qty)).\<close>

definition seed_row :: "string \<times> int \<Rightarrow> inventory_row list \<Rightarrow> inventory_row list" where
  "seed_row = (\<lambda>(sk, n). sql_upsert inv_sku \<lparr>inv_sku = sk, available_qty = n, reserved_qty = 0\<rparr>
     (\<lambda>r. r\<lparr>available_qty := n, reserved_qty := 0\<rparr>))"

definition seed :: "(string \<times> int) list \<Rightarrow> inventory_row list \<Rightarrow> inventory_row list" where
  "seed rows st = fold seed_row rows st"

definition reserved :: "inventory_tables \<Rightarrow> string \<Rightarrow> bool" where
  "reserved d = live res_order_id (\<lambda>r. res_status r = RESERVED) (reservations d)"

lemma release_idle:
  assumes "unique_key res_order_id (reservations d)" and "\<not> reserved d (orderId b)"
  shows "snd (release_inventory b t d) = d"
  using assms by (simp add: release_inventory_def reserved_def live_switch_idle)

interpretation inventory: step_contract reserve_inventory release_inventory reserved
  "\<lambda>d. unique_key res_order_id (reservations d)"
proof unfold_locales
  fix d :: inventory_tables and b t v d'
  assume "unique_key res_order_id (reservations d)" and "reserve_inventory b t d = (Inr v, d')"
  then show "unique_key res_order_id (reservations d') \<and> \<not> reserved d (orderId b) \<and>
      reserved d' = (reserved d)(orderId b := True)"
    using live_insert [of res_order_id _ "reservations d" "reservations d'" "\<lambda>r. res_status r = RESERVED"]
    by (fastforce simp: reserve_inventory_def reserved_def split: option.splits prod.splits if_splits)
next
  fix d :: inventory_tables and b t r d'
  assume "unique_key res_order_id (reservations d)" and "release_inventory b t d = (r, d')"
  then show "(\<exists>v. r = Inr v) \<and> unique_key res_order_id (reservations d') \<and>
      reserved d' = (reserved d)(orderId b := False)"
    using live_switch_off [of res_order_id "reservations d"
        "\<lambda>r. r\<lparr>res_status := RELEASED, released_at := Some t\<rparr>" "\<lambda>r. res_status r = RESERVED" "orderId b"]
    by (auto simp: release_inventory_def reserved_def split: prod.splits if_splits)
next
  fix d :: inventory_tables and b :: StepRequestBody and t
  assume "unique_key res_order_id (reservations d)" and "\<not> reserved d (orderId b)"
  then show "snd (release_inventory b t d) = d" by (rule release_idle)
qed

section \<open>Conservation of stock\<close>

definition stock_totals :: "inventory_row list \<Rightarrow> (string \<times> int) list" where
  "stock_totals st = map (\<lambda>r. (inv_sku r, available_qty r + reserved_qty r)) st"

text \<open>The quantity of a SKU that active reservations hold.\<close>

definition active_qty :: "reservations_row list \<Rightarrow> string \<Rightarrow> int" where
  "active_qty rs sk =
     sum_list (map (\<lambda>r. if res_sku r = sk \<and> res_status r = RESERVED then res_qty r else 0) rs)"

lemma active_qty_snoc [simp]:
  "active_qty (rs @ [r]) sk = active_qty rs sk +
     (if res_sku r = sk \<and> res_status r = RESERVED then res_qty r else 0)"
  by (simp add: active_qty_def)

lemma active_qty_release:
  assumes "unique_key res_order_id rs" and "row_at res_order_id oid rs = Some r0"
    and "res_status r0 = RESERVED" and "\<And>r. res_status (f r) = RELEASED"
  shows "active_qty (fst (sql_update (\<lambda>r. res_order_id r = oid \<and> res_status r = RESERVED) f rs)) sk =
    active_qty rs sk - (if res_sku r0 = sk then res_qty r0 else 0)"
  using assms(1,2)
proof (induction rs)
  case (Cons r rs)
  let ?g = "\<lambda>r. if res_order_id r = oid \<and> res_status r = RESERVED then f r else r"
  show ?case
  proof (cases "res_order_id r = oid")
    case True
    with Cons.prems have "r = r0" "oid \<notin> res_order_id ` set rs" by (auto simp: unique_key_def)
    then have "map ?g rs = rs" by (intro map_idI) auto
    with \<open>r = r0\<close> True assms(3,4) show ?thesis by (simp add: sql_update_def active_qty_def)
  next
    case False
    with Cons show ?thesis by (auto simp: sql_update_def active_qty_def unique_key_def)
  qed
qed simp

text \<open>
  The books: one row per key, every reservation is for its order's item, and every SKU holds
  exactly what its active reservations hold, with no stock below zero.
\<close>

definition books_ok :: "(string \<Rightarrow> string \<times> int) \<Rightarrow> inventory_tables \<Rightarrow> bool" where
  "books_ok item d \<longleftrightarrow> unique_key inv_sku (stock d) \<and> unique_key res_order_id (reservations d) \<and>
     (\<forall>r \<in> set (reservations d). (res_sku r, res_qty r) = item (res_order_id r)) \<and>
     (\<forall>r \<in> set (stock d). 0 \<le> available_qty r \<and> reserved_qty r = active_qty (reservations d) (inv_sku r))"

lemma reserve_totals:
  "reserve_inventory b t d = (r, d') \<Longrightarrow> stock_totals (stock d') = stock_totals (stock d)"
  by (auto simp: reserve_inventory_def sql_update_def stock_totals_def split: option.splits if_splits)

lemma release_totals:
  "release_inventory b t d = (r, d') \<Longrightarrow> stock_totals (stock d') = stock_totals (stock d)"
  by (auto simp: release_inventory_def sql_update_def stock_totals_def split: if_splits)

lemma reserve_books:
  assumes inv: "books_ok item d" and b: "(sku b, qty b) = item (orderId b)"
    and run: "reserve_inventory b t d = (Inr v, d')"
  shows "books_ok item d'"
proof -
  let ?p = "\<lambda>r. inv_sku r = sku b \<and> available_qty r \<ge> qty b"
  let ?f = "\<lambda>r. r\<lparr>available_qty := available_qty r - qty b, reserved_qty := reserved_qty r + qty b\<rparr>"
  let ?n = "\<lparr>res_order_id = orderId b, res_sku = sku b, res_qty = qty b, res_status = RESERVED,
    released_at = None\<rparr>"
  from run have some: "snd (sql_update ?p ?f (stock d)) \<noteq> 0"
    and ins: "sql_insert res_order_id ?n (reservations d) = Some (reservations d')"
    and st: "stock d' = fst (sql_update ?p ?f (stock d))"
    by (auto simp: reserve_inventory_def split: option.splits prod.splits if_splits)
  from some obtain r0 where r0: "r0 \<in> set (stock d)" "?p r0" by (auto simp: affected_zero)
  have rs': "reservations d' = reservations d @ [?n]" and new: "row_at res_order_id (orderId b) (reservations d) = None"
    using ins by (simp_all add: sql_key)
  have only: "?p r" if "r \<in> set (stock d)" "inv_sku r = sku b" for r
    using unique_key_eq [of inv_sku "stock d" r r0] that r0 inv by (auto simp: books_ok_def)
  have "unique_key inv_sku (stock d')" using inv by (simp add: st books_ok_def unique_key_update)
  moreover have "unique_key res_order_id (reservations d')"
    using unique_key_snoc [of res_order_id ?n] new inv by (simp add: rs' books_ok_def)
  moreover have "0 \<le> available_qty q \<and> reserved_qty q = active_qty (reservations d') (inv_sku q)"
    if "q \<in> set (stock d')" for q
  proof -
    from that obtain r where r: "r \<in> set (stock d)" "q = (if ?p r then ?f r else r)"
      by (auto simp: st set_update)
    with only [of r] inv show ?thesis by (auto simp: rs' books_ok_def)
  qed
  ultimately show ?thesis using inv b by (auto simp: books_ok_def rs')
qed

lemma release_books:
  assumes inv: "books_ok item d" and b: "(sku b, qty b) = item (orderId b)" and q: "0 \<le> qty b"
    and run: "release_inventory b t d = (Inr v, d')"
  shows "books_ok item d'"
proof (cases "reserved d (orderId b)")
  case False
  with release_idle [of d b t] inv run show ?thesis by (simp add: books_ok_def)
next
  case True
  let ?p = "\<lambda>r. res_order_id r = orderId b \<and> res_status r = RESERVED"
  let ?f = "\<lambda>r. r\<lparr>res_status := RELEASED, released_at := Some t\<rparr>"
  let ?g = "\<lambda>r. r\<lparr>available_qty := available_qty r + qty b, reserved_qty := reserved_qty r - qty b\<rparr>"
  from True obtain r0 where r0: "row_at res_order_id (orderId b) (reservations d) = Some r0"
      "res_status r0 = RESERVED" by (auto simp: reserved_def live_row)
  have "(res_sku r0, res_qty r0) = item (orderId b)"
    using row_at_Some_in [OF r0(1)] row_at_Some_key [OF r0(1)] inv by (auto simp: books_ok_def)
  then have it: "res_sku r0 = sku b" "res_qty r0 = qty b"
    using b [symmetric] by simp_all
  have "snd (sql_update ?p ?f (reservations d)) = 1"
    using live_switch_affected [of res_order_id "reservations d" "orderId b" "\<lambda>r. res_status r = RESERVED" ?f]
      True inv by (simp add: reserved_def books_ok_def)
  then have rs': "reservations d' = fst (sql_update ?p ?f (reservations d))"
    and st: "stock d' = fst (sql_update (\<lambda>r. inv_sku r = sku b) ?g (stock d))"
    using run by (auto simp: release_inventory_def split: prod.splits if_splits)
  have act: "active_qty (reservations d') sk =
      active_qty (reservations d) sk - (if sku b = sk then qty b else 0)" for sk
    using active_qty_release [OF _ r0, of ?f sk] inv it by (simp add: rs' books_ok_def)
  have "0 \<le> available_qty x \<and> reserved_qty x = active_qty (reservations d') (inv_sku x)"
    if "x \<in> set (stock d')" for x
  proof -
    from that obtain r where "r \<in> set (stock d)" "x = (if inv_sku r = sku b then ?g r else r)"
      by (auto simp: st set_update)
    with inv q show ?thesis by (auto simp: act books_ok_def)
  qed
  moreover have "\<forall>r \<in> set (reservations d'). (res_sku r, res_qty r) = item (res_order_id r)"
    using inv by (auto simp: rs' set_update books_ok_def)
  ultimately show ?thesis
    using inv by (simp add: books_ok_def st rs' unique_key_update)
qed


definition sample_stock :: "inventory_row list" where
  "sample_stock = [\<lparr>inv_sku = ''S1'', available_qty = 5, reserved_qty = 0\<rparr>]"


text \<open>
  The guard of the reservation compares with the requested quantity and nothing checks its
  sign: a request for a negative quantity is answered with 200, and stock appears that was never
  there.
\<close>

theorem negative_quantity_invents_stock:
  "\<exists>r s. serve RESERVE_INVENTORY reserve_inventory release_inventory
      (plain_request False (sample_body\<lparr>qty := - 3\<rparr>))
      (empty_service \<lparr>stock = sample_stock, reservations = []\<rparr>) = (r, s) \<and>
    http_status r = 200 \<and> map available_qty (stock (domain s)) = [8]"
  by (simp add: serve_eval sample_body_def sample_stock_def reserve_inventory_def)

section \<open>Seeding\<close>

lemma seed_Cons: "seed (p # ps) st = seed ps (seed_row p st)"
  by (simp add: seed_def)

lemma seed_row_at:
  "row_at inv_sku x (seed_row (sk, n) st) =
    (if sk = x then Some \<lparr>inv_sku = sk, available_qty = n, reserved_qty = 0\<rparr> else row_at inv_sku x st)"
  by (auto simp: seed_row_def row_at_upsert split: option.splits dest: row_at_Some_key)

lemma seed_at: "row_at inv_sku x (seed rows st) =
    (case map_of (rev rows) x of
       Some n \<Rightarrow> Some \<lparr>inv_sku = x, available_qty = n, reserved_qty = 0\<rparr> | None \<Rightarrow> row_at inv_sku x st)"
  by (induction rows arbitrary: st)
     (auto simp: seed_def seed_row_at map_add_def split: option.splits prod.splits)

text \<open>
  Seeding is a reset: whatever the table held, a SKU of the file ends with the file's (last)
  quantity available and nothing reserved, other SKUs are left alone, and seeding again changes
  nothing that a lookup could see.
\<close>

theorem seed_resets:
  "row_at inv_sku x (seed rows st) =
     (case map_of (rev rows) x of
        Some n \<Rightarrow> Some \<lparr>inv_sku = x, available_qty = n, reserved_qty = 0\<rparr>
      | None \<Rightarrow> row_at inv_sku x st) \<and>
   row_at inv_sku x (seed rows (seed rows st)) = row_at inv_sku x (seed rows st)"
  by (auto simp: seed_at split: option.splits)

text \<open>
  Reseeding is not safe between runs while reservations are open: the reset forgets that
  their quantity is reserved, and releasing such a reservation afterwards leaves more stock
  available than the file says and a negative reserved quantity.
\<close>

theorem reseed_then_release_drifts:
  "\<exists>v d1 w d2. reserve_inventory sample_body 0 \<lparr>stock = seed [(''S1'', 5)] [], reservations = []\<rparr> = (Inr v, d1) \<and>
     release_inventory sample_body 1 (d1\<lparr>stock := seed [(''S1'', 5)] (stock d1)\<rparr>) = (Inr w, d2) \<and>
     map (\<lambda>r. (available_qty r, reserved_qty r)) (stock d2) = [(7, - 2)]"
  by (simp add: reserve_inventory_def release_inventory_def seed_def seed_row_def sql_upsert_def
      sql_update_def sql_insert_def sample_body_def)

end
