(* ===== verification/Shop.thy ===== *)
theory Shop
  imports SagaSteps SagaVerdict OrderSvc PaymentSvc ShippingSvc InventorySvc
begin

text \<open>
  The whole system: the saga engine in front of the order, inventory, payment and shipping services
  of this repository, over a network that may lose a request or its response, delay it, deliver it
  late or once more, and let any fault of the services happen meanwhile. The four services are what the engine's contract
  (theory StepServices) is interpreted on; the theorems speak of their tables.
\<close>

section \<open>The services behind their URLs\<close>

record shop =
  sh_orders :: "orders_table step_service"
  sh_stock :: "inventory_tables step_service"
  sh_payments :: "payments_table step_service"
  sh_shipments :: "shipments_table step_service"
  sh_requests :: nat
  sh_sent :: "(step \<times> StepRequestBody) list"

fun forward_of :: "step \<Rightarrow> forward_step" where
  "forward_of (Fwd f) = f"
| "forward_of (Comp CANCEL_ORDER) = CREATE_ORDER"
| "forward_of (Comp RELEASE_INVENTORY) = RESERVE_INVENTORY"
| "forward_of (Comp REFUND_PAYMENT) = CHARGE_PAYMENT"
| "forward_of (Comp CANCEL_SHIPMENT) = CREATE_SHIPMENT"

text \<open>The endpoints each service registers: its forward step and the step that undoes it.\<close>

definition at_service :: "forward_step \<Rightarrow> step_request \<Rightarrow> shop \<Rightarrow> http_response \<times> shop" where
  "at_service f q w =
    (case f of
       CREATE_ORDER \<Rightarrow> (case serve f create_order cancel_order q (sh_orders w) of
         (r, s) \<Rightarrow> (r, w\<lparr>sh_orders := s\<rparr>))
     | RESERVE_INVENTORY \<Rightarrow> (case serve f reserve_inventory release_inventory q (sh_stock w) of
         (r, s) \<Rightarrow> (r, w\<lparr>sh_stock := s\<rparr>))
     | CHARGE_PAYMENT \<Rightarrow> (case serve f charge_payment refund_payment q (sh_payments w) of
         (r, s) \<Rightarrow> (r, w\<lparr>sh_payments := s\<rparr>))
     | CREATE_SHIPMENT \<Rightarrow> (case serve f create_shipment cancel_shipment q (sh_shipments w) of
         (r, s) \<Rightarrow> (r, w\<lparr>sh_shipments := s\<rparr>)))"

definition all_steps :: "step list" where
  "all_steps = map Fwd FORWARD_STEPS @ map Comp COMPENSATION_STEPS"

definition step_at :: "(service_name \<Rightarrow> string) \<Rightarrow> string \<Rightarrow> step option" where
  "step_at urls url = find (\<lambda>st. url = trim_slash (urls (STEP_SERVICE st)) @ stepPath st) all_steps"

section \<open>The network\<close>

text \<open>
  What happens to the n-th request, given its URL: it arrives or not, its response arrives or not.
  Any request ever sent, answered or given up by its caller, may arrive at any later time, also
  several times: \<open>net_late net n\<close> says which arrive just before the n-th request. An arrival is what a
  service goes through when a request reaches it.
\<close>

datatype net_fate = Delivered | Request_lost js_value | Response_lost js_value

record arrival =
  ar_env :: idem_env
  ar_wait :: nat
  ar_disturbances :: "disturbance list"

record network =
  net_fate :: "nat \<Rightarrow> string \<Rightarrow> net_fate"
  net_delay :: "nat \<Rightarrow> nat"
  net_arrival :: "nat \<Rightarrow> arrival"
  net_late :: "nat \<Rightarrow> (nat \<times> arrival) list"

definition arriving :: "arrival \<Rightarrow> step \<Rightarrow> StepRequestBody \<Rightarrow> step_request" where
  "arriving a st body = \<lparr>rq_undo = (case st of Fwd _ \<Rightarrow> False | Comp _ \<Rightarrow> True),
     rq_raw = Some (body_json body), rq_env = ar_env a, rq_wait = ar_wait a,
     rq_disturbances = ar_disturbances a\<rparr>"

fun arrive_late :: "(nat \<times> arrival) list \<Rightarrow> shop \<Rightarrow> shop" where
  "arrive_late [] w = w"
| "arrive_late ((i, a) # rest) w =
     arrive_late rest
       (if i < length (sh_sent w)
        then case sh_sent w ! i of (st, body) \<Rightarrow> snd (at_service (forward_of st) (arriving a st body) w)
        else w)"

definition syntax_error :: js_value where
  "syntax_error = ErrorObject ''SyntaxError'' ''Unexpected token'' None None None"

text \<open>What the caller sees of a response; the body of an error has another shape.\<close>

definition received :: "http_response \<Rightarrow> fetch_response" where
  "received r = \<lparr>fr_status = http_status r,
     fr_json = (case http_body r of Inr p \<Rightarrow> Inr p | Inl _ \<Rightarrow> Inl syntax_error)\<rparr>"

definition shop_fetch ::
  "network \<Rightarrow> (service_name \<Rightarrow> string) \<Rightarrow> string \<Rightarrow> string \<Rightarrow> StepRequestBody \<Rightarrow> nat \<Rightarrow> shop \<Rightarrow>
     (js_value + fetch_response) \<times> nat \<times> shop" where
  "shop_fetch net urls url key body timeoutMs w =
    (let k = sh_requests w; w1 = (arrive_late (net_late net k) w)\<lparr>sh_requests := Suc k\<rparr>
     in case step_at urls url of
          None \<Rightarrow>
            ((case net_fate net k url of Delivered \<Rightarrow> Inr \<lparr>fr_status = 404, fr_json = Inl syntax_error\<rparr>
              | Request_lost e \<Rightarrow> Inl e | Response_lost e \<Rightarrow> Inl e), net_delay net k, w1)
        | Some st \<Rightarrow>
           (let w2 = w1\<lparr>sh_sent := sh_sent w1 @ [(st, body)]\<rparr>
            in case net_fate net k url of
                 Request_lost e \<Rightarrow> (Inl e, net_delay net k, w2)
               | fate \<Rightarrow>
                  (case at_service (forward_of st) (arriving (net_arrival net k) st body) w2 of
                     (r, w3) \<Rightarrow>
                       ((case fate of Response_lost e \<Rightarrow> Inl e | _ \<Rightarrow> Inr (received r)), net_delay net k, w3))))"

definition wired :: "network \<Rightarrow> shop SagaDeps \<Rightarrow> shop SagaDeps" where
  "wired net deps = deps\<lparr>dep_fetch := shop_fetch net (serviceUrls deps)\<rparr>"

section \<open>URLs\<close>

lemma last_segment:
  "a @ CHR ''/'' # x = b @ CHR ''/'' # y \<Longrightarrow> CHR ''/'' \<notin> set x \<Longrightarrow> CHR ''/'' \<notin> set y \<Longrightarrow> x = y"
proof -
  assume eq: "a @ CHR ''/'' # x = b @ CHR ''/'' # y" and "CHR ''/'' \<notin> set x" "CHR ''/'' \<notin> set y"
  from eq have "rev x @ CHR ''/'' # rev a = rev y @ CHR ''/'' # rev b"
    by (metis append.assoc append_Cons append_Nil rev.simps(2) rev_append)
  then have "takeWhile (\<lambda>c. c \<noteq> CHR ''/'') (rev x @ CHR ''/'' # rev a) =
      takeWhile (\<lambda>c. c \<noteq> CHR ''/'') (rev y @ CHR ''/'' # rev b)" by simp
  then have "rev x = rev y"
    using \<open>CHR ''/'' \<notin> set x\<close> \<open>CHR ''/'' \<notin> set y\<close> by (subst (asm) (1 2) takeWhile_append2) auto
  then show ?thesis by simp
qed

lemma path_segment: "\<exists>x. stepPath st = CHR ''/'' # x \<and> CHR ''/'' \<notin> set x"
proof (cases st)
  case (Fwd f)
  then show ?thesis by (cases f) simp_all
next
  case (Comp c)
  then show ?thesis by (cases c) simp_all
qed

lemma url_inj: "u @ stepPath st = v @ stepPath st' \<Longrightarrow> st = st'"
proof -
  assume eq: "u @ stepPath st = v @ stepPath st'"
  obtain x y where xy: "stepPath st = CHR ''/'' # x" "CHR ''/'' \<notin> set x"
      "stepPath st' = CHR ''/'' # y" "CHR ''/'' \<notin> set y"
    using path_segment by metis
  with eq last_segment [of u x v y] have "stepPath st = stepPath st'" by simp
  then show "st = st'" by (simp only: stepPath_inj)
qed

lemma all_steps_complete: "st \<in> set all_steps"
  by (cases st) (simp_all add: all_steps_def forward_step_cases compensation_step_cases)

lemma find_unique:
  assumes "P x" and "x \<in> set xs" and "\<And>y. P y \<Longrightarrow> y = x"
  shows "find P xs = Some x"
  using assms(2)
proof (induction xs)
  case (Cons y ys)
  then show ?case using assms(1) assms(3) [of y] by (cases "P y") auto
qed simp

lemma step_at_url: "step_at (serviceUrls deps) (step_url deps st) = Some st"
proof -
  let ?P = "\<lambda>q. step_url deps st = trim_slash (serviceUrls deps (STEP_SERVICE q)) @ stepPath q"
  have unique: "q = st" if "?P q" for q
    using url_inj [OF that [unfolded step_url_def]] by simp
  have "find ?P all_steps = Some st"
    by (rule find_unique [where P = ?P, OF _ all_steps_complete unique]) (simp_all only: step_url_def)
  then show ?thesis by (simp only: step_at_def)
qed

section \<open>The contract holds of the services\<close>

text \<open>What any pair of endpoints does for the records of completed steps.\<close>

lemma serve_records:
  assumes ok: "redis.svc_ok s" and run: "serve f doit undo q s = (r, s')"
  shows "(is_done st s oid \<longrightarrow> is_done st s' oid) \<and>
    (is_done st s' oid \<longrightarrow> is_done st s oid \<or> st = served f q \<and> (\<exists>b. validateBody (rq_raw q) = Inr b \<and> oid = orderId b)) \<and>
    (http_body r = Inr p \<longrightarrow> (\<exists>b. validateBody (rq_raw q) = Inr b \<and> is_done (served f q) s' (orderId b)))"
proof -
  let ?h = "if rq_undo q then undo else doit"
  have reg: "registerStep (rq_env q) (served f q) ?h (rq_raw q) (settle_in q s) = (r, s')"
    using run by (simp add: serve_def served_def split: if_splits)
  note ok' = settle_in_ok [OF ok, of q]
  have own: "is_done st s' oid \<longrightarrow> is_done st s oid \<or>
      st = served f q \<and> (\<exists>b. validateBody (rq_raw q) = Inr b \<and> oid = orderId b)"
    using ok' reg
  proof (cases rule: registerStep_cases)
    case (runs body v t)
    then show ?thesis by (auto split: if_splits)
  qed simp
  obtain z s1 where z: "step_route (rq_env q) (served f q) ?h (rq_raw q) (settle_in q s) = (z, s1)"
    by (cases "step_route (rq_env q) (served f q) ?h (rq_raw q) (settle_in q s)")
  have "http_body r = Inr p \<longrightarrow> (\<exists>b. validateBody (rq_raw q) = Inr b \<and> is_done (served f q) s' (orderId b))"
  proof (cases z)
    case (Inl e)
    with reg z have "r = errorMiddleware e" by (simp add: registerStep_def)
    then show ?thesis by (auto simp: errorMiddleware_def error_response_def split: js_value.splits)
  next
    case (Inr pl)
    with step_route_spec [OF ok' z] have "\<exists>b. validateBody (rq_raw q) = Inr b \<and> is_done (served f q) s1 (orderId b)"
      by (auto simp: is_done_def)
    with reg z Inr show ?thesis by (auto simp: registerStep_def)
  qed
  with own serve_done_mono [OF ok run] show ?thesis by blast
qed

definition done_at :: "shop \<Rightarrow> string \<Rightarrow> step \<Rightarrow> bool" where
  "done_at w oid st =
    (case forward_of st of
       CREATE_ORDER \<Rightarrow> is_done st (sh_orders w) oid
     | RESERVE_INVENTORY \<Rightarrow> is_done st (sh_stock w) oid
     | CHARGE_PAYMENT \<Rightarrow> is_done st (sh_payments w) oid
     | CREATE_SHIPMENT \<Rightarrow> is_done st (sh_shipments w) oid)"

definition all_exact :: "shop \<Rightarrow> bool" where
  "all_exact w \<longleftrightarrow> orders.exact CREATE_ORDER (sh_orders w) \<and> inventory.exact RESERVE_INVENTORY (sh_stock w) \<and>
     payments.exact CHARGE_PAYMENT (sh_payments w) \<and> shipments.exact CREATE_SHIPMENT (sh_shipments w)"

definition all_ok :: "shop \<Rightarrow> bool" where
  "all_ok w \<longleftrightarrow> redis.svc_ok (sh_orders w) \<and> redis.svc_ok (sh_stock w) \<and> redis.svc_ok (sh_payments w) \<and>
     redis.svc_ok (sh_shipments w)"

lemma exact_ok:
  "orders.exact f s1 \<Longrightarrow> redis.svc_ok s1" "inventory.exact f s2 \<Longrightarrow> redis.svc_ok s2"
  "payments.exact f s3 \<Longrightarrow> redis.svc_ok s3" "shipments.exact f s4 \<Longrightarrow> redis.svc_ok s4"
  by (simp_all add: orders.exact_def inventory.exact_def payments.exact_def shipments.exact_def)

lemma all_exact_ok [simp]: "all_exact w \<Longrightarrow> all_ok w"
  by (auto simp: all_exact_def all_ok_def intro: exact_ok)

lemma forward_of_COMPENSATION [simp]: "forward_of (Comp (COMPENSATION_OF f)) = f"
  by (cases f) simp_all

lemma forward_of_served [simp]: "forward_of (served f q) = f"
  by (simp add: served_def)

text \<open>One request at its service: the records of completed steps, and exactness.\<close>

lemma at_service_laws:
  assumes ex: "all_ok w" and run: "at_service f q w = (r, w')"
  shows at_lasting: "done_at w oid st \<Longrightarrow> done_at w' oid st"
    and at_own: "done_at w' oid st \<Longrightarrow> done_at w oid st \<or>
      st = served f q \<and> (\<exists>b. validateBody (rq_raw q) = Inr b \<and> oid = orderId b)"
    and at_answer: "http_body r = Inr p \<Longrightarrow>
      \<exists>b. validateBody (rq_raw q) = Inr b \<and> done_at w' (orderId b) (served f q)"
proof -
  have "(done_at w oid st \<longrightarrow> done_at w' oid st) \<and>
    (done_at w' oid st \<longrightarrow> done_at w oid st \<or>
      st = served f q \<and> (\<exists>b. validateBody (rq_raw q) = Inr b \<and> oid = orderId b)) \<and>
    (http_body r = Inr p \<longrightarrow> (\<exists>b. validateBody (rq_raw q) = Inr b \<and> done_at w' (orderId b) (served f q)))"
  proof (cases f)
    case CREATE_ORDER
    obtain r1 s1 where s1: "serve f create_order cancel_order q (sh_orders w) = (r1, s1)"
      by (cases "serve f create_order cancel_order q (sh_orders w)")
    with run CREATE_ORDER have eq: "r1 = r" "w' = w\<lparr>sh_orders := s1\<rparr>" by (simp_all add: at_service_def)
    have ok: "redis.svc_ok (sh_orders w)" using ex by (simp add: all_ok_def)
    show ?thesis using serve_records [OF ok s1, of st oid p] forward_of_served [of f q] CREATE_ORDER
      by (cases "forward_of st") (auto simp: done_at_def eq simp del: forward_of_served)
  next
    case RESERVE_INVENTORY
    obtain r1 s1 where s1: "serve f reserve_inventory release_inventory q (sh_stock w) = (r1, s1)"
      by (cases "serve f reserve_inventory release_inventory q (sh_stock w)")
    with run RESERVE_INVENTORY have eq: "r1 = r" "w' = w\<lparr>sh_stock := s1\<rparr>" by (simp_all add: at_service_def)
    have ok: "redis.svc_ok (sh_stock w)" using ex by (simp add: all_ok_def)
    show ?thesis using serve_records [OF ok s1, of st oid p] forward_of_served [of f q] RESERVE_INVENTORY
      by (cases "forward_of st") (auto simp: done_at_def eq simp del: forward_of_served)
  next
    case CHARGE_PAYMENT
    obtain r1 s1 where s1: "serve f charge_payment refund_payment q (sh_payments w) = (r1, s1)"
      by (cases "serve f charge_payment refund_payment q (sh_payments w)")
    with run CHARGE_PAYMENT have eq: "r1 = r" "w' = w\<lparr>sh_payments := s1\<rparr>" by (simp_all add: at_service_def)
    have ok: "redis.svc_ok (sh_payments w)" using ex by (simp add: all_ok_def)
    show ?thesis using serve_records [OF ok s1, of st oid p] forward_of_served [of f q] CHARGE_PAYMENT
      by (cases "forward_of st") (auto simp: done_at_def eq simp del: forward_of_served)
  next
    case CREATE_SHIPMENT
    obtain r1 s1 where s1: "serve f create_shipment cancel_shipment q (sh_shipments w) = (r1, s1)"
      by (cases "serve f create_shipment cancel_shipment q (sh_shipments w)")
    with run CREATE_SHIPMENT have eq: "r1 = r" "w' = w\<lparr>sh_shipments := s1\<rparr>" by (simp_all add: at_service_def)
    have ok: "redis.svc_ok (sh_shipments w)" using ex by (simp add: all_ok_def)
    show ?thesis using serve_records [OF ok s1, of st oid p] forward_of_served [of f q] CREATE_SHIPMENT
      by (cases "forward_of st") (auto simp: done_at_def eq simp del: forward_of_served)
  qed
  then show "done_at w oid st \<Longrightarrow> done_at w' oid st"
    and "done_at w' oid st \<Longrightarrow> done_at w oid st \<or>
      st = served f q \<and> (\<exists>b. validateBody (rq_raw q) = Inr b \<and> oid = orderId b)"
    and "http_body r = Inr p \<Longrightarrow>
      \<exists>b. validateBody (rq_raw q) = Inr b \<and> done_at w' (orderId b) (served f q)" by blast+
qed

lemma at_exact:
  assumes "all_exact w" and "at_service f q w = (r, w')"
    and "\<And>b. rq_undo q \<Longrightarrow> validateBody (rq_raw q) = Inr b \<Longrightarrow> done_at w (orderId b) (Fwd f)"
  shows "all_exact w'"
proof (cases f)
  case CREATE_ORDER
  have u: "undo_in_order f q (sh_orders w)"
    using assms(3) CREATE_ORDER by (auto simp: undo_in_order_def done_at_def split: sum.splits)
  obtain s1 where s1: "serve f create_order cancel_order q (sh_orders w) = (r, s1)" "w' = w\<lparr>sh_orders := s1\<rparr>"
    using assms(2) CREATE_ORDER by (auto simp: at_service_def split: prod.splits)
  have "orders.exact f (sh_orders w)" using assms(1) CREATE_ORDER by (simp add: all_exact_def)
  from orders.serve_exact [OF this u s1(1)] assms(1) s1(2) CREATE_ORDER show ?thesis by (simp add: all_exact_def)
next
  case RESERVE_INVENTORY
  have u: "undo_in_order f q (sh_stock w)"
    using assms(3) RESERVE_INVENTORY by (auto simp: undo_in_order_def done_at_def split: sum.splits)
  obtain s1 where s1: "serve f reserve_inventory release_inventory q (sh_stock w) = (r, s1)" "w' = w\<lparr>sh_stock := s1\<rparr>"
    using assms(2) RESERVE_INVENTORY by (auto simp: at_service_def split: prod.splits)
  have "inventory.exact f (sh_stock w)" using assms(1) RESERVE_INVENTORY by (simp add: all_exact_def)
  from inventory.serve_exact [OF this u s1(1)] assms(1) s1(2) RESERVE_INVENTORY show ?thesis by (simp add: all_exact_def)
next
  case CHARGE_PAYMENT
  have u: "undo_in_order f q (sh_payments w)"
    using assms(3) CHARGE_PAYMENT by (auto simp: undo_in_order_def done_at_def split: sum.splits)
  obtain s1 where s1: "serve f charge_payment refund_payment q (sh_payments w) = (r, s1)" "w' = w\<lparr>sh_payments := s1\<rparr>"
    using assms(2) CHARGE_PAYMENT by (auto simp: at_service_def split: prod.splits)
  have "payments.exact f (sh_payments w)" using assms(1) CHARGE_PAYMENT by (simp add: all_exact_def)
  from payments.serve_exact [OF this u s1(1)] assms(1) s1(2) CHARGE_PAYMENT show ?thesis by (simp add: all_exact_def)
next
  case CREATE_SHIPMENT
  have u: "undo_in_order f q (sh_shipments w)"
    using assms(3) CREATE_SHIPMENT by (auto simp: undo_in_order_def done_at_def split: sum.splits)
  obtain s1 where s1: "serve f create_shipment cancel_shipment q (sh_shipments w) = (r, s1)" "w' = w\<lparr>sh_shipments := s1\<rparr>"
    using assms(2) CREATE_SHIPMENT by (auto simp: at_service_def split: prod.splits)
  have "shipments.exact f (sh_shipments w)" using assms(1) CREATE_SHIPMENT by (simp add: all_exact_def)
  from shipments.serve_exact [OF this u s1(1)] assms(1) s1(2) CREATE_SHIPMENT show ?thesis by (simp add: all_exact_def)
qed

text \<open>The fetch of one request.\<close>

lemma all_exact_requests [simp]: "all_exact (w\<lparr>sh_requests := n\<rparr>) = all_exact w"
  "done_at (w\<lparr>sh_requests := n\<rparr>) = done_at w"
  "all_exact (w\<lparr>sh_sent := l\<rparr>) = all_exact w" "done_at (w\<lparr>sh_sent := l\<rparr>) = done_at w"
  by (simp_all add: all_exact_def done_at_def fun_eq_iff split: forward_step.splits)

lemma served_arriving [simp]: "served (forward_of st) (arriving a st body) = st"
proof (cases st)
  case (Comp c)
  then show ?thesis by (cases c) (simp_all add: served_def arriving_def)
qed (simp add: served_def arriving_def)

lemma arriving_body [simp]:
  "validateBody (rq_raw (arriving a st body)) = Inr b \<Longrightarrow> b = body"
  by (auto simp: arriving_def dest: validate_sent)

lemma at_service_sent: "at_service f q w = (r, w') \<Longrightarrow> sh_sent w' = sh_sent w"
  by (auto simp: at_service_def split: forward_step.splits prod.splits)

definition sent_at :: "shop \<Rightarrow> string \<Rightarrow> step \<Rightarrow> bool" where
  "sent_at w oid st \<longleftrightarrow> list_ex (\<lambda>(st', body). st' = st \<and> orderId body = oid) (sh_sent w)"

text \<open>The services are exact, and every undo on its way is for a step that was carried out.\<close>

definition in_order :: "shop \<Rightarrow> bool" where
  "in_order w \<longleftrightarrow> all_exact w \<and> (\<forall>oid f. sent_at w oid (Comp (COMPENSATION_OF f)) \<longrightarrow> done_at w oid (Fwd f))"

lemma sent_at_simps [simp]: "sent_at (w\<lparr>sh_requests := n\<rparr>) = sent_at w"
  "sent_at (w\<lparr>sh_sent := sh_sent w @ [(st, body)]\<rparr>) oid st' \<longleftrightarrow> sent_at w oid st' \<or> st' = st \<and> oid = orderId body"
  by (auto simp: sent_at_def fun_eq_iff)

text \<open>A request on its way reaches its service.\<close>

lemma arriving_keeps:
  assumes w: "in_order w" and sent: "sent_at w (orderId body) st"
    and run: "at_service (forward_of st) (arriving a st body) w = (r, w')"
  shows "in_order w' \<and> sh_sent w' = sh_sent w \<and> (done_at w oid st' \<longrightarrow> done_at w' oid st') \<and>
    (done_at w' oid st' \<longrightarrow> done_at w oid st' \<or> oid = orderId body \<and> st' = st)"
proof -
  have ex: "all_exact w" using w by (simp add: in_order_def)
  have s: "sh_sent w' = sh_sent w" by (rule at_service_sent [OF run])
  have grow: "done_at w oid st' \<Longrightarrow> done_at w' oid st'" for oid st'
    using at_lasting [OF _ run] ex by simp
  have own: "done_at w' oid st' \<longrightarrow> done_at w oid st' \<or> oid = orderId body \<and> st' = st"
    using at_own [OF _ run, of oid st'] ex by (auto dest: arriving_body)
  have "all_exact w'"
  proof (rule at_exact [OF ex run])
    fix b assume u: "rq_undo (arriving a st body)" and b: "validateBody (rq_raw (arriving a st body)) = Inr b"
    then obtain c where c: "st = Comp c" by (cases st) (simp_all add: arriving_def)
    then obtain f where f: "c = COMPENSATION_OF f" using COMPENSATION_OF_surj by metis
    from w sent have "done_at w (orderId body) (Fwd f)" by (auto simp: in_order_def c f)
    with arriving_body [OF b] show "done_at w (orderId b) (Fwd (forward_of st))" by (simp add: c f)
  qed
  then have "in_order w'" using w s grow by (auto simp: in_order_def sent_at_def)
  with s grow own show ?thesis by blast
qed

lemma arrive_late_keeps:
  "in_order w \<Longrightarrow> in_order (arrive_late late w) \<and> sh_sent (arrive_late late w) = sh_sent w \<and>
    (done_at w oid st \<longrightarrow> done_at (arrive_late late w) oid st) \<and>
    (done_at (arrive_late late w) oid st \<longrightarrow> done_at w oid st \<or> sent_at w oid st)"
proof (induction late arbitrary: w)
  case (Cons ia late)
  obtain i a where ia: "ia = (i, a)" by (cases ia)
  show ?case
  proof (cases "i < length (sh_sent w)")
    case True
    obtain st' body where nth: "sh_sent w ! i = (st', body)" by fastforce
    have sent: "sent_at w (orderId body) st'"
      using nth_mem [OF True] nth by (auto simp: sent_at_def list_ex_iff)
    obtain r w1 where run: "at_service (forward_of st') (arriving a st' body) w = (r, w1)"
      by (cases "at_service (forward_of st') (arriving a st' body) w")
    note K = arriving_keeps [OF Cons.prems sent run, of oid st]
    have eq: "arrive_late (ia # late) w = arrive_late late w1" using ia True nth run by simp
    have "sent_at w1 = sent_at w" using K by (simp add: sent_at_def fun_eq_iff)
    with Cons.IH [of w1] K sent eq show ?thesis by auto
  qed (use Cons ia in simp)
qed simp

lemma wired_post:
  assumes "post_step (wired net deps) order st frc w = (p, d, w')"
  obtains w1 where "w1 = (arrive_late (net_late net (sh_requests w)) w)
      \<lparr>sh_requests := Suc (sh_requests w),
       sh_sent := sh_sent (arrive_late (net_late net (sh_requests w)) w) @ [(st, step_body order frc)]\<rparr>"
    and "w' = w1 \<and> (\<forall>x. p \<noteq> Inr x) \<or>
      (\<exists>r. at_service (forward_of st) (arriving (net_arrival net (sh_requests w)) st (step_body order frc)) w1 = (r, w') \<and>
         (\<forall>x. p = Inr x \<longrightarrow> x = received r))"
proof -
  have url: "step_at (serviceUrls deps) (step_url (wired net deps) st) = Some st"
    using step_at_url [of "wired net deps" st] by (simp add: wired_def)
  define w1 where "w1 = (arrive_late (net_late net (sh_requests w)) w)
      \<lparr>sh_requests := Suc (sh_requests w),
       sh_sent := sh_sent (arrive_late (net_late net (sh_requests w)) w) @ [(st, step_body order frc)]\<rparr>"
  let ?q = "arriving (net_arrival net (sh_requests w)) st (step_body order frc)"
  obtain r w2 where r: "at_service (forward_of st) ?q w1 = (r, w2)" by (cases "at_service (forward_of st) ?q w1")
  have post: "post_step (wired net deps) order st frc w = shop_fetch net (serviceUrls deps)
      (step_url (wired net deps) st) (idempotencyKey (orderId order) st) (step_body order frc) (step_timeoutMs deps) w"
    by (simp add: post_step_def) (simp add: wired_def)
  have "w' = w1 \<and> (\<forall>x. p \<noteq> Inr x) \<or>
      (\<exists>r. at_service (forward_of st) ?q w1 = (r, w') \<and> (\<forall>x. p = Inr x \<longrightarrow> x = received r))"
    using assms url r
    by (cases "net_fate net (sh_requests w) (step_url (wired net deps) st)")
       (auto simp: post shop_fetch_def Let_def w1_def)
  with that w1_def show ?thesis by blast
qed

lemma step_body_id [simp]: "orderId (step_body order frc) = orderId order"
  by (simp add: step_body_def)

text \<open>What one fetch does to the records and what it leaves on its way.\<close>

lemma wired_post_keeps:
  assumes w: "in_order w" and post: "post_step (wired net deps) order st frc w = (p, d, w')"
  shows "(done_at w oid st' \<longrightarrow> done_at w' oid st') \<and>
    (sent_at w' oid st' \<longrightarrow> sent_at w oid st' \<or> oid = orderId order \<and> st' = st) \<and>
    (done_at w' oid st' \<longrightarrow> done_at w oid st' \<or> sent_at w' oid st') \<and>
    ((\<forall>f. st = Comp (COMPENSATION_OF f) \<longrightarrow> done_at w (orderId order) (Fwd f)) \<longrightarrow> in_order w')"
proof -
  let ?w0 = "arrive_late (net_late net (sh_requests w)) w"
  let ?q = "arriving (net_arrival net (sh_requests w)) st (step_body order frc)"
  note L = arrive_late_keeps [OF w, of "net_late net (sh_requests w)"]
  from post obtain w1 where w1: "w1 = ?w0\<lparr>sh_requests := Suc (sh_requests w),
       sh_sent := sh_sent ?w0 @ [(st, step_body order frc)]\<rparr>"
    and end_: "w' = w1 \<or> (\<exists>r. at_service (forward_of st) ?q w1 = (r, w'))"
    by (rule wired_post) blast
  have s1: "sent_at w1 oid st' \<longleftrightarrow> sent_at w oid st' \<or> oid = orderId order \<and> st' = st" for oid st'
    using L by (auto simp: w1 sent_at_def)
  have d1: "done_at w1 = done_at ?w0" "all_exact w1 = all_exact ?w0" by (simp_all add: w1)
  have ok: "all_ok w1" using L d1 by (simp add: in_order_def all_ok_def w1) (simp add: all_ok_def [symmetric])
  have in1: "in_order w1" if "\<forall>f. st = Comp (COMPENSATION_OF f) \<longrightarrow> done_at w (orderId order) (Fwd f)"
    unfolding in_order_def s1 using L that w by (auto simp: in_order_def d1)
  from end_ show ?thesis
  proof
    assume "w' = w1"
    with in1 s1 L [of oid st'] show ?thesis by (auto simp: d1)
  next
    assume "\<exists>r. at_service (forward_of st) ?q w1 = (r, w')"
    then obtain r where run: "at_service (forward_of st) ?q w1 = (r, w')" ..
    have sent: "sent_at w' oid st' = sent_at w1 oid st'" using at_service_sent [OF run] by (simp add: sent_at_def)
    have "done_at w1 oid st' \<longrightarrow> done_at w' oid st'" using at_lasting [OF ok run] by blast
    moreover have "done_at w' oid st' \<longrightarrow> done_at w1 oid st' \<or> oid = orderId order \<and> st' = st"
      using at_own [OF ok run, of oid st'] arriving_body step_body_id served_arriving by metis
    moreover have "in_order w'" if "\<forall>f. st = Comp (COMPENSATION_OF f) \<longrightarrow> done_at w (orderId order) (Fwd f)"
      using arriving_keeps [OF in1 [OF that] _ run] s1 by simp
    ultimately show ?thesis using s1 sent L [of oid st'] by (auto simp: d1)
  qed
qed

interpretation shop: step_services "wired net deps" done_at sent_at in_order for net deps
proof unfold_locales
  fix w order st frc r d w' b
  assume g: "in_order w" and post: "post_step (wired net deps) order st frc w = (Inr r, d, w')"
    and r: "response_ok r" "fr_json r = Inr b"
  from post show "done_at w' (orderId order) st"
  proof (rule wired_post)
    fix w1 assume w1: "w1 = (arrive_late (net_late net (sh_requests w)) w)\<lparr>sh_requests := Suc (sh_requests w),
        sh_sent := sh_sent (arrive_late (net_late net (sh_requests w)) w) @ [(st, step_body order frc)]\<rparr>"
      and "w' = w1 \<and> (\<forall>x. Inr r \<noteq> (Inr x :: js_value + fetch_response)) \<or>
        (\<exists>ra. at_service (forward_of st) (arriving (net_arrival net (sh_requests w)) st (step_body order frc)) w1 = (ra, w') \<and>
           (\<forall>x. Inr r = (Inr x :: js_value + fetch_response) \<longrightarrow> x = received ra))"
    then obtain ra where run: "at_service (forward_of st)
        (arriving (net_arrival net (sh_requests w)) st (step_body order frc)) w1 = (ra, w')" and "r = received ra" by auto
    with r have "http_body ra = Inr b" by (auto simp: received_def split: sum.splits)
    moreover have "all_ok w1" using arrive_late_keeps [OF g] by (simp add: w1 in_order_def)
    ultimately show "done_at w' (orderId order) st"
      using at_answer [OF _ run] by (auto dest: arriving_body)
  qed
next
  fix w order st frc p d w' oid st'
  assume g: "in_order w" and post: "post_step (wired net deps) order st frc w = (p, d, w')"
  note K = wired_post_keeps [OF g post, of oid st']
  show "done_at w oid st' \<Longrightarrow> done_at w' oid st'"
    and "done_at w' oid st' \<Longrightarrow> done_at w oid st' \<or> sent_at w' oid st'"
    and "sent_at w' oid st' \<Longrightarrow> sent_at w oid st' \<or> oid = orderId order \<and> st' = st"
    using K by blast+
next
  fix w order f frc p d w'
  assume "in_order w" and "post_step (wired net deps) order (Fwd f) frc w = (p, d, w')"
  then show "in_order w'" using wired_post_keeps by blast
next
  fix w order f frc p d w'
  assume g: "in_order w" and did: "done_at w (orderId order) (Fwd f)"
    and post: "post_step (wired net deps) order (Comp (COMPENSATION_OF f)) frc w = (p, d, w')"
  from wired_post_keeps [OF g post] did show "in_order w'" by (auto simp: COMPENSATION_OF_inj)
qed

end
