(* ===== verification/ServiceApp.thy ===== *)
theory ServiceApp
  imports Shop
begin

text \<open>
  The Express applications of the four services: createServiceApp and start of packages/shared/src/
  service.ts, and the registrations in services/{order,inventory,payment,shipping}/src/index.ts. An
  application is the list of its layers in the order of their registration, which is the order in
  which Express tries them: a layer that throws hands its error to the next error handler. The body
  parser is a parameter: a request carries what it makes of the body, and the router's test whether a
  path is that of a route is the argument \<open>hit\<close>. HEAD and OPTIONS requests, which Express answers by
  itself from the routes, are left out.
\<close>

section \<open>Requests, layers and replies\<close>

record app_request =
  ar_method :: string
  ar_path :: string
  ar_body :: "js_value + json option"

datatype 'd layer = Json_parser | Health_route | Step_layer step "'d handler" | Error_layer

text \<open>Besides the replies of the code, the two pages Express sends when no layer answers.\<close>

datatype app_reply = Step_reply http_response | Health_reply health | Not_found_page | Error_page js_value

definition createServiceApp :: "'d layer list" where
  "createServiceApp = [Json_parser, Health_route]"

definition app_post :: "step \<Rightarrow> 'd handler \<Rightarrow> 'd layer list \<Rightarrow> 'd layer list" where
  "app_post step handler app = app @ [Step_layer step handler]"

definition start_app :: "'d layer list \<Rightarrow> 'd layer list" where
  "start_app app = app @ [Error_layer]"

definition order_app :: "orders_table layer list" where
  "order_app = start_app (app_post (Comp CANCEL_ORDER) cancel_order
     (app_post (Fwd CREATE_ORDER) create_order createServiceApp))"

definition inventory_app :: "inventory_tables layer list" where
  "inventory_app = start_app (app_post (Comp RELEASE_INVENTORY) release_inventory
     (app_post (Fwd RESERVE_INVENTORY) reserve_inventory createServiceApp))"

definition payment_app :: "payments_table layer list" where
  "payment_app = start_app (app_post (Comp REFUND_PAYMENT) refund_payment
     (app_post (Fwd CHARGE_PAYMENT) charge_payment createServiceApp))"

definition shipping_app :: "shipments_table layer list" where
  "shipping_app = start_app (app_post (Comp CANCEL_SHIPMENT) cancel_shipment
     (app_post (Fwd CREATE_SHIPMENT) create_shipment createServiceApp))"

text \<open>
  One request through the layers. The third argument is what has been thrown so far; the fate of the
  health check's SELECT 1 is \<open>select1\<close>.
\<close>

fun run_app ::
  "(string \<Rightarrow> string \<Rightarrow> bool) \<Rightarrow> js_value option \<Rightarrow> idem_env \<Rightarrow> app_request \<Rightarrow> 'd layer list \<Rightarrow>
     js_value + json option \<Rightarrow> 'd step_service \<Rightarrow> app_reply \<times> 'd step_service" where
  "run_app hit select1 env q [] (Inl e) s = (Error_page e, s)"
| "run_app hit select1 env q [] (Inr b) s = (Not_found_page, s)"
| "run_app hit select1 env q (Error_layer # app) (Inl e) s = (Step_reply (errorMiddleware e), s)"
| "run_app hit select1 env q (l # app) (Inl e) s = run_app hit select1 env q app (Inl e) s"
| "run_app hit select1 env q (Json_parser # app) (Inr b) s = run_app hit select1 env q app (ar_body q) s"
| "run_app hit select1 env q (Health_route # app) (Inr b) s =
     (if ar_method q = ''GET'' \<and> hit ''/health'' (ar_path q) then (Health_reply (service_health select1 s), s)
      else run_app hit select1 env q app (Inr b) s)"
| "run_app hit select1 env q (Step_layer step handler # app) (Inr b) s =
     (if ar_method q = ''POST'' \<and> hit (stepPath step) (ar_path q)
      then case step_route env step handler b s of
             (Inr payload, s') \<Rightarrow> (Step_reply \<lparr>http_status = 200, http_body = Inr payload\<rparr>, s')
           | (Inl e, s') \<Rightarrow> run_app hit select1 env q app (Inl e) s'
      else run_app hit select1 env q app (Inr b) s)"
| "run_app hit select1 env q (Error_layer # app) (Inr b) s = run_app hit select1 env q app (Inr b) s"

definition handle_request ::
  "(string \<Rightarrow> string \<Rightarrow> bool) \<Rightarrow> js_value option \<Rightarrow> idem_env \<Rightarrow> 'd layer list \<Rightarrow> app_request \<Rightarrow>
     'd step_service \<Rightarrow> app_reply \<times> 'd step_service" where
  "handle_request hit select1 env app q s = run_app hit select1 env q app (Inr None) s"

section \<open>Every request gets its reply from the code\<close>

text \<open>The first registered step whose path is asked for.\<close>

fun step_asked :: "(string \<Rightarrow> string \<Rightarrow> bool) \<Rightarrow> string \<Rightarrow> 'd layer list \<Rightarrow> (step \<times> 'd handler) option" where
  "step_asked hit path [] = None"
| "step_asked hit path (Step_layer step handler # app) =
     (if hit (stepPath step) path then Some (step, handler) else step_asked hit path app)"
| "step_asked hit path (_ # app) = step_asked hit path app"

fun is_step_layer :: "'d layer \<Rightarrow> bool" where
  "is_step_layer (Step_layer _ _) = True"
| "is_step_layer _ = False"

lemma thrown_to_error_layer:
  "list_all is_step_layer app \<Longrightarrow>
    run_app hit select1 env q (app @ [Error_layer]) (Inl e) s = (Step_reply (errorMiddleware e), s)"
proof (induction app)
  case (Cons l app)
  then show ?case by (cases l) simp_all
qed simp

lemma run_steps:
  "list_all is_step_layer app \<Longrightarrow>
    run_app hit select1 env q (app @ [Error_layer]) (Inr b) s =
      (case if ar_method q = ''POST'' then step_asked hit (ar_path q) app else None of
         None \<Rightarrow> (Not_found_page, s)
       | Some (step, handler) \<Rightarrow>
           (case registerStep env step handler b s of (r, s') \<Rightarrow> (Step_reply r, s')))"
proof (induction app)
  case (Cons l app)
  then obtain step handler where l: "l = Step_layer step handler" by (cases l) simp_all
  obtain r s' where r: "step_route env step handler b s = (r, s')" by fastforce
  have rest: "list_all is_step_layer app" using Cons.prems by simp
  show ?case
  proof (cases "ar_method q = ''POST'' \<and> hit (stepPath step) (ar_path q)")
    case True
    with l r show ?thesis
      by (cases r) (simp_all add: registerStep_def thrown_to_error_layer [OF rest])
  next
    case False
    with l Cons.IH [OF rest] show ?thesis by auto
  qed
qed simp

lemma handle_request_eq:
  assumes "list_all is_step_layer routes"
  shows "handle_request hit select1 env (start_app (createServiceApp @ routes)) q s =
    (case ar_body q of
       Inl e \<Rightarrow> (Step_reply (errorMiddleware e), s)
     | Inr b \<Rightarrow>
         if ar_method q = ''GET'' \<and> hit ''/health'' (ar_path q) then (Health_reply (service_health select1 s), s)
         else (case if ar_method q = ''POST'' then step_asked hit (ar_path q) routes else None of
                 None \<Rightarrow> (Not_found_page, s)
               | Some (step, handler) \<Rightarrow>
                   (case registerStep env step handler b s of (r, s') \<Rightarrow> (Step_reply r, s'))))"
  using assms
  by (cases "ar_body q") (simp_all add: handle_request_def createServiceApp_def start_app_def run_steps thrown_to_error_layer)

lemma service_apps:
  "order_app = start_app (createServiceApp @ [Step_layer (Fwd CREATE_ORDER) create_order, Step_layer (Comp CANCEL_ORDER) cancel_order])"
  "inventory_app = start_app (createServiceApp @
     [Step_layer (Fwd RESERVE_INVENTORY) reserve_inventory, Step_layer (Comp RELEASE_INVENTORY) release_inventory])"
  "payment_app = start_app (createServiceApp @
     [Step_layer (Fwd CHARGE_PAYMENT) charge_payment, Step_layer (Comp REFUND_PAYMENT) refund_payment])"
  "shipping_app = start_app (createServiceApp @
     [Step_layer (Fwd CREATE_SHIPMENT) create_shipment, Step_layer (Comp CANCEL_SHIPMENT) cancel_shipment])"
  by (simp_all add: order_app_def inventory_app_def payment_app_def shipping_app_def app_post_def createServiceApp_def)

lemma registerStep_status:
  "registerStep env step handler b s = (r, s') \<Longrightarrow>
    (http_status r = 200 \<and> (\<exists>p. http_body r = Inr p)) \<or> (http_status r \<in> {409, 422, 500} \<and> (\<exists>e. http_body r = Inl e))"
  by (auto simp: registerStep_def errorMiddleware_def error_response_def split: prod.splits sum.splits js_value.splits)



text \<open>
  What theory Shop takes for a service is its application: a request to the path of a step, with a body
  the parser accepts, does what \<open>at_service\<close> does for that step.
\<close>

definition step_post :: "forward_step \<Rightarrow> step_request \<Rightarrow> app_request" where
  "step_post f q = \<lparr>ar_method = ''POST'', ar_path = stepPath (served f q), ar_body = Inr (rq_raw q)\<rparr>"

lemma app_serves:
  assumes "\<forall>step. hit (stepPath step) (stepPath (served f q)) = (step = served f q)"
  shows "handle_request hit select1 (rq_env q)
      (start_app (createServiceApp @ [Step_layer (Fwd f) doit, Step_layer (Comp (COMPENSATION_OF f)) undo]))
      (step_post f q) (settle_in q s) = map_prod Step_reply id (serve f doit undo q s)"
proof (cases "rq_undo q")
  case True
  with assms have "hit (stepPath (Comp (COMPENSATION_OF f))) (stepPath (Comp (COMPENSATION_OF f)))"
    "\<not> hit (stepPath (Fwd f)) (stepPath (Comp (COMPENSATION_OF f)))" by (simp_all add: served_def)
  with True show ?thesis by (simp add: handle_request_eq step_post_def serve_def served_def split: prod.splits)
next
  case False
  with assms have "hit (stepPath (Fwd f)) (stepPath (Fwd f))" by (simp add: served_def)
  with False show ?thesis by (simp add: handle_request_eq step_post_def serve_def served_def split: prod.splits)
qed

lemma apps_are_the_shop:
  assumes "\<forall>step. hit (stepPath step) (stepPath (served f q)) = (step = served f q)"
    and "at_service f q w = (r, w')"
  shows "case f of
      CREATE_ORDER \<Rightarrow> handle_request hit select1 (rq_env q) order_app (step_post f q) (settle_in q (sh_orders w)) =
        (Step_reply r, sh_orders w')
    | RESERVE_INVENTORY \<Rightarrow> handle_request hit select1 (rq_env q) inventory_app (step_post f q) (settle_in q (sh_stock w)) =
        (Step_reply r, sh_stock w')
    | CHARGE_PAYMENT \<Rightarrow> handle_request hit select1 (rq_env q) payment_app (step_post f q) (settle_in q (sh_payments w)) =
        (Step_reply r, sh_payments w')
    | CREATE_SHIPMENT \<Rightarrow> handle_request hit select1 (rq_env q) shipping_app (step_post f q) (settle_in q (sh_shipments w)) =
        (Step_reply r, sh_shipments w')"
  using assms(2)
    app_serves [where hit = hit and f = f and q = q, OF assms(1), of select1 create_order cancel_order "sh_orders w"]
    app_serves [where hit = hit and f = f and q = q, OF assms(1), of select1 reserve_inventory release_inventory "sh_stock w"]
    app_serves [where hit = hit and f = f and q = q, OF assms(1), of select1 charge_payment refund_payment "sh_payments w"]
    app_serves [where hit = hit and f = f and q = q, OF assms(1), of select1 create_shipment cancel_shipment "sh_shipments w"]
  by (cases f) (auto simp: at_service_def service_apps split: prod.splits)

text \<open>
  The order of registration matters: a step that is registered after start answers its errors with
  the error page of the framework.
\<close>

lemma late_registration_leaks:
  "handle_request (=) None no_faults (app_post (Fwd CREATE_ORDER) create_order (start_app createServiceApp))
     \<lparr>ar_method = ''POST'', ar_path = ''/create-order'', ar_body = Inr None\<rparr> (empty_service []) =
   (Error_page (BusinessRuleError ''body must be an object''), empty_service [])"
  by (simp add: handle_request_def app_post_def start_app_def createServiceApp_def step_route_def validateBody_def)

end
