(* ===== verification/ShopRuns.thy ===== *)
theory ShopRuns
  imports Shop
begin

text \<open>
  Runs of the whole system, from the claim of an order to the tables of the four services.
\<close>

section \<open>The effects of a step\<close>

text \<open>The effect of a forward step in the tables of its service.\<close>

definition live_at :: "forward_step \<Rightarrow> shop \<Rightarrow> string \<Rightarrow> bool" where
  "live_at f w oid =
    (case f of
       CREATE_ORDER \<Rightarrow> order_open (domain (sh_orders w)) oid
     | RESERVE_INVENTORY \<Rightarrow> reserved (domain (sh_stock w)) oid
     | CHARGE_PAYMENT \<Rightarrow> charged (domain (sh_payments w)) oid
     | CREATE_SHIPMENT \<Rightarrow> shipment_live (domain (sh_shipments w)) oid)"

lemma live_at_exact:
  "all_exact w \<Longrightarrow>
    live_at f w oid \<longleftrightarrow> done_at w oid (Fwd f) \<and> \<not> done_at w oid (Comp (COMPENSATION_OF f))"
  by (cases f) (simp_all add: all_exact_def live_at_def done_at_def orders.exact_def inventory.exact_def
    payments.exact_def shipments.exact_def)

definition agreed :: "shop coord \<Rightarrow> bool" where
  "agreed s \<longleftrightarrow> consistent done_at in_order (cs_db s) (cs_world s)"

lemma agreed_order: "agreed s \<Longrightarrow> in_order (cs_world s)"
  by (simp add: agreed_def consistent_def)

lemma agreed_exact: "agreed s \<Longrightarrow> all_exact (cs_world s)"
  using agreed_order by (simp add: in_order_def)

lemma agreed_ok: "agreed s \<Longrightarrow> db_ok (cs_db s)"
  by (simp add: agreed_def consistent_def)

lemma agreed_rows:
  "agreed s \<Longrightarrow> step_status_of (cs_db s) oid st = Some S_SUCCEEDED \<Longrightarrow> done_at (cs_world s) oid st"
  by (simp add: agreed_def consistent_def agrees_def)

lemma agreed_runSaga: "agreed s \<Longrightarrow> runSaga (wired net deps) order s = (r, s') \<Longrightarrow> agreed s'"
  unfolding agreed_def by (rule shop.runSaga_keeps)

lemma agreed_retry: "agreed s \<Longrightarrow> retryCompensation (wired net deps) order s = (r, s') \<Longrightarrow> agreed s'"
  unfolding agreed_def by (rule shop.retryCompensation_keeps)

lemma agreed_late:
  "agreed s \<Longrightarrow> agreed (s\<lparr>cs_world := arrive_late late (cs_world s)\<rparr>)"
  using arrive_late_keeps [of "cs_world s" late] by (auto simp: agreed_def consistent_def elim: agrees_mono)

text \<open>What a late request cannot change: it undoes nothing whose undo is not on its way, and does nothing again.\<close>

lemma late_live:
  assumes "in_order w" and "live_at f w oid" and "\<not> sent_at w oid (Comp (COMPENSATION_OF f))"
  shows "live_at f (arrive_late late w) oid"
proof -
  note L = arrive_late_keeps [OF assms(1), of late oid]
  have "all_exact w" "all_exact (arrive_late late w)" using L assms(1) by (simp_all add: in_order_def)
  with L [of "Fwd f"] L [of "Comp (COMPENSATION_OF f)"] assms(2,3) show ?thesis
    using live_at_exact [of w f oid] live_at_exact [of "arrive_late late w" f oid] by blast
qed

lemma late_undone:
  assumes "in_order w" and "done_at w oid (Comp (COMPENSATION_OF f))"
  shows "\<not> live_at f (arrive_late late w) oid"
proof -
  note L = arrive_late_keeps [OF assms(1), of late oid "Comp (COMPENSATION_OF f)"]
  have "all_exact (arrive_late late w)" using L by (simp add: in_order_def)
  with L assms(2) live_at_exact show ?thesis by blast
qed

section \<open>Calm services\<close>

definition shop_calm :: "StepRequestBody \<Rightarrow> shop \<Rightarrow> bool" where
  "shop_calm b w \<longleftrightarrow> orders.calm CREATE_ORDER b (sh_orders w) \<and>
     inventory.calm RESERVE_INVENTORY b (sh_stock w) \<and>
     payments.calm CHARGE_PAYMENT b (sh_payments w) \<and> shipments.calm CREATE_SHIPMENT b (sh_shipments w)"

lemma calm_ok:
  "shop_calm b w \<Longrightarrow> all_ok w"
  by (auto simp: shop_calm_def all_ok_def orders.calm_def inventory.calm_def payments.calm_def shipments.calm_def)

lemma calm_requests [simp]: "shop_calm b (w\<lparr>sh_requests := n\<rparr>) = shop_calm b w"
  "shop_calm b (w\<lparr>sh_sent := l\<rparr>) = shop_calm b w"
  by (simp_all add: shop_calm_def)

definition faultless :: "network \<Rightarrow> bool" where
  "faultless net \<longleftrightarrow> (\<forall>k. ar_env (net_arrival net k) = no_faults) \<and> net_late net = (\<lambda>_. [])"

lemma at_service_calm:
  assumes calm: "shop_calm b w" and req: "rq_raw q = Some (body_json b)" "rq_env q = no_faults"
    and b: "orderId b \<noteq> []" "assertNoInjectedFailure (served f q) b = Inr ()"
    and run: "at_service f q w = (r, w')"
  shows "shop_calm b w' \<and> http_status r = 200 \<and> (\<exists>p. http_body r = Inr p) \<and>
    done_at w' (orderId b) (served f q)"
proof (cases f)
  case CREATE_ORDER
  obtain s1 where s1: "serve f create_order cancel_order q (sh_orders w) = (r, s1)" "w' = w\<lparr>sh_orders := s1\<rparr>"
    using run CREATE_ORDER by (auto simp: at_service_def split: prod.splits)
  from orders.calm_answers [OF _ req b s1(1)] calm s1(2) CREATE_ORDER forward_of_served [of f q]
  show ?thesis by (auto simp: shop_calm_def done_at_def)
next
  case RESERVE_INVENTORY
  obtain s1 where s1: "serve f reserve_inventory release_inventory q (sh_stock w) = (r, s1)" "w' = w\<lparr>sh_stock := s1\<rparr>"
    using run RESERVE_INVENTORY by (auto simp: at_service_def split: prod.splits)
  from inventory.calm_answers [OF _ req b s1(1)] calm s1(2) RESERVE_INVENTORY forward_of_served [of f q]
  show ?thesis by (auto simp: shop_calm_def done_at_def)
next
  case CHARGE_PAYMENT
  obtain s1 where s1: "serve f charge_payment refund_payment q (sh_payments w) = (r, s1)" "w' = w\<lparr>sh_payments := s1\<rparr>"
    using run CHARGE_PAYMENT by (auto simp: at_service_def split: prod.splits)
  from payments.calm_answers [OF _ req b s1(1)] calm s1(2) CHARGE_PAYMENT forward_of_served [of f q]
  show ?thesis by (auto simp: shop_calm_def done_at_def)
next
  case CREATE_SHIPMENT
  obtain s1 where s1: "serve f create_shipment cancel_shipment q (sh_shipments w) = (r, s1)" "w' = w\<lparr>sh_shipments := s1\<rparr>"
    using run CREATE_SHIPMENT by (auto simp: at_service_def split: prod.splits)
  from shipments.calm_answers [OF _ req b s1(1)] calm s1(2) CREATE_SHIPMENT forward_of_served [of f q]
  show ?thesis by (auto simp: shop_calm_def done_at_def)
qed

text \<open>
  On a faultless network that treats all requests of a step alike, the step is answered or not as its
  responses are; it is carried out unless its requests are lost, and then they are still on their way.
\<close>

definition still_open :: "ClaimedOrder \<Rightarrow> step set \<Rightarrow> shop \<Rightarrow> bool" where
  "still_open order A w \<longleftrightarrow> shop_calm (step_body order False) w \<and>
     (\<forall>st \<in> A. \<not> done_at w (orderId order) st)"

lemma step_url_wired [simp]: "step_url (wired net deps) st = step_url deps st"
  by (simp add: step_url_def wired_def)

definition requested :: "ClaimedOrder \<Rightarrow> (step \<Rightarrow> bool) \<Rightarrow> step \<Rightarrow> shop \<Rightarrow> bool" where
  "requested order arrives st w \<longleftrightarrow> (st, step_body order False) \<in> set (sh_sent w) \<and>
     (arrives st \<longrightarrow> done_at w (orderId order) st)"

lemma sent_done [simp]: "still_open order A (w\<lparr>sh_requests := n, sh_sent := l\<rparr>) = still_open order A w"
  by (simp add: still_open_def)

lemma shop_decided:
  assumes net: "faultless net" "\<And>k. net_fate net k (step_url deps st) = fate"
    and b: "orderId order \<noteq> []" "assertNoInjectedFailure st (step_body order False) = Inr ()"
    and A: "arrives st \<Longrightarrow> st \<notin> A" and V: "V st \<longleftrightarrow> fate = Delivered"
    and arrives: "arrives st \<longleftrightarrow> (case fate of Request_lost _ \<Rightarrow> False | _ \<Rightarrow> True)"
  shows "decided (still_open order A) (requested order arrives) V (wired net deps) order False st"
  unfolding decided_def
proof (intro allI impI)
  fix w assume w: "still_open order A w"
  let ?b = "step_body order False"
  let ?w = "w\<lparr>sh_requests := Suc (sh_requests w), sh_sent := sh_sent w @ [(st, ?b)]\<rparr>"
  let ?q = "arriving (net_arrival net (sh_requests w)) st ?b"
  obtain r w' where at: "at_service (forward_of st) ?q ?w = (r, w')" by (cases "at_service (forward_of st) ?q ?w")
  have url: "step_at (serviceUrls deps) (step_url deps st) = Some st" by (rule step_at_url)
  have post: "post_step (wired net deps) order st False w =
      ((case fate of Delivered \<Rightarrow> Inr (received r) | Request_lost e \<Rightarrow> Inl e | Response_lost e \<Rightarrow> Inl e),
       net_delay net (sh_requests w), if arrives st then w' else ?w)"
    using net at url arrives
    by (cases fate) (simp_all add: post_step_def shop_fetch_def wired_def Let_def step_url_def faultless_def)
  have calm: "shop_calm ?b ?w" using w by (simp add: still_open_def)
  have q: "rq_raw ?q = Some (body_json ?b)" "rq_env ?q = no_faults"
    using net(1) by (simp_all add: arriving_def faultless_def)
  have C: "shop_calm ?b w' \<and> http_status r = 200 \<and> (\<exists>p. http_body r = Inr p) \<and> done_at w' (orderId order) st"
    using at_service_calm [OF calm q _ _ at] b by simp
  have ok: "all_ok ?w" using calm_ok [of ?b ?w] w by (simp add: still_open_def)
  have own: "done_at w' oid x \<Longrightarrow> done_at w oid x \<or> x = st" for oid x
    using at_own [OF ok at, of oid x] by auto
  have keep: "done_at w oid x \<Longrightarrow> done_at w' oid x" for oid x
    using at_lasting [OF ok at, of oid x] by simp
  have sent: "sh_sent w' = sh_sent w @ [(st, ?b)]" using at_service_sent [OF at] by simp
  have "still_open order A (if arrives st then w' else ?w)" using w C own A by (auto simp: still_open_def)
  moreover have "answers (wired net deps) order False st w = V st"
    using C V arrives by (cases fate) (auto simp: answers_def post received_def response_ok_def)
  ultimately show "answers (wired net deps) order False st w = V st \<and>
      (let w' = snd (snd (post_step (wired net deps) order st False w))
       in still_open order A w' \<and> requested order arrives st w' \<and>
         (\<forall>st'. requested order arrives st' w \<longrightarrow> requested order arrives st' w'))"
    using C keep sent by (auto simp: post requested_def)
qed

section \<open>From claim to tables\<close>

lemma works_wired [simp]: "database_works (wired net deps) = database_works deps"
  by (simp add: database_works_def wired_def)

lemma nothing_recorded:
  assumes "agreed s" and "\<And>st. \<not> done_at (cs_world s) oid st"
  shows "step_status_of (cs_db s) oid st \<noteq> Some S_SUCCEEDED"
  using agreed_rows [OF assms(1)] assms(2) by blast

lemma healthy_run:
  assumes "database_works deps" and "faultless net" and "net_fate net = (\<lambda>_ _. Delivered)"
    and "agreed s" and "shop_calm (step_body order False) (cs_world s)"
    and fresh: "\<And>st. \<not> done_at (cs_world s) (orderId order) st"
    and "claimed_status order \<noteq> COMPENSATING" and "orderId order \<noteq> []" and "failAt order = None"
  shows "\<exists>s'. runSaga (wired net deps) order s = (Inr PLACED, s') \<and>
    (\<forall>f. live_at f (cs_world s') (orderId order))"
proof -
  let ?oid = "orderId order"
  let ?A = "range Comp"
  let ?V = "\<lambda>st. st \<in> range Fwd"
  let ?E = "requested order (\<lambda>_. True)"
  have dec: "decided (still_open order ?A) ?E ?V (wired net deps) order False (Fwd f)" for f
    by (rule shop_decided [where fate = Delivered])
       (use assms in \<open>auto simp: assertNoInjectedFailure_def step_body_def\<close>)
  have open_: "still_open order ?A (cs_world s)" using assms(5) fresh by (simp add: still_open_def)
  have none: "step_status_of (cs_db s) ?oid st \<noteq> Some S_SUCCEEDED" for st
    by (rule nothing_recorded [OF assms(4) fresh])
  have verdict: "verdict_of ?V order (cs_db s) = PLACED"
    using assms(7) by (simp add: verdict_of_def saga_verdict_def list_all_FORWARD)
  obtain s' where run: "runSaga (wired net deps) order s = (Inr PLACED, s')"
    and K: "still_open order ?A (cs_world s')" and E: "\<And>f. done_at (cs_world s') ?oid (Fwd f)"
    using saga_decision [where deps = "wired net deps" and order = order and K = "still_open order ?A" and E = ?E
        and V = ?V and s = s, OF _ agreed_ok [OF assms(4)] open_ dec] assms(1,7) none verdict
    by (auto simp: decision_defs requested_def)
  have "live_at f (cs_world s') ?oid" for f
    using live_at_exact [OF agreed_exact [OF agreed_runSaga [OF assms(4) run]]] E K
    by (auto simp: still_open_def)
  with run show ?thesis by blast
qed

lemma late_arrival:
  assumes "in_order w" and "shop_calm b w" and "(Fwd f, b) \<in> set (sh_sent w)" and "orderId b \<noteq> []" and "failAt b = None"
  shows "\<exists>late. done_at (arrive_late late w) (orderId b) (Fwd f) \<and>
    (\<forall>oid st. st \<noteq> Fwd f \<longrightarrow> done_at (arrive_late late w) oid st = done_at w oid st)"
proof -
  obtain i where i: "i < length (sh_sent w)" "sh_sent w ! i = (Fwd f, b)"
    using assms(3) by (auto simp: in_set_conv_nth)
  let ?a = "\<lparr>ar_env = no_faults, ar_wait = 0, ar_disturbances = []\<rparr>"
  obtain r w' where run: "at_service f (arriving ?a (Fwd f) b) w = (r, w')"
    by (cases "at_service f (arriving ?a (Fwd f) b) w")
  have "done_at w' (orderId b) (served f (arriving ?a (Fwd f) b))"
    using at_service_calm [OF assms(2) _ _ assms(4) _ run] assms(5)
    by (simp add: arriving_def served_def assertNoInjectedFailure_def)
  then have "done_at w' (orderId b) (Fwd f)" by (simp add: served_def arriving_def)
  moreover have "done_at w' oid st = done_at w oid st" if "st \<noteq> Fwd f" for oid st
    using at_own [OF calm_ok [OF assms(2)] run, of oid st] at_lasting [OF calm_ok [OF assms(2)] run, of oid st] that
    by (auto simp: served_def arriving_def)
  ultimately show ?thesis using i run by (intro exI [of _ "[(i, ?a)]"]) simp
qed

lemma lost_arrives:
  assumes w: "in_order w" and calm: "shop_calm b w" and sent: "(Fwd f0, b) \<in> set (sh_sent w)"
    and b: "orderId b \<noteq> []" "failAt b = None"
    and others: "\<And>f. f \<noteq> f0 \<Longrightarrow> done_at w (orderId b) (Comp (COMPENSATION_OF f))"
    and kept: "\<not> done_at w (orderId b) (Comp (COMPENSATION_OF f0))"
  shows "\<exists>late. \<forall>f. live_at f (arrive_late late w) (orderId b) \<longleftrightarrow> f = f0"
proof -
  from late_arrival [OF w calm sent b] obtain late
    where L: "done_at (arrive_late late w) (orderId b) (Fwd f0)"
      "\<And>oid st. st \<noteq> Fwd f0 \<Longrightarrow> done_at (arrive_late late w) oid st = done_at w oid st" by auto
  have "all_exact (arrive_late late w)" using arrive_late_keeps [OF w] by (simp add: in_order_def)
  note live = live_at_exact [OF this]
  have "live_at f (arrive_late late w) (orderId b) \<longleftrightarrow> f = f0" for f
    using L others [of f] kept by (cases "f = f0") (auto simp: live)
  then show ?thesis by blast
qed

lemma unanswered_run:
  assumes "database_works deps" and "faultless net"
    and net: "net_fate net = (\<lambda>_ url. if url = step_url deps (Fwd f0) then fate else Delivered)" and "fate \<noteq> Delivered"
    and "agreed s" and "shop_calm (step_body order False) (cs_world s)"
    and fresh: "\<And>st. \<not> done_at (cs_world s) (orderId order) st"
    and "claimed_status order \<noteq> COMPENSATING" and "orderId order \<noteq> []"
    and "failAt order = None" and "compFailAt order = None"
  shows "\<exists>s'. runSaga (wired net deps) order s = (Inr CANCELLED, s') \<and>
    (\<exists>late. \<forall>f. live_at f (arrive_late late (cs_world s')) (orderId order) \<longleftrightarrow> f = f0) \<and>
    ((\<exists>e. fate = Response_lost e) \<longrightarrow> (\<forall>f. live_at f (cs_world s') (orderId order) \<longleftrightarrow> f = f0))"
proof -
  let ?oid = "orderId order"
  let ?lost = "\<lambda>st. st = Fwd f0 \<and> (\<exists>e. fate = Request_lost e)"
  let ?A = "{st. st = Comp (COMPENSATION_OF f0) \<or> ?lost st}"
  let ?V = "\<lambda>st. st \<noteq> Fwd f0"
  let ?E = "requested order (\<lambda>st. \<not> ?lost st)"
  have url: "step_url deps st = step_url deps (Fwd f0) \<longleftrightarrow> st = Fwd f0" for st
    unfolding step_url_def using url_inj by blast
  have dec: "decided (still_open order ?A) ?E ?V (wired net deps) order False st" if "st \<noteq> Comp (COMPENSATION_OF f0)" for st
    by (rule shop_decided [where fate = "if st = Fwd f0 then fate else Delivered"])
       (use assms that in \<open>auto simp: assertNoInjectedFailure_def step_body_def url split: net_fate.splits\<close>)
  have open_: "still_open order ?A (cs_world s)" using assms(6) fresh by (simp add: still_open_def)
  have none: "step_status_of (cs_db s) ?oid st \<noteq> Some S_SUCCEEDED" for st
    by (rule nothing_recorded [OF assms(5) fresh])
  have verdict: "verdict_of ?V order (cs_db s) = CANCELLED"
    using assms(8) none by (auto simp: verdict_of_def saga_verdict_def list_all_FORWARD on_record_def)
  have undo: "decided (still_open order ?A) ?E ?V (wired net deps) order False (Comp (COMPENSATION_OF f))"
    if "wants_undo ?V order (cs_db s) f" for f
    by (rule dec) (use that none COMPENSATION_OF_inj in \<open>auto simp: wants_undo_def on_record_def\<close>)
  obtain s' where run: "runSaga (wired net deps) order s = (Inr CANCELLED, s')"
    and K: "still_open order ?A (cs_world s')" and E: "\<And>f. ?E (Fwd f) (cs_world s')"
      "\<And>f. f \<noteq> f0 \<Longrightarrow> ?E (Comp (COMPENSATION_OF f)) (cs_world s')"
    using saga_decision [where deps = "wired net deps" and order = order and K = "still_open order ?A" and E = ?E
        and V = ?V and s = s, OF _ agreed_ok [OF assms(5)] open_ dec undo] assms(1,8) none verdict
    by (auto simp: decision_defs)
  have A': "agreed s'" by (rule agreed_runSaga [OF assms(5) run])
  have D: "done_at (cs_world s') ?oid (Fwd f) \<or> ?lost (Fwd f)" "f \<noteq> f0 \<Longrightarrow> done_at (cs_world s') ?oid (Comp (COMPENSATION_OF f))"
      "\<not> done_at (cs_world s') ?oid (Comp (COMPENSATION_OF f0))" for f
    using E(1) [of f] E(2) [of f] K by (auto simp: requested_def still_open_def)
  have late: "\<exists>late. \<forall>f. live_at f (arrive_late late (cs_world s')) ?oid \<longleftrightarrow> f = f0"
  proof (cases "\<exists>e. fate = Request_lost e")
    case True
    have "shop_calm (step_body order False) (cs_world s')" using K by (simp add: still_open_def)
    moreover have "(Fwd f0, step_body order False) \<in> set (sh_sent (cs_world s'))" using E(1) by (simp add: requested_def)
    ultimately show ?thesis
      using lost_arrives [OF agreed_order [OF A'], of "step_body order False" f0] assms(9,10) D(2,3)
      by (simp add: step_body_def)
  next
    case False
    with D live_at_exact [OF agreed_exact [OF A']] show ?thesis by (intro exI [of _ "[]"]) auto
  qed
  have "live_at f (cs_world s') ?oid \<longleftrightarrow> f = f0" if "fate = Response_lost e" for f e
    using D live_at_exact [OF agreed_exact [OF A']] that by auto
  with run late show ?thesis by blast
qed

section \<open>A sample order\<close>

definition empty_shop :: "inventory_row list \<Rightarrow> shop" where
  "empty_shop st = \<lparr>sh_orders = empty_service [],
     sh_stock = empty_service \<lparr>stock = st, reservations = []\<rparr>,
     sh_payments = empty_service [], sh_shipments = empty_service [], sh_requests = 0, sh_sent = []\<rparr>"

lemma nothing_live [simp]:
  "\<not> order_open [] oid" "\<not> reserved \<lparr>stock = st, reservations = []\<rparr> oid" "\<not> charged [] oid" "\<not> shipment_live [] oid"
  by (simp_all add: order_open_def reserved_def charged_def shipment_live_def)

lemma empty_shop_exact [simp]: "all_exact (empty_shop st)"
  by (simp add: all_exact_def empty_shop_def orders.exact_empty inventory.exact_empty
    payments.exact_empty shipments.exact_empty)

lemma empty_shop_sent [simp]: "\<not> sent_at (empty_shop st) oid step"
  by (simp add: sent_at_def empty_shop_def)

lemma empty_shop_done [simp]: "\<not> done_at (empty_shop st) oid step"
  by (cases "forward_of step") (simp_all add: done_at_def empty_shop_def)

lemma opening_agreed:
  assumes "db_ok (cs_db s)" and "saga_steps (cs_db s) = []" and "cs_world s = empty_shop st"
  shows "agreed s"
  using assms by (simp add: agreed_def consistent_def agrees_def step_status_of_def in_order_def)

definition plain_arrival :: arrival where
  "plain_arrival = \<lparr>ar_env = no_faults, ar_wait = 0, ar_disturbances = []\<rparr>"

definition quiet_network :: "(string \<Rightarrow> net_fate) \<Rightarrow> network" where
  "quiet_network fate = \<lparr>net_fate = (\<lambda>_. fate), net_delay = (\<lambda>_. 5),
     net_arrival = (\<lambda>_. plain_arrival), net_late = (\<lambda>_. [])\<rparr>"

definition shop_deps :: "shop SagaDeps" where
  "shop_deps = \<lparr>instanceId = ''me'', serviceUrls = (\<lambda>s. case s of order_svc \<Rightarrow> ''http://o''
       | inventory_svc \<Rightarrow> ''http://i'' | payment_svc \<Rightarrow> ''http://p'' | shipping_svc \<Rightarrow> ''http://s''),
     step_timeoutMs = 3000, step_maxAttempts = 3, step_baseDelayMs = 100, step_maxDelayMs = 2000,
     lease_ttlMs = 60000, lease_heartbeatMs = 20000,
     dep_fetch = (\<lambda>_ _ _ _ w. (Inl syntax_error, 0, w)), dep_fate = (\<lambda>_. Stmt_ok),
     dep_jitter = (\<lambda>_. 0), dep_schedule = rev\<rparr>"

definition new_order :: ClaimedOrder where
  "new_order = \<lparr>orderId = ''A'', sku = ''S1'', qty = 2, amount = ''10.00'', failAt = None,
     compFailAt = None, claimed_id = 1, claimed_status = IN_PROGRESS\<rparr>"

definition new_coord :: "shop coord" where
  "new_coord = \<lparr>cs_db = \<lparr>saga_orders = [(pending_row 1 ''A'')\<lparr>o_status := IN_PROGRESS,
       o_lease_owner := Some ''me'', o_lease_expires_at := Some 60000\<rparr>],
     saga_steps = [], saga_step_attempts = []\<rparr>, cs_now = 0,
     cs_world = empty_shop [\<lparr>inv_sku = ''S1'', available_qty = 10, reserved_qty = 0\<rparr>],
     cs_tick = 0, cs_heartbeat = None\<rparr>"

lemma new_coord_agreed: "agreed new_coord"
  by (rule opening_agreed) (simp_all add: new_coord_def db_ok_def unique_key_def)

lemma new_coord_world [simp]:
  "cs_world new_coord = empty_shop [\<lparr>inv_sku = ''S1'', available_qty = 10, reserved_qty = 0\<rparr>]"
  by (simp add: new_coord_def)

lemma empty_not_in_progress [simp]: "\<not> in_progress (records (empty_service d)) k"
  by (simp add: empty_service_def in_progress_def)

lemma sample_calm: "shop_calm (step_body new_order False) (cs_world new_coord)"
  by (simp add: shop_calm_def empty_shop_def orders.calm_def inventory.calm_def payments.calm_def
    shipments.calm_def step_body_def new_order_def create_order_def reserve_inventory_def
    charge_payment_def create_shipment_def sql_insert_def sql_update_def Let_def)

lemma sample_quiet [simp]: "database_works shop_deps" "faultless (quiet_network fate)"
    "net_fate (quiet_network fate) = (\<lambda>_. fate)"
  by (simp_all add: database_works_def shop_deps_def faultless_def quiet_network_def plain_arrival_def)

lemma new_order_simps [simp]: "claimed_status new_order \<noteq> COMPENSATING" "orderId new_order = ''A''"
    "failAt new_order = None" "compFailAt new_order = None"
  by (simp_all add: new_order_def)

definition lost_charge :: "string \<Rightarrow> net_fate" where
  "lost_charge url = (if url = step_url shop_deps (Fwd CHARGE_PAYMENT) then Response_lost syntax_error else Delivered)"

lemma sample_placed:
  "\<exists>s'. runSaga (wired (quiet_network (\<lambda>_. Delivered)) shop_deps) new_order new_coord = (Inr PLACED, s') \<and>
    (\<forall>f. live_at f (cs_world s') ''A'')"
  using healthy_run [OF _ _ _ new_coord_agreed sample_calm, of shop_deps "quiet_network (\<lambda>_. Delivered)"] by simp

lemma sample_cancelled:
  "\<exists>s'. runSaga (wired (quiet_network lost_charge) shop_deps) new_order new_coord = (Inr CANCELLED, s') \<and>
    (\<forall>f. live_at f (cs_world s') ''A'' \<longleftrightarrow> f = CHARGE_PAYMENT)"
  using unanswered_run [OF _ _ _ _ new_coord_agreed sample_calm, of shop_deps "quiet_network lost_charge" CHARGE_PAYMENT
      "Response_lost syntax_error"]
  by (auto simp: lost_charge_def [abs_def])

section \<open>The guarantees\<close>

text \<open>
  C4. A healthy system places its orders. When the coordinator's database works, the network
  delivers, no service meets a fault (whatever its Redis holds or loses) and each service can
  carry out its step of the order (there is stock, nothing was done for the order before), the
  claimed order ends PLACED: the order is open, the stock reserved, the payment charged and the
  shipment created.
\<close>

theorem healthy_order_placed:
  assumes "database_works deps" and "faultless net" and "net_fate net = (\<lambda>_ _. Delivered)"
    and "agreed s" and "shop_calm (step_body order False) (cs_world s)"
    and fresh: "\<And>st. \<not> done_at (cs_world s) (orderId order) st"
    and "claimed_status order \<noteq> COMPENSATING" and "orderId order \<noteq> []" and "failAt order = None"
  shows "\<exists>s'. runSaga (wired net deps) order s = (Inr PLACED, s') \<and>
    order_open (domain (sh_orders (cs_world s'))) (orderId order) \<and>
    reserved (domain (sh_stock (cs_world s'))) (orderId order) \<and>
    charged (domain (sh_payments (cs_world s'))) (orderId order) \<and>
    shipment_live (domain (sh_shipments (cs_world s'))) (orderId order)"
proof -
  obtain s' where run: "runSaga (wired net deps) order s = (Inr PLACED, s')"
    and live: "\<And>f. live_at f (cs_world s') (orderId order)"
    using healthy_run [OF assms] by blast
  from live [of CREATE_ORDER] live [of RESERVE_INVENTORY] live [of CHARGE_PAYMENT] live [of CREATE_SHIPMENT] run
  show ?thesis by (auto simp: live_at_def)
qed

theorem healthy_order_placed_witness:
  "\<exists>s'. runSaga (wired (quiet_network (\<lambda>_. Delivered)) shop_deps) new_order new_coord = (Inr PLACED, s') \<and>
     charged (domain (sh_payments (cs_world s'))) ''A''"
  using healthy_order_placed [OF _ _ _ new_coord_agreed sample_calm, of shop_deps "quiet_network (\<lambda>_. Delivered)"] by auto





text \<open>
  C6. CANCELLED undoes what is recorded, whatever goes wrong, in a saga or a manual retry: the
  effect of every forward step recorded SUCCEEDED is gone and no request that still arrives brings it
  back; every other step has its undo marked SKIPPED, so that nothing about the order is live but
  effects of steps that were carried out without the coordinator learning of it.
\<close>

theorem cancelled_order_is_undone:
  assumes "agreed s" and "runSaga (wired net deps) order s = (Inr CANCELLED, s') \<or>
      retryCompensation (wired net deps) order s = (Inr CANCELLED, s')"
  shows "agreed s' \<and>
    (if step_status_of (cs_db s') (orderId order) (Fwd f) = Some S_SUCCEEDED
     then \<not> live_at f (arrive_late late (cs_world s')) (orderId order)
     else step_status_of (cs_db s') (orderId order) (Comp (COMPENSATION_OF f)) = Some S_SKIPPED)"
proof -
  have A: "agreed s'" using assms agreed_runSaga agreed_retry by blast
  from shop.cancelled [OF assms(1) [unfolded agreed_def] assms(2), of f] A late_undone [OF agreed_order [OF A]]
  show ?thesis by (auto split: if_splits)
qed

theorem cancelled_order_is_undone_witness:
  "\<exists>s'. runSaga (wired (quiet_network lost_charge) shop_deps) new_order new_coord = (Inr CANCELLED, s') \<and>
     step_status_of (cs_db s') ''A'' (Comp REFUND_PAYMENT) = Some S_SKIPPED \<and> charged (domain (sh_payments (cs_world s'))) ''A''"
proof -
  obtain s' where run: "runSaga (wired (quiet_network lost_charge) shop_deps) new_order new_coord = (Inr CANCELLED, s')"
    and live: "live_at CHARGE_PAYMENT (cs_world s') ''A''" using sample_cancelled by blast
  from cancelled_order_is_undone [OF new_coord_agreed disjI1 [OF run], of CHARGE_PAYMENT "[]"] live run
  show ?thesis by (auto simp: live_at_def split: if_splits)
qed

section \<open>All runs\<close>

text \<open>
  Everything that may happen to the system, by any number of coordinators one run after the other:
  sagas and manual retries over any network, any moment in the middle of their parallel branches (where
  the process may die), late arrivals of their requests, and any change of the coordinator's tables that
  leaves the step rows alone (ingestion, claims, the granting of retries, shipping), at any time.
\<close>

inductive shop_reach :: "shop coord \<Rightarrow> bool" where
  start: "db_ok (cs_db s) \<Longrightarrow> saga_steps (cs_db s) = [] \<Longrightarrow> cs_world s = empty_shop st \<Longrightarrow> shop_reach s"
| saga: "shop_reach s \<Longrightarrow> runSaga (wired net deps) order s = (r, s') \<Longrightarrow> shop_reach s'"
| retry: "shop_reach s \<Longrightarrow> retryCompensation (wired net deps) order s = (r, s') \<Longrightarrow> shop_reach s'"
| midway: "shop_reach s \<Longrightarrow>
    \<forall>st \<in> set steps. \<exists>f. st = Fwd f \<or>
      st = Comp (COMPENSATION_OF f) \<and> step_status_of (cs_db s) (orderId order) (Fwd f) = Some S_SUCCEEDED \<Longrightarrow>
    world_run (wired net deps) order frc steps zs (cs_db s) (cs_world s) = ((bs, cs_db s'), cs_world s') \<Longrightarrow>
    shop_reach s'"
| late: "shop_reach s \<Longrightarrow> shop_reach (s\<lparr>cs_world := arrive_late late (cs_world s)\<rparr>)"
| elsewhere: "shop_reach s \<Longrightarrow> db_ok (cs_db s') \<Longrightarrow> saga_steps (cs_db s') = saga_steps (cs_db s) \<Longrightarrow>
    cs_world s' = cs_world s \<Longrightarrow> shop_reach s'"

lemma shop_reach_agreed: "shop_reach s \<Longrightarrow> agreed s"
proof (induction rule: shop_reach.induct)
  case (start s st)
  then show ?case by (rule opening_agreed)
next
  case (saga s net deps order r s')
  from agreed_runSaga [OF saga.IH saga.hyps(2)] show ?case .
next
  case (retry s net deps order r s')
  from agreed_retry [OF retry.IH retry.hyps(2)] show ?case .
next
  case (midway s steps order net deps frc zs bs s')
  from shop.midway_true [OF midway.IH [unfolded agreed_def] midway.hyps(2,3)] show ?case by (simp add: agreed_def)
next
  case (late s late)
  from agreed_late [OF late.IH] show ?case .
next
  case (elsewhere s s')
  then show ?case by (simp add: agreed_def consistent_def agrees_def step_status_of_def)
qed

text \<open>
  The step rows never lie. In every reachable state, the middle of the parallel branches included,
  whatever failed on the way: a forward step
  recorded SUCCEEDED was carried out at its service and is live until it is undone there; an undo
  recorded SUCCEEDED means the effect is gone; and an undo was only ever carried out for a step that
  had been.
\<close>

theorem step_rows_never_lie:
  assumes "shop_reach s"
  shows "(step_status_of (cs_db s) oid (Fwd f) = Some S_SUCCEEDED \<longrightarrow>
      live_at f (cs_world s) oid \<or> done_at (cs_world s) oid (Comp (COMPENSATION_OF f))) \<and>
    (step_status_of (cs_db s) oid (Comp (COMPENSATION_OF f)) = Some S_SUCCEEDED \<longrightarrow>
      \<not> live_at f (cs_world s) oid) \<and>
    (done_at (cs_world s) oid (Comp (COMPENSATION_OF f)) \<longrightarrow> done_at (cs_world s) oid (Fwd f))"
proof -
  note A = shop_reach_agreed [OF assms]
  have "done_at (cs_world s) oid (Comp (COMPENSATION_OF f)) \<longrightarrow> done_at (cs_world s) oid (Fwd f)"
    using agreed_exact [OF A]
    by (cases f) (simp_all add: all_exact_def done_at_def orders.exact_def inventory.exact_def
      payments.exact_def shipments.exact_def)
  with agreed_rows [OF A] live_at_exact [OF agreed_exact [OF A]] show ?thesis by blast
qed

theorem step_rows_never_lie_witness:
  "\<exists>s. shop_reach s \<and> live_at CHARGE_PAYMENT (cs_world s) ''A'' \<and>
     step_status_of (cs_db s) ''A'' (Comp REFUND_PAYMENT) \<noteq> Some S_SUCCEEDED"
proof -
  obtain s' where run: "runSaga (wired (quiet_network lost_charge) shop_deps) new_order new_coord = (Inr CANCELLED, s')"
    and live: "live_at CHARGE_PAYMENT (cs_world s') ''A''" using sample_cancelled by blast
  have "shop_reach new_coord"
    by (rule shop_reach.start) (simp_all add: new_coord_def db_ok_def unique_key_def)
  then have "shop_reach s'" by (rule shop_reach.saga [OF _ run])
  from step_rows_never_lie [OF this, of "''A''" CHARGE_PAYMENT] this live show ?thesis by auto
qed

end
