(* ===== verification/SagaUnfold.thy ===== *)
theory SagaUnfold
  imports SagaSteps SagaVerdict
begin

text \<open>
  Every run of theory Saga is a run of the machine of theory SagaSteps: runSaga and retryCompensation,
  with whatever their environment does, unfold into events that lead to the same answer, the same tables
  and the same world. So what holds for all interleavings of the machine holds for them, and what they
  are proved to do, some interleaving does.
\<close>

section \<open>The events of one branch\<close>

inductive branch_goes ::
  "'w SagaDeps \<Rightarrow> ClaimedOrder \<Rightarrow> bool \<Rightarrow> step \<Rightarrow> 'w branches_world \<Rightarrow> 'w branches_world \<Rightarrow> bool"
  for deps order frc st where
  idle: "branch_goes deps order frc st x x"
| event: "branch_goes deps order frc st x ((bs, db), w) \<Longrightarrow> \<not> is_settled (bs st) \<Longrightarrow>
    frc \<longrightarrow> (\<forall>t. z \<noteq> Beat t) \<Longrightarrow> branch_goes deps order frc st x (world_event deps order frc z ((bs, db), w))"

lemma branch_goes_trans:
  "branch_goes deps order frc st y z \<Longrightarrow> branch_goes deps order frc st x y \<Longrightarrow> branch_goes deps order frc st x z"
  by (induction rule: branch_goes.induct) (auto intro: branch_goes.event)

lemma branch_goes_one:
  "\<not> is_settled (bs st) \<Longrightarrow> frc \<longrightarrow> (\<forall>t. z \<noteq> Beat t) \<Longrightarrow>
    branch_goes deps order frc st ((bs, db), w) (world_event deps order frc z ((bs, db), w))"
  by (rule branch_goes.event [OF branch_goes.idle])

text \<open>\<open>follows\<close>: the coordinator went from \<open>s\<close> to \<open>s'\<close> while the branch of \<open>st\<close> went from \<open>b\<close> to \<open>b'\<close>.\<close>

definition follows ::
  "'w SagaDeps \<Rightarrow> ClaimedOrder \<Rightarrow> bool \<Rightarrow> step \<Rightarrow> branch \<Rightarrow> 'w coord \<Rightarrow> branch \<Rightarrow> 'w coord \<Rightarrow> bool" where
  "follows deps order frc st b s b' s' \<longleftrightarrow> cs_heartbeat s' = cs_heartbeat s \<and>
     (\<forall>bs. bs st = b \<longrightarrow> branch_goes deps order frc st ((bs, cs_db s), cs_world s)
        ((bs(st := b'), cs_db s'), cs_world s'))"

definition heart_ok :: "ClaimedOrder \<Rightarrow> bool \<Rightarrow> 'w coord \<Rightarrow> bool" where
  "heart_ok order frc s \<longleftrightarrow>
     (case cs_heartbeat s of None \<Rightarrow> True | Some (oid, t) \<Rightarrow> oid = orderId order \<and> \<not> frc)"

lemma follows_refl [simp]: "follows deps order frc st b s b s"
proof -
  have "bs(st := bs st) = bs" for bs :: "step \<Rightarrow> branch" by simp
  then show ?thesis by (auto simp: follows_def intro: branch_goes.idle)
qed

lemma follows_trans:
  assumes "follows deps order frc st b s b' s'" and "follows deps order frc st b' s' b'' s''"
  shows "follows deps order frc st b s b'' s''"
  unfolding follows_def
proof (intro conjI allI impI)
  show "cs_heartbeat s'' = cs_heartbeat s" using assms by (simp add: follows_def)
  fix bs :: "step \<Rightarrow> branch" assume b: "bs st = b"
  have "branch_goes deps order frc st ((bs(st := b'), cs_db s'), cs_world s') ((bs(st := b', st := b''), cs_db s''), cs_world s'')"
    using assms(2) unfolding follows_def by (metis fun_upd_same)
  then have "branch_goes deps order frc st ((bs(st := b'), cs_db s'), cs_world s') ((bs(st := b''), cs_db s''), cs_world s'')"
    by simp
  moreover have "branch_goes deps order frc st ((bs, cs_db s), cs_world s) ((bs(st := b'), cs_db s'), cs_world s')"
    using assms(1) b by (simp add: follows_def)
  ultimately show "branch_goes deps order frc st ((bs, cs_db s), cs_world s) ((bs(st := b''), cs_db s''), cs_world s'')"
    by (rule branch_goes_trans)
qed

lemma follows_heart: "follows deps order frc st b s b' s' \<Longrightarrow> heart_ok order frc s \<Longrightarrow> heart_ok order frc s'"
  by (simp add: follows_def heart_ok_def)

text \<open>An event that is no fetch.\<close>

lemma follows_turn:
  assumes "\<not> is_settled b" and "\<And>n. b \<noteq> Calling n" and "cs_db s' = branch_write deps order st m b (cs_db s)"
    and "cs_world s' = cs_world s" and "cs_heartbeat s' = cs_heartbeat s"
  shows "follows deps order frc st b s (branch_next deps st m b) s'"
  unfolding follows_def
proof (intro conjI allI impI)
  fix bs :: "step \<Rightarrow> branch" assume b: "bs st = b"
  have "\<nexists>n. b = Calling n" using assms(2) by blast
  with assms b have "world_event deps order frc (Turn st m) ((bs, cs_db s), cs_world s) =
      ((bs(st := branch_next deps st m b), cs_db s'), cs_world s')" by (cases b) auto
  with branch_goes_one [of bs st frc "Turn st m" deps order "cs_db s" "cs_world s"] assms(1) b
  show "branch_goes deps order frc st ((bs, cs_db s), cs_world s)
      ((bs(st := branch_next deps st m b), cs_db s'), cs_world s')" by simp
qed (use assms in simp)

lemma follows_beats:
  assumes "\<not> is_settled b" and "heart_ok order frc s"
  shows "follows deps order frc st b s b (elapse deps d s)"
  unfolding follows_def
proof (intro conjI allI impI)
  show "cs_heartbeat (elapse deps d s) = cs_heartbeat s" by (simp add: elapse_def split: option.splits)
  fix bs :: "step \<Rightarrow> branch" assume b: "bs st = b"
  have beats: "branch_goes deps order frc st ((bs, db), w) ((bs, fold (beat deps (orderId order)) ts db), w)"
    if "\<not> frc" for ts db w
  proof (induction ts arbitrary: db)
    case (Cons t ts)
    from branch_goes_one [of bs st frc "Beat t" deps order db w] assms(1) b that
    have "branch_goes deps order frc st ((bs, db), w) ((bs, beat deps (orderId order) t db), w)" by simp
    with Cons [of "beat deps (orderId order) t db"] show ?case by (auto intro: branch_goes_trans)
  qed (simp add: branch_goes.idle)
  have same: "bs(st := b) = bs" using b by auto
  show "branch_goes deps order frc st ((bs, cs_db s), cs_world s)
      ((bs(st := b), cs_db (elapse deps d s)), cs_world (elapse deps d s))"
    using assms(2) beats by (auto simp: same elapse_def heart_ok_def intro: branch_goes.idle split: option.splits)
qed

text \<open>A statement of a branch, and how it ends.\<close>

definition moment_of :: "'w SagaDeps \<Rightarrow> 'w coord \<Rightarrow> int \<Rightarrow> moment" where
  "moment_of deps s t0 = \<lparr>mo_fate = dep_fate deps (cs_tick s), mo_answer = Inl (Primitive ''undefined''),
     mo_now = cs_now s, mo_startedAt = t0, mo_finishedAt = cs_now s\<rparr>"

lemma query_fate:
  "query deps q s =
    (case dep_fate deps (cs_tick s) of Stmt_ok \<Rightarrow> Inr (fst (q (cs_now s) (cs_db s)))
       | Stmt_fails e \<Rightarrow> Inl e | Stmt_ack_lost e \<Rightarrow> Inl e,
     s\<lparr>cs_tick := Suc (cs_tick s),
       cs_db := (if takes_effect (dep_fate deps (cs_tick s)) then snd (q (cs_now s) (cs_db s)) else cs_db s)\<rparr>)"
  by (cases "dep_fate deps (cs_tick s)") (simp_all add: query_def takes_effect_def Let_def split: prod.splits)

lemma query_ends:
  "query deps q s = (r, s') \<Longrightarrow>
    statement_ends (dep_fate deps (cs_tick s)) ok failed = (case r of Inr _ \<Rightarrow> ok | Inl e \<Rightarrow> failed e)"
  by (auto simp: query_fate statement_ends_def split: stmt_fate.splits)

lemma follows_statement:
  assumes "query deps q s = (r, s')" and "branch_stmt deps (moment_of deps s t0) b = Some x"
    and "\<And>db. snd (q (cs_now s) db) = issue (orderId order) st (cs_now s) x db"
  shows "follows deps order frc st b s (branch_next deps st (moment_of deps s t0) b) s'"
proof (rule follows_turn)
  show "\<not> is_settled b" and "b \<noteq> Calling n" for n using assms(2) by (cases b; simp)+
  show "cs_db s' = branch_write deps order st (moment_of deps s t0) b (cs_db s)"
    using assms by (auto simp: query_fate branch_write_def issued_def moment_of_def)
qed (use assms(1) in \<open>auto simp: query_fate\<close>)

section \<open>One step\<close>

lemma store_failed_follows:
  assumes "store_failed deps order st n err s = (r, s')"
  shows "follows deps order frc st (Storing_failed n err) s (Settled r) s'"
proof -
  let ?q = "markStepResult (orderId order) st S_FAILED n (Some (error_message err))"
  obtain p s1 where q: "query deps ?q s = (p, s1)" by fastforce
  have "follows deps order frc st (Storing_failed n err) s
      (branch_next deps st (moment_of deps s 0) (Storing_failed n err)) s1"
    by (rule follows_statement [OF q], simp, simp)
  moreover have "branch_next deps st (moment_of deps s 0) (Storing_failed n err) = Settled r" "s1 = s'"
    using assms q by (auto simp: moment_of_def query_ends [OF q] store_failed_def act_defs split: sum.splits)
  ultimately show ?thesis by simp
qed

lemma store_ok_follows:
  assumes "store_ok deps order st n s = (r, s')"
  shows "follows deps order frc st (Storing_ok n) s (Settled r) s'"
proof -
  let ?q = "markStepResult (orderId order) st S_SUCCEEDED n None"
  obtain p s1 where q: "query deps ?q s = (p, s1)" by fastforce
  have F: "follows deps order frc st (Storing_ok n) s (branch_next deps st (moment_of deps s 0) (Storing_ok n)) s1"
    by (rule follows_statement [OF q], simp, simp)
  show ?thesis
  proof (cases p)
    case (Inl e)
    with assms q have "store_failed deps order st n e s1 = (r, s')" by (simp add: store_ok_def)
    from follows_trans [OF _ store_failed_follows [OF this]] F Inl show ?thesis
      by (simp add: moment_of_def query_ends [OF q])
  next
    case (Inr u)
    with assms q F show ?thesis by (auto simp: moment_of_def query_ends [OF q] store_ok_def)
  qed
qed

definition after_branch :: "js_value + 'b \<Rightarrow> nat \<Rightarrow> branch" where
  "after_branch r n = (case r of Inr _ \<Rightarrow> Storing_ok n | Inl e \<Rightarrow> Storing_failed n e)"

lemma after_call_follows:
  assumes "after_call deps order st (p, (s, n)) = (r, s')"
  shows "follows deps order frc st (after_branch p n) s (Settled r) s'"
  using assms store_ok_follows store_failed_follows
  by (cases p) (auto simp: after_call_def after_branch_def)

text \<open>The fetch.\<close>

lemma attempt_post:
  "call_attempt (coord_fetch deps) (step_call_options deps order st frc) (s, n) =
    (case post_step deps order st frc (cs_world s) of
       (p, d, w) \<Rightarrow> (call_result deps st p, (elapse deps d (s\<lparr>cs_world := w\<rparr>), n)))"
proof -
  obtain p d w where p: "post_step deps order st frc (cs_world s) = (p, d, w)" by (rule prod_cases3)
  have f: "coord_fetch deps (step_url deps st) (idempotencyKey (orderId order) st) (step_body order frc)
      (step_timeoutMs deps) (s, n) = (p, (elapse deps d (s\<lparr>cs_world := w\<rparr>), n))"
    using p by (simp add: coord_fetch_def post_step_def)
  have u: "trim_slash (co_baseUrl (step_call_options deps order st frc)) @ stepPath st = step_url deps st"
    by (simp add: step_call_options_def step_url_def)
  have o: "orderId (step_body order frc) = orderId order"
    "co_timeoutMs (step_call_options deps order st frc) = step_timeoutMs deps"
    "co_step (step_call_options deps order st frc) = st"
    by (simp_all add: step_call_options_def step_body_def)
  show ?thesis by (cases p) (simp_all add: call_attempt_def Let_def call_result_def f u o p)
qed

lemma call_follows:
  assumes "call_attempt (coord_fetch deps) (step_call_options deps order st frc) (s, k) = (r, (s', k'))"
    and "heart_ok order frc s"
  shows "follows deps order frc st (Calling n) s
    (case r of Inr _ \<Rightarrow> Audit_ok n | Inl err \<Rightarrow> Audit_bad n err) s' \<and> k' = k"
proof -
  obtain p d w where p: "post_step deps order st frc (cs_world s) = (p, d, w)" by (rule prod_cases3)
  let ?s1 = "s\<lparr>cs_world := w\<rparr>" and ?b = "case r of Inr _ \<Rightarrow> Audit_ok n | Inl err \<Rightarrow> Audit_bad n err"
  from assms(1) have r: "r = call_result deps st p" "s' = elapse deps d ?s1" "k' = k" by (simp_all add: attempt_post p)
  have "follows deps order frc st (Calling n) s ?b ?s1"
    unfolding follows_def
  proof (intro conjI allI impI)
    fix bs :: "step \<Rightarrow> branch" assume b: "bs st = Calling n"
    let ?m = "\<lparr>mo_fate = Stmt_ok, mo_answer = p, mo_now = 0, mo_startedAt = 0, mo_finishedAt = 0\<rparr>"
    have "world_event deps order frc (Turn st ?m) ((bs, cs_db s), cs_world s) = ((bs(st := ?b), cs_db s), w)"
      using b p r(1) by (simp add: branch_write_def issued_def)
    with branch_goes_one [of bs st frc "Turn st ?m" deps order "cs_db s" "cs_world s"] b
    show "branch_goes deps order frc st ((bs, cs_db s), cs_world s) ((bs(st := ?b), cs_db ?s1), cs_world ?s1)" by simp
  qed simp
  moreover have "follows deps order frc st ?b ?s1 ?b (elapse deps d ?s1)"
    by (rule follows_beats) (use assms(2) in \<open>auto simp: heart_ok_def split: sum.splits\<close>)
  ultimately show ?thesis using r by (auto intro: follows_trans)
qed

text \<open>The audit of an attempt, and the backoff.\<close>

lemma audit_follows:
  assumes "on_attempt deps order st info (s, k) = (r, (s', k'))"
    and "branch_stmt deps (moment_of deps s t0) b = Some (Audit info)"
  shows "follows deps order frc st b s (branch_next deps st (moment_of deps s t0) b) s'" and "k' = ai_attempt info"
    and "statement_ends (mo_fate (moment_of deps s t0)) ok failed = (case r of Inr _ \<Rightarrow> ok | Inl e \<Rightarrow> failed e)"
proof -
  have q: "query deps (recordAttempt (orderId order) st info) s = (r, s')" and k: "k' = ai_attempt info"
    using assms(1) by (auto simp: on_attempt_def on_fst_def split: prod.splits)
  show "follows deps order frc st b s (branch_next deps st (moment_of deps s t0) b) s'"
    by (rule follows_statement [OF q assms(2)]) simp
  show "statement_ends (mo_fate (moment_of deps s t0)) ok failed = (case r of Inr _ \<Rightarrow> ok | Inl e \<Rightarrow> failed e)"
    by (simp add: moment_of_def query_ends [OF q])
  show "k' = ai_attempt info" by (rule k)
qed

definition turn_state :: "('s, 'a) turn \<Rightarrow> 's" where
  "turn_state t = (case t of Returned a s \<Rightarrow> s | Thrown e s \<Rightarrow> s | Again e s \<Rightarrow> s)"

definition turn_branch :: "'w SagaDeps \<Rightarrow> nat \<Rightarrow> ('s, 'a) turn \<Rightarrow> branch" where
  "turn_branch deps n t = (case t of Returned a s \<Rightarrow> Storing_ok n | Thrown e s \<Rightarrow> Storing_failed n e
     | Again e s \<Rightarrow> next_attempt deps (Suc n) e)"

abbreviation step_retry :: "'w SagaDeps \<Rightarrow> ClaimedOrder \<Rightarrow> bool \<Rightarrow> step \<Rightarrow> ('w coord \<times> nat) retry_options" where
  "step_retry deps order frc st \<equiv> call_retry_options (coord_runtime deps) (step_call_options deps order st frc)"

lemma step_retry_simps [simp]:
  "clock (step_retry deps order frc st) (s, k) = cs_now s"
  "maxAttempts (step_retry deps order frc st) = step_maxAttempts deps"
  "isRetryable (step_retry deps order frc st) = isRetryableError"
  "onAttempt (step_retry deps order frc st) = on_attempt deps order st"
  "random (step_retry deps order frc st) (s, k) = (dep_jitter deps (cs_tick s), (s\<lparr>cs_tick := Suc (cs_tick s)\<rparr>, k))"
  "sleep (step_retry deps order frc st) d (s, k) = (elapse deps (nat d) s, k)"
  by (simp_all add: call_retry_options_def coord_runtime_def step_call_options_def)

lemma backoff_follows:
  assumes "heart_ok order frc s"
  shows "follows deps order frc st (Backing_off n err) s (next_attempt deps (Suc n) err)
    (elapse deps d (s\<lparr>cs_tick := Suc (cs_tick s)\<rparr>))"
proof -
  let ?s1 = "s\<lparr>cs_tick := Suc (cs_tick s)\<rparr>"
  have "follows deps order frc st (Backing_off n err) ?s1 (Backing_off n err) (elapse deps d ?s1)"
    by (rule follows_beats) (use assms in \<open>simp_all add: heart_ok_def\<close>)
  then have 1: "follows deps order frc st (Backing_off n err) s (Backing_off n err) (elapse deps d ?s1)"
    by (simp add: follows_def)
  have "follows deps order frc st (Backing_off n err) (elapse deps d ?s1)
      (branch_next deps st (moment_of deps s 0) (Backing_off n err)) (elapse deps d ?s1)"
    by (rule follows_turn) (simp_all add: branch_write_def issued_def)
  with 1 show ?thesis by (auto intro: follows_trans)
qed

lemma catch_follows:
  assumes "retry_catch (step_retry deps order frc st) n t0 err (s, k) = t" and "heart_ok order frc s"
  shows "follows deps order frc st (Audit_bad n err) s (turn_branch deps n t) (fst (turn_state t)) \<and> snd (turn_state t) = n"
proof -
  let ?info = "\<lparr>ai_attempt = n, ai_startedAt = t0, ai_finishedAt = cs_now s, ai_durationMs = cs_now s - t0,
    ai_outcome = attempt_failure err, ai_error = Some err, ai_willRetry = will_retry deps n err\<rparr>"
  obtain r s1 k1 where a: "on_attempt deps order st ?info (s, k) = (r, (s1, k1))" by (metis prod.collapse)
  have stmt: "branch_stmt deps (moment_of deps s t0) (Audit_bad n err) = Some (Audit ?info)"
    by (simp add: branch_info_def moment_of_def)
  note A = audit_follows [OF a stmt]
  have k1: "k1 = n" using A(2) by simp
  have F: "follows deps order frc st (Audit_bad n err) s (case r of Inr _ \<Rightarrow>
      if will_retry deps n err then Backing_off n err else Storing_failed n err | Inl e \<Rightarrow> Storing_failed n e) s1"
    using A(1) by (simp add: A(3))
  have t: "t = (case r of Inl e \<Rightarrow> Thrown e (s1, n)
      | Inr _ \<Rightarrow> if \<not> will_retry deps n err then Thrown err (s1, n)
        else Again err (elapse deps (nat (backoffDelay n (baseDelayMs (step_retry deps order frc st))
          (maxDelayMs (step_retry deps order frc st)) (dep_jitter deps (cs_tick s1)))) (s1\<lparr>cs_tick := Suc (cs_tick s1)\<rparr>), n))"
    using assms(1) a k1 by (auto simp: retry_catch_def will_retry_def Let_def split: sum.splits)
  show ?thesis
  proof (cases "\<exists>u. r = Inr u \<and> will_retry deps n err")
    case True
    have "heart_ok order frc s1" by (rule follows_heart [OF F assms(2)])
    from follows_trans [OF _ backoff_follows [OF this]] F True show ?thesis
      by (auto simp: t turn_branch_def turn_state_def)
  next
    case False
    with F show ?thesis by (cases r) (auto simp: t turn_branch_def turn_state_def)
  qed
qed

lemma turn_follows:
  assumes "retry_turn (\<lambda>_. call_attempt (coord_fetch deps) (step_call_options deps order st frc))
      (step_retry deps order frc st) n (s, k) = t" and "heart_ok order frc s"
  shows "follows deps order frc st (Calling n) s (turn_branch deps n t) (fst (turn_state t)) \<and> snd (turn_state t) = n"
proof -
  obtain r s1 k1 where c: "call_attempt (coord_fetch deps) (step_call_options deps order st frc) (s, k) = (r, (s1, k1))"
    by (metis prod.collapse)
  from call_follows [OF c assms(2), of n]
  have F: "follows deps order frc st (Calling n) s (case r of Inr _ \<Rightarrow> Audit_ok n | Inl err \<Rightarrow> Audit_bad n err) s1" by simp
  have h: "heart_ok order frc s1" by (rule follows_heart [OF F assms(2)])
  show ?thesis
  proof (cases r)
    case (Inl err)
    with assms(1) c have "retry_catch (step_retry deps order frc st) n (cs_now s) err (s1, k1) = t"
      by (simp add: retry_turn_def)
    from catch_follows [OF this h] F Inl show ?thesis by (auto intro: follows_trans)
  next
    case (Inr b)
    let ?info = "\<lparr>ai_attempt = n, ai_startedAt = cs_now s, ai_finishedAt = cs_now s1, ai_durationMs = cs_now s1 - cs_now s,
      ai_outcome = A_SUCCEEDED, ai_error = None, ai_willRetry = False\<rparr>"
    obtain r2 s2 k2 where a: "on_attempt deps order st ?info (s1, k1) = (r2, (s2, k2))" by (metis prod.collapse)
    have stmt: "branch_stmt deps (moment_of deps s1 (cs_now s)) (Audit_ok n) = Some (Audit ?info)"
      by (simp add: branch_info_def moment_of_def)
    note A = audit_follows [OF a stmt]
    have k2: "k2 = n" using A(2) by simp
    have "follows deps order frc st (Audit_ok n) s1 (case r2 of Inr _ \<Rightarrow> Storing_ok n | Inl e \<Rightarrow> Audit_bad n e) s2"
      using A(1) by (simp add: A(3))
    with F Inr have G: "follows deps order frc st (Calling n) s (case r2 of Inr _ \<Rightarrow> Storing_ok n | Inl e \<Rightarrow> Audit_bad n e) s2"
      by (auto intro: follows_trans)
    show ?thesis
    proof (cases r2)
      case Inl2: (Inl e)
      with assms(1) c Inr a k2 have "retry_catch (step_retry deps order frc st) n (cs_now s) e (s2, n) = t"
        by (simp add: retry_turn_def Let_def)
      from catch_follows [OF this follows_heart [OF G assms(2)]] G Inl2 show ?thesis by (auto intro: follows_trans)
    next
      case (Inr u)
      with assms(1) c \<open>r = Inr b\<close> a k2 G show ?thesis
        by (auto simp: retry_turn_def Let_def turn_branch_def turn_state_def)
    qed
  qed
qed

lemma loop_follows:
  assumes "call_loop deps order frc st n err (s, n - 1) = (r, (s', k'))" and "1 \<le> n" and "heart_ok order frc s"
  shows "follows deps order frc st (next_attempt deps n err) s (after_branch r k') s'"
  using assms
proof (induction "Suc (step_maxAttempts deps) - n" arbitrary: n err s)
  case 0
  then have "step_maxAttempts deps < n" by simp
  with 0 show ?case by (auto simp: call_loop_def retry_loop_past next_attempt_def after_branch_def)
next
  case (Suc j)
  then have le: "n \<le> step_maxAttempts deps" by simp
  define t where "t = retry_turn (\<lambda>_. call_attempt (coord_fetch deps) (step_call_options deps order st frc))
    (step_retry deps order frc st) n (s, n - 1)"
  obtain s1 k1 where x: "turn_state t = (s1, k1)" by fastforce
  from turn_follows [OF t_def [symmetric] Suc.prems(3)] x
  have F: "follows deps order frc st (next_attempt deps n err) s (turn_branch deps n t) s1" and k: "k1 = n"
    by (auto simp: next_attempt_def le)
  have loop: "call_loop deps order frc st n err (s, n - 1) =
      (case t of Returned a y \<Rightarrow> (Inr a, y) | Thrown e y \<Rightarrow> (Inl e, y) | Again e y \<Rightarrow> call_loop deps order frc st (Suc n) e y)"
    using le by (simp add: call_loop_def retry_loop_turn t_def split: turn.split)
  show ?case
  proof (cases t)
    case (Again e y)
    have again: "call_loop deps order frc st (Suc n) e (s1, Suc n - 1) = (r, (s', k'))"
      using loop Again x k Suc.prems(1) by (simp add: turn_state_def)
    have "follows deps order frc st (next_attempt deps (Suc n) e) s1 (after_branch r k') s'"
      by (rule Suc.hyps(1) [OF _ again]) (use Suc.hyps(2) follows_heart [OF F Suc.prems(3)] in auto)
    with F Again show ?thesis by (auto simp: turn_branch_def intro: follows_trans)
  qed (use F loop x k Suc.prems(1) in \<open>auto simp: turn_branch_def turn_state_def after_branch_def\<close>)
qed

lemma executeStep_follows:
  assumes "executeStep deps order st frc s = (r, s')" and "heart_ok order frc s"
  shows "follows deps order frc st Marking s (Settled r) s'"
proof -
  let ?q = "markStepRunning (orderId order) st"
  obtain p s1 where q: "query deps ?q s = (p, s1)" by fastforce
  have "follows deps order frc st Marking s (branch_next deps st (moment_of deps s 0) Marking) s1"
    by (rule follows_statement [OF q], simp, simp)
  then have F: "follows deps order frc st Marking s (case p of Inr _ \<Rightarrow> next_attempt deps 1 (Primitive ''undefined'')
      | Inl e \<Rightarrow> Storing_failed 0 e) s1"
    by (simp add: moment_of_def query_ends [OF q] del: One_nat_def)
  show ?thesis
  proof (cases p)
    case (Inl e)
    with assms(1) q have "store_failed deps order st 0 e s1 = (r, s')" by (simp add: executeStep_eq)
    from follows_trans [OF _ store_failed_follows [OF this]] F Inl show ?thesis by simp
  next
    case (Inr u)
    obtain p2 s2 k2 where c: "call_loop deps order frc st 1 (Primitive ''undefined'') (s1, 0) = (p2, (s2, k2))"
      by (metis prod.collapse)
    with loop_follows [of deps order frc st 1 _ s1 p2 s2 k2] follows_heart [OF F assms(2)]
    have "follows deps order frc st (next_attempt deps 1 (Primitive ''undefined'')) s1 (after_branch p2 k2) s2" by simp
    moreover have "after_call deps order st (p2, (s2, k2)) = (r, s')" using assms(1) q Inr c by (simp add: executeStep_eq)
    ultimately show ?thesis using F Inr after_call_follows by (fastforce intro: follows_trans)
  qed
qed

section \<open>One saga\<close>

text \<open>\<open>unfolds\<close>: events lead from one await of a saga to another as the coordinator goes from \<open>s\<close> to \<open>s'\<close>.\<close>

definition unfolds ::
  "'w SagaDeps \<Rightarrow> ClaimedOrder \<Rightarrow> bool \<Rightarrow> saga_pc \<Rightarrow> 'w coord \<Rightarrow> saga_pc \<Rightarrow> 'w coord \<Rightarrow> bool" where
  "unfolds deps order frc pc s pc' s' \<longleftrightarrow> cs_heartbeat s' = cs_heartbeat s \<and>
     (\<exists>zs. saga_run deps order frc zs ((pc, cs_db s), cs_world s) = ((pc', cs_db s'), cs_world s'))"

lemma saga_run_append: "saga_run deps order frc (zs @ zs') x = saga_run deps order frc zs' (saga_run deps order frc zs x)"
  by (simp add: saga_run_def)

lemma unfolds_refl [simp]: "unfolds deps order frc pc s pc s"
  by (auto simp: unfolds_def saga_run_def intro: exI [of _ "[]"])

lemma unfolds_trans:
  "unfolds deps order frc pc s pc' s' \<Longrightarrow> unfolds deps order frc pc' s' pc'' s'' \<Longrightarrow> unfolds deps order frc pc s pc'' s''"
  unfolding unfolds_def by (metis saga_run_append)

lemma unfolds_heart: "unfolds deps order frc pc s pc' s' \<Longrightarrow> heart_ok order frc s \<Longrightarrow> heart_ok order frc s'"
  by (simp add: unfolds_def heart_ok_def)

lemma unfolds_one:
  assumes "saga_event deps order frc z ((pc, cs_db s), cs_world s) = ((pc', cs_db s'), cs_world s')"
    and "cs_heartbeat s' = cs_heartbeat s"
  shows "unfolds deps order frc pc s pc' s'"
  using assms by (auto simp: unfolds_def saga_run_def intro!: exI [of _ "[z]"])

definition after_query :: "('a \<Rightarrow> saga_pc) \<Rightarrow> js_value + 'a \<Rightarrow> saga_pc" where
  "after_query k r = (case r of Inl e \<Rightarrow> Over (Inl e) | Inr a \<Rightarrow> k a)"

lemma query_unfolds:
  assumes "query deps q s = (r, s')"
    and "\<And>m. saga_turn deps order frc (Fwd CREATE_ORDER) m ((pc, cs_db s), cs_world s) = (awaited m q k (cs_db s), cs_world s)"
  shows "unfolds deps order frc pc s (after_query k r) s'"
proof (rule unfolds_one)
  show "saga_event deps order frc (Turn (Fwd CREATE_ORDER) (moment_of deps s 0)) ((pc, cs_db s), cs_world s) =
      ((after_query k r, cs_db s'), cs_world s')"
    using assms by (auto simp: query_fate awaited_def moment_of_def after_query_def takes_effect_def split: stmt_fate.splits)
qed (use assms(1) in \<open>auto simp: query_fate\<close>)

text \<open>The branches, within the await of \<open>Promise.allSettled\<close>.\<close>

definition holds_branches :: "'w SagaDeps \<Rightarrow> ClaimedOrder \<Rightarrow> bool \<Rightarrow> step list \<Rightarrow> ((step \<Rightarrow> branch) \<Rightarrow> saga_pc) \<Rightarrow> bool" where
  "holds_branches deps order frc steps on \<longleftrightarrow> (\<forall>bs db w st m. \<not> all_settled steps bs \<longrightarrow>
     saga_turn deps order frc st m ((on bs, db), w) =
       (case world_event deps order frc (Turn st m) ((bs, db), w) of ((bs', db'), w') \<Rightarrow> ((on bs', db'), w')))"

lemma branch_goes_unfolds:
  assumes "branch_goes deps order frc st x y" and on: "holds_branches deps order frc steps on" and st: "st \<in> set steps"
  shows "\<exists>zs. saga_run deps order frc zs (case x of ((bs, db), w) \<Rightarrow> ((on bs, db), w)) = (case y of ((bs, db), w) \<Rightarrow> ((on bs, db), w))"
  using assms(1)
proof (induction rule: branch_goes.induct)
  case (idle x)
  show ?case by (intro exI [of _ "[]"]) (simp add: saga_run_def)
next
  case (event x bs db w z)
  then obtain zs where zs: "saga_run deps order frc zs (case x of ((bs, db), w) \<Rightarrow> ((on bs, db), w)) = ((on bs, db), w)" by auto
  have "\<not> all_settled steps bs" using event.hyps(2) st by (auto simp: all_settled_def list_all_iff)
  with on event.hyps(3) have "saga_event deps order frc z ((on bs, db), w) =
      (case world_event deps order frc z ((bs, db), w) of ((bs, db), w) \<Rightarrow> ((on bs, db), w))"
    by (cases z) (simp_all add: holds_branches_def)
  with zs show ?case by (intro exI [of _ "zs @ [z]"]) (simp add: saga_run_def)
qed

lemma run_branches_unfolds:
  assumes "run_branches deps order frc sts s = (rs, s')" and "holds_branches deps order frc steps on"
    and "distinct sts" and "set sts \<subseteq> set steps" and "\<forall>st \<in> set sts. bs st = Marking" and "heart_ok order frc s"
  shows "\<exists>bs'. unfolds deps order frc (on bs) s (on bs') s' \<and> map fst rs = sts \<and> (\<forall>(st, r) \<in> set rs. bs' st = Settled r) \<and>
    (\<forall>st. st \<notin> set sts \<longrightarrow> bs' st = bs st)"
  using assms(1,3-6)
proof (induction sts arbitrary: s rs bs)
  case Nil
  then show ?case by (intro exI [of _ bs]) simp
next
  case (Cons st sts)
  obtain r s1 where e: "executeStep deps order st frc s = (r, s1)" by fastforce
  obtain rs1 where b: "run_branches deps order frc sts s1 = (rs1, s')" and rs: "rs = (st, r) # rs1"
    using Cons.prems(1) e by (auto split: prod.splits)
  note F = executeStep_follows [OF e Cons.prems(5)]
  have st: "bs st = Marking" "st \<in> set steps" using Cons.prems by auto
  have U: "unfolds deps order frc (on bs) s (on (bs(st := Settled r))) s1"
    using branch_goes_unfolds [OF _ assms(2) st(2)] F st(1) by (fastforce simp: follows_def unfolds_def)
  have marked: "\<forall>x \<in> set sts. (bs(st := Settled r)) x = Marking" using Cons.prems(2,4) by auto
  obtain bs' where B: "unfolds deps order frc (on (bs(st := Settled r))) s1 (on bs') s'" "map fst rs1 = sts"
    "\<forall>(st, r) \<in> set rs1. bs' st = Settled r" "\<forall>x. x \<notin> set sts \<longrightarrow> bs' x = (bs(st := Settled r)) x"
    using Cons.IH [where bs = "bs(st := Settled r)", OF b _ _ marked follows_heart [OF F Cons.prems(5)]] Cons.prems(2,3)
    by (metis distinct.simps(2) insert_subset list.simps(15))
  have "bs' st = Settled r" using B(4) Cons.prems(2) by simp
  with B unfolds_trans [OF U B(1)] rs show ?case by (intro exI [of _ bs']) auto
qed

lemma concurrently_unfolds:
  assumes "runConcurrently deps order steps frc s = (r, s')" and "holds_branches deps order frc steps on"
    and "distinct steps" and "heart_ok order frc s"
  shows "\<exists>bs. unfolds deps order frc (on (par_start steps)) s (on bs) s' \<and> all_settled steps bs \<and>
    r = Inr (map (\<lambda>st. branch_outcome st (bs st)) steps)"
proof -
  obtain rs where b: "run_branches deps order frc (arrange deps steps) s = (rs, s')" and r: "r = Inr (map (settled rs) steps)"
    using assms(1) by (auto simp: runConcurrently_def split: prod.splits)
  obtain bs where U: "unfolds deps order frc (on (par_start steps)) s (on bs) s'" "map fst rs = arrange deps steps"
    "\<forall>(st, r) \<in> set rs. bs st = Settled r"
    using run_branches_unfolds [OF b assms(2), of "par_start steps"] assms(3,4) by (auto simp: par_start_def)
  have "settled rs st = branch_outcome st (bs st)" if "st \<in> set steps" for st
    by (rule settled_outcomes [OF _ U(2,3)]) (use that assms(3) in simp_all)
  moreover have "is_settled (bs st)" if "st \<in> set steps" for st
  proof -
    from that U(2) have "st \<in> fst ` set rs" by (metis arrange_set set_map)
    with U(3) show ?thesis by auto
  qed
  ultimately show ?thesis using U(1) r by (auto simp: all_settled_def list_all_iff)
qed

text \<open>The undo phase.\<close>

lemma skipped_unfolds:
  assumes "mark_skipped deps (orderId order) needed cs s = (r, s')"
  shows "unfolds deps order frc (mark_next needed cs) s (after_query (\<lambda>_. undo_start needed) r) s'"
  using assms
proof (induction cs arbitrary: s)
  case Nil
  then show ?case by (auto simp: ret_act_def after_query_def)
next
  case (Cons c cs)
  show ?case
  proof (cases "List.member needed c")
    case True
    with Cons show ?thesis by simp
  next
    case False
    obtain p s1 where q: "query deps (markStepResult (orderId order) (Comp c) S_SKIPPED 0 None) s = (p, s1)" by fastforce
    have "unfolds deps order frc (Undo_marks needed c cs) s (after_query (\<lambda>_. mark_next needed cs) p) s1"
      by (rule query_unfolds [OF q]) simp
    with Cons False q show ?thesis
      by (cases p) (auto simp: act_defs after_query_def intro: unfolds_trans)
  qed
qed

lemma undo_holds: "holds_branches deps order frc (map Comp toRun) (Undo toRun)"
  by (simp add: holds_branches_def branches_go_def)

lemma forward_holds: "holds_branches deps order False steps (Forward steps)"
  by (simp add: holds_branches_def branches_go_def)

lemma undo_unfolds:
  assumes "undo_needed deps order frc (map Comp (filter (List.member needed) COMPENSATION_STEPS)) s = (r, s')"
    and "heart_ok order frc s"
  shows "unfolds deps order frc (undo_start needed) s (after_query Set_final r) s'"
proof (cases "filter (List.member needed) COMPENSATION_STEPS = []")
  case True
  with assms(1) show ?thesis by (auto simp: undo_start_def undo_needed_def ret_act_def after_query_def Let_def)
next
  case False
  let ?toRun = "filter (List.member needed) COMPENSATION_STEPS"
  obtain p s1 where c: "runConcurrently deps order (map Comp ?toRun) frc s = (p, s1)" by fastforce
  have "distinct (map Comp ?toRun)" using distinct_COMPENSATION_STEPS by (simp add: distinct_map inj_on_def)
  from concurrently_unfolds [OF c undo_holds this assms(2)] obtain bs where
    U: "unfolds deps order frc (Undo ?toRun (par_start (map Comp ?toRun))) s (Undo ?toRun bs) s1"
      "all_settled (map Comp ?toRun) bs" "p = Inr (map (\<lambda>st. branch_outcome st (bs st)) (map Comp ?toRun))" by blast
  have "unfolds deps order frc (Undo ?toRun bs) s1 (undo_over ?toRun bs) s1"
    by (rule unfolds_one [where z = "Turn (Fwd CREATE_ORDER) (moment_of deps s 0)"]) (use U(2) in \<open>simp_all add: branches_go_def\<close>)
  from unfolds_trans [OF U(1) this] False assms(1) c U(3) show ?thesis
    by (auto simp: undo_start_def undo_needed_def bind_act_def ret_act_def after_query_def Let_def undo_over_def failed_branches_def)
qed

lemma compensate_unfolds:
  assumes "compensate deps order frc s = (r, s')" and "heart_ok order frc s"
  shows "unfolds deps order frc Read_succeeded s (after_query Set_final r) s'"
proof -
  let ?oid = "orderId order"
  obtain p1 s1 where q1: "query deps (getSucceededForwardSteps ?oid) s = (p1, s1)" by fastforce
  have U1: "unfolds deps order frc Read_succeeded s (after_query (\<lambda>x. Init_undo (map COMPENSATION_OF x)) p1) s1"
    by (rule query_unfolds [OF q1]) simp
  show ?thesis
  proof (cases p1)
    case (Inl e)
    with assms(1) q1 U1 show ?thesis by (auto simp: compensate_eq bind_act_def after_query_def)
  next
    case (Inr succeeded)
    let ?needed = "map COMPENSATION_OF succeeded"
    obtain p2 s2 where q2: "query deps (initSteps ?oid (map Comp COMPENSATION_STEPS)) s1 = (p2, s2)" by fastforce
    obtain p3 s3 where q3: "mark_skipped deps ?oid ?needed COMPENSATION_STEPS s2 = (p3, s3)" by fastforce
    have U2: "unfolds deps order frc (Init_undo ?needed) s1 (after_query (\<lambda>_. mark_next ?needed COMPENSATION_STEPS) p2) s2"
      by (rule query_unfolds [OF q2]) simp
    note U12 = unfolds_trans [OF U1 [unfolded Inr after_query_def sum.case] U2]
    note U3 = skipped_unfolds [OF q3]
    have r: "(r, s') = (case p2 of Inl e \<Rightarrow> (Inl e, s2) | Inr _ \<Rightarrow> (case p3 of Inl e \<Rightarrow> (Inl e, s3)
        | Inr _ \<Rightarrow> undo_needed deps order frc (undo_steps succeeded) s3))"
      using assms(1) q1 q2 q3 Inr by (cases p2; cases p3) (simp_all add: compensate_eq act_defs prepare_undo_def)
    show ?thesis
    proof (cases "\<exists>u v. p2 = Inr u \<and> p3 = Inr v")
      case True
      then have U: "unfolds deps order frc Read_succeeded s (undo_start ?needed) s3"
        using unfolds_trans [OF U12 [unfolded after_query_def]] U3 by (auto simp: after_query_def)
      have "unfolds deps order frc (undo_start ?needed) s3 (after_query Set_final r) s'"
        by (rule undo_unfolds) (use True r unfolds_heart [OF U assms(2)] in \<open>auto simp: undo_steps_def\<close>)
      with U show ?thesis by (rule unfolds_trans)
    next
      case False
      with r U12 U3 show ?thesis
        by (cases p2; cases p3) (auto simp: after_query_def intro: unfolds_trans)
    qed
  qed
qed

lemma finish_unfolds:
  assumes "finish_order deps order status s = (r, s')"
  shows "unfolds deps order frc (Set_final status) s (Over r) s'"
proof -
  obtain p s1 where q: "query deps (setOrderStatus (orderId order) (instanceId deps) status True None) s = (p, s1)" by fastforce
  have "unfolds deps order frc (Set_final status) s (after_query (\<lambda>_. Over (Inr status)) p) s1"
    by (rule query_unfolds [OF q]) simp
  with assms q show ?thesis by (cases p) (simp_all add: finish_order_def act_defs after_query_def)
qed

lemma rollback_unfolds:
  assumes "bind_act (compensate deps order frc) (finish_order deps order) s = (r, s')" and "heart_ok order frc s"
  shows "unfolds deps order frc Read_succeeded s (Over r) s'"
proof -
  obtain p s1 where c: "compensate deps order frc s = (p, s1)" by fastforce
  from compensate_unfolds [OF c assms(2)] finish_unfolds [of deps order _ s1 r s' frc] assms(1) c show ?thesis
    by (cases p) (auto simp: bind_act_def after_query_def intro: unfolds_trans)
qed

text \<open>The status that was claimed decides where a saga starts, nothing else.\<close>

lemma claimed_status_irrelevant:
  "compensate deps (order\<lparr>claimed_status := x\<rparr>) frc = compensate deps order frc"
proof -
  have "step_call_options deps (order\<lparr>claimed_status := x\<rparr>) st frc = step_call_options deps order st frc" for st
    by (simp add: step_call_options_def step_body_def on_attempt_def [abs_def])
  then have "execute_try deps (order\<lparr>claimed_status := x\<rparr>) st frc = execute_try deps order st frc" for st
    by (simp add: execute_try_def)
  then have "executeStep deps (order\<lparr>claimed_status := x\<rparr>) st frc s = executeStep deps order st frc s" for st s
    by (simp add: executeStep_def split: prod.split sum.split)
  then have "run_branches deps (order\<lparr>claimed_status := x\<rparr>) frc sts s = run_branches deps order frc sts s" for sts s
    by (induction sts arbitrary: s) simp_all
  then have "runConcurrently deps (order\<lparr>claimed_status := x\<rparr>) steps frc = runConcurrently deps order steps frc" for steps
    by (simp add: runConcurrently_def fun_eq_iff)
  then have "undo_needed deps (order\<lparr>claimed_status := x\<rparr>) frc toRun = undo_needed deps order frc toRun" for toRun
    by (cases "toRun = []") (simp_all add: undo_needed_def)
  then show ?thesis by (simp add: compensate_eq)
qed

lemma over_unfolds:
  assumes "forward_phase deps order s = (Inr (map (\<lambda>st. branch_outcome st (bs st)) pending), s3)"
    and "heart_ok order False s3" and "saga_body deps order s = (r, s')" and "claimed_status order \<noteq> COMPENSATING"
  shows "unfolds deps order False (forward_over pending bs) s3 (Over r) s'"
proof (cases "failed_branches pending bs = []")
  case True
  with assms finish_unfolds [of deps order PLACED s3 r s' False] show ?thesis
    by (simp add: saga_body_def bind_act_def forward_over_def failed_branches_def Let_def)
next
  case False
  let ?error = "first_error_text (failed_branches pending bs)"
  obtain p s4 where q: "query deps (setOrderStatus (orderId order) (instanceId deps) COMPENSATING False (Some ?error)) s3 = (p, s4)"
    by fastforce
  have U: "unfolds deps order False (Set_compensating ?error) s3 (after_query (\<lambda>_. Read_succeeded) p) s4"
    by (rule query_unfolds [OF q]) simp
  have rest: "(r, s') = (case p of Inl e \<Rightarrow> (Inl e, s4)
      | Inr _ \<Rightarrow> bind_act (compensate deps order False) (finish_order deps order) s4)"
    using assms(1,3,4) False q
    by (cases p) (simp_all add: saga_body_def bind_act_def failed_branches_def Let_def claimed_status_irrelevant)
  show ?thesis
  proof (cases p)
    case (Inl e)
    with rest U False show ?thesis by (simp add: forward_over_def after_query_def)
  next
    case (Inr held)
    with rest rollback_unfolds [of deps order False s4 r s'] unfolds_heart [OF U assms(2)] U False show ?thesis
      by (auto simp: forward_over_def after_query_def intro: unfolds_trans)
  qed
qed

lemma forward_unfolds:
  assumes "forward_phase deps order s = (r, s')" and "heart_ok order False s"
  shows "case r of Inl e \<Rightarrow> unfolds deps order False Init_forward s (Over (Inl e)) s'
    | Inr outs \<Rightarrow> \<exists>pending bs. outs = map (\<lambda>st. branch_outcome st (bs st)) pending \<and>
        unfolds deps order False Init_forward s (forward_over pending bs) s'"
proof -
  let ?oid = "orderId order"
  obtain p1 s1 where q1: "query deps (initSteps ?oid (map Fwd FORWARD_STEPS)) s = (p1, s1)" by fastforce
  obtain p2 s2 where q2: "query deps (getStepStatuses ?oid) s1 = (p2, s2)" by fastforce
  have U1: "unfolds deps order False Init_forward s (after_query (\<lambda>_. Read_statuses) p1) s1"
    by (rule query_unfolds [OF q1]) simp
  have U2: "unfolds deps order False Read_statuses s1 (after_query forward_start p2) s2"
    by (rule query_unfolds [OF q2]) simp
  show ?thesis
  proof (cases "\<exists>u x. p1 = Inr u \<and> p2 = Inr x")
    case False
    with assms(1) q1 q2 U1 U2 show ?thesis
      by (cases p1; cases p2) (auto simp: forward_phase_def act_defs after_query_def intro: unfolds_trans)
  next
    case True
    then obtain u existing where p: "p1 = Inr u" "p2 = Inr existing" by blast
    let ?pending = "filter (\<lambda>st. existing st \<noteq> Some S_SUCCEEDED) (map Fwd FORWARD_STEPS)"
    have c: "runConcurrently deps order ?pending False s2 = (r, s')"
      using assms(1) q1 q2 p by (simp add: forward_phase_def act_defs)
    have U12: "unfolds deps order False Init_forward s (Forward ?pending (par_start ?pending)) s2"
      using unfolds_trans [OF U1 [unfolded p after_query_def sum.case] U2] by (simp add: p after_query_def forward_start_def Let_def)
    have "distinct ?pending" using distinct_FORWARD_STEPS by (simp add: distinct_map inj_on_def)
    from concurrently_unfolds [OF c forward_holds this unfolds_heart [OF U12 assms(2)]] obtain bs where
      U3: "unfolds deps order False (Forward ?pending (par_start ?pending)) s2 (Forward ?pending bs) s'"
        "all_settled ?pending bs" "r = Inr (map (\<lambda>st. branch_outcome st (bs st)) ?pending)" by blast
    have "unfolds deps order False (Forward ?pending bs) s' (forward_over ?pending bs) s'"
      by (rule unfolds_one [where z = "Turn (Fwd CREATE_ORDER) (moment_of deps s 0)"]) (use U3(2) in \<open>simp_all add: branches_go_def\<close>)
    from unfolds_trans [OF unfolds_trans [OF U12 U3(1)] this] U3(3) show ?thesis by auto
  qed
qed

lemma body_unfolds:
  assumes "saga_body deps order s = (r, s')" and "heart_ok order False s"
  shows "unfolds deps order False (saga_start order) s (Over r) s'"
proof (cases "claimed_status order = COMPENSATING")
  case True
  with assms rollback_unfolds show ?thesis by (simp add: saga_body_def saga_start_def)
next
  case False
  obtain p s1 where f: "forward_phase deps order s = (p, s1)" by fastforce
  show ?thesis
  proof (cases p)
    case (Inl e)
    with assms(1) f False forward_unfolds [OF f assms(2)] show ?thesis
      by (auto simp: saga_body_def saga_start_def bind_act_def)
  next
    case (Inr outs)
    with forward_unfolds [OF f assms(2)] obtain pending bs where
      outs: "outs = map (\<lambda>st. branch_outcome st (bs st)) pending"
      and U: "unfolds deps order False Init_forward s (forward_over pending bs) s1" by auto
    from over_unfolds [OF f [unfolded Inr outs] unfolds_heart [OF U assms(2)] assms(1) False] U False
    show ?thesis by (auto simp: saga_start_def intro: unfolds_trans)
  qed
qed

section \<open>Every run is a run of the machine\<close>

lemma saga_machine:
  assumes "runSaga deps order s = (r, s')"
  shows "\<exists>zs. saga_run deps order False zs ((saga_start order, cs_db s), cs_world s) = ((Over r, cs_db s'), cs_world s')"
proof -
  obtain s1 where b: "saga_body deps order (startHeartbeat (orderId order) s) = (r, s1)" and s': "s' = stopHeartbeat s1"
    using assms by (auto simp: runSaga_def split: prod.splits)
  have "heart_ok order False (startHeartbeat (orderId order) s)" by (simp add: heart_ok_def startHeartbeat_def)
  from body_unfolds [OF b this] show ?thesis by (auto simp: unfolds_def s' startHeartbeat_def stopHeartbeat_def)
qed

lemma retry_unfolds:
  assumes "retryCompensation deps order s = (r, s')" and "cs_heartbeat s = None"
  shows "\<exists>zs. saga_run deps order True zs ((Read_succeeded, cs_db s), cs_world s) = ((Over r, cs_db s'), cs_world s')"
  using rollback_unfolds [of deps order True s r s'] assms
  by (auto simp: unfolds_def retryCompensation_def heart_ok_def)

text \<open>
  C14. A run of runSaga or of a manual retry, faults and heartbeats included, is a run of the machine of its awaits:
  some sequence of events leads from the start of the saga to its end with the result, the tables and the services
  the run ends with. What theory Fleet shows of every interleaving of these events therefore covers the runs of theory Saga.
\<close>

theorem runSaga_unfolds:
  assumes "if frc then retryCompensation deps order s = (r, s') \<and> cs_heartbeat s = None
    else runSaga deps order s = (r, s')"
  shows "\<exists>zs. saga_run deps order frc zs ((if frc then Read_succeeded else saga_start order, cs_db s), cs_world s) =
    ((Over r, cs_db s'), cs_world s')"
  using assms saga_machine [of deps order s r s'] retry_unfolds [of deps order s r s'] by (cases frc) simp_all

theorem runSaga_unfolds_witness:
  "\<exists>zs (s :: _ coord). saga_run (log_deps 200 (\<lambda>_. Stmt_ok)) sample_order False zs
      ((Read_succeeded, cs_db (sample_saga S_FAILED)), cs_world (sample_saga S_FAILED)) =
    ((Over (Inr CANCELLED), cs_db s), cs_world s)"
proof -
  let ?run = "runSaga (log_deps 200 (\<lambda>_. Stmt_ok)) sample_order (sample_saga S_FAILED)"
  have "fst ?run = Inr CANCELLED" by (simp add: saga_eval)
  then have "if False then retryCompensation (log_deps 200 (\<lambda>_. Stmt_ok)) sample_order (sample_saga S_FAILED) =
      (Inr CANCELLED, snd ?run) \<and> cs_heartbeat (sample_saga S_FAILED) = None else ?run = (Inr CANCELLED, snd ?run)"
    by (metis prod.collapse)
  note zs = runSaga_unfolds [OF this]
  have start: "(if False then Read_succeeded else saga_start sample_order) = Read_succeeded"
    by (simp add: saga_start_def sample_order_def)
  show ?thesis by (rule exE [OF zs [unfolded start]], intro exI, assumption)
qed

end
