(* ===== verification/Fleet.thy ===== *)
theory Fleet
  imports ShopRuns SagaUnfold SagaLife
begin

text \<open>
  Any number of coordinators over the same tables and the same four services, statement by statement:
  claims, sagas and manual retries that run between each other's awaits, on orders whose lease
  ran out while their old coordinator goes on, with faults of the database, the network and the services
  at any point, and coordinators that stop for good anywhere.
\<close>

section \<open>The system\<close>

record saga_proc =
  sp_deps :: "shop SagaDeps"
  sp_order :: ClaimedOrder
  sp_retry :: bool
  sp_pc :: saga_pc

record fleet =
  fl_db :: saga_db
  fl_world :: shop
  fl_procs :: "saga_proc list"

definition new_saga :: "shop SagaDeps \<Rightarrow> ClaimedOrder \<Rightarrow> saga_proc" where
  "new_saga deps order = \<lparr>sp_deps = deps, sp_order = order, sp_retry = False, sp_pc = saga_start order\<rparr>"

definition new_retry :: "shop SagaDeps \<Rightarrow> ClaimedOrder \<Rightarrow> saga_proc" where
  "new_retry deps order = \<lparr>sp_deps = deps, sp_order = order, sp_retry = True, sp_pc = Read_succeeded\<rparr>"

text \<open>One event of one of the runs.\<close>

definition proc_goes :: "network \<Rightarrow> nat \<Rightarrow> branch_event \<Rightarrow> fleet \<Rightarrow> fleet" where
  "proc_goes net i z x =
    (let p = fl_procs x ! i
     in case saga_event (wired net (sp_deps p)) (sp_order p) (sp_retry p) z ((sp_pc p, fl_db x), fl_world x) of
          ((pc, db), w) \<Rightarrow> \<lparr>fl_db = db, fl_world = w, fl_procs = (fl_procs x)[i := p\<lparr>sp_pc := pc\<rparr>]\<rparr>)"

text \<open>
  The claim transaction is atomic (theory Claim), its orders go to runSaga; a granted retry goes to
  retryCompensation. Orders are loaded and marked shipped, late requests arrive, at any time. \<open>may\<close>
  says which runs may go on: \<open>anyone\<close>, as in the code.
\<close>

definition anyone :: "fleet \<Rightarrow> nat \<Rightarrow> bool" where
  "anyone x i \<longleftrightarrow> True"

inductive fleet_step :: "(fleet \<Rightarrow> nat \<Rightarrow> bool) \<Rightarrow> fleet \<Rightarrow> fleet \<Rightarrow> bool" for may where
  loads: "fleet_step may x (x\<lparr>fl_db := (fl_db x)\<lparr>saga_orders := add_order v (saga_orders (fl_db x))\<rparr>\<rparr>)"
| ships: "fleet_step may x (x\<lparr>fl_db := snd (markShipped oid now (fl_db x))\<rparr>)"
| claims: "claim_batch_work now locked (instanceId deps) n (lease_ttlMs deps) (fl_db x) = (Inr orders, db') \<Longrightarrow>
    fleet_step may x (x\<lparr>fl_db := db', fl_procs := fl_procs x @ map (new_saga deps) orders\<rparr>)"
| retries: "claimForRetry oid (instanceId deps) ttl now (fl_db x) = (granted, db') \<Longrightarrow>
    fleet_step may x (x\<lparr>fl_db := db', fl_procs := fl_procs x @
      (case granted of None \<Rightarrow> [] | Some order \<Rightarrow> [new_retry deps order])\<rparr>)"
| goes: "i < length (fl_procs x) \<Longrightarrow> may x i \<Longrightarrow> fleet_step may x (proc_goes net i z x)"
| arrives: "fleet_step may x (x\<lparr>fl_world := arrive_late late (fl_world x)\<rparr>)"

inductive fleet_reach :: "(fleet \<Rightarrow> nat \<Rightarrow> bool) \<Rightarrow> fleet \<Rightarrow> bool" for may where
  begins: "fleet_reach may \<lparr>fl_db = empty_saga, fl_world = empty_shop st, fl_procs = []\<rparr>"
| step: "fleet_reach may x \<Longrightarrow> fleet_step may x y \<Longrightarrow> fleet_reach may y"

section \<open>What stays true\<close>

definition fleet_true :: "fleet \<Rightarrow> bool" where
  "fleet_true x \<longleftrightarrow> life_reach (fl_db x) \<and> consistent done_at in_order (fl_db x) (fl_world x) \<and>
     (\<forall>p \<in> set (fl_procs x). shop.going_true (sp_order p) (sp_pc p) (fl_world x))"

lemma start_true [simp]:
  "shop.going_true order (saga_start order) w" "sp_pc (new_saga deps order) = saga_start order"
  "sp_order (new_saga deps order) = order" "sp_pc (new_retry deps order) = Read_succeeded"
  "sp_order (new_retry deps order) = order"
  by (simp_all add: saga_start_def new_saga_def new_retry_def)

lemma orders_only_true:
  assumes "fleet_true x" and "life_step (fl_db x) db'" and "saga_steps db' = saga_steps (fl_db x)"
    and "\<forall>p \<in> set ps. sp_pc p = saga_start (sp_order p) \<or> sp_pc p = Read_succeeded"
  shows "fleet_true (x\<lparr>fl_db := db', fl_procs := fl_procs x @ ps\<rparr>)"
proof -
  have life: "life_reach db'" using assms(1,2) by (auto simp: fleet_true_def intro: life_reach.step)
  then have "db_ok db'"
    using life_reach_inv [OF life] assms(1,3) by (simp add: fleet_true_def consistent_def db_ok_def orders_inv_def)
  then have "consistent done_at in_order db' (fl_world x)"
    using assms(1,3) by (simp add: fleet_true_def consistent_def agrees_def step_status_of_def)
  with life assms(1,4) show ?thesis by (auto simp: fleet_true_def)
qed

text \<open>Each event of a saga is one statement of the life cycle, or leaves the orders alone.\<close>

lemma awaited_life:
  assumes "awaited m q k db = (pc', db')" and "\<And>t. life_step db (snd (q t db))"
  shows "life_step db db'"
  using assms life_step.step_rows [of db db] by (auto simp: awaited_def split: stmt_fate.splits)

lemma branch_orders: "saga_orders (branch_write deps order st m b db) = saga_orders db"
proof (cases "issued deps m b")
  case (Some x)
  then show ?thesis
    by (cases x) (simp_all add: branch_write_def markStepRunning_def recordAttempt_def markStepResult_def)
qed (simp add: branch_write_def)

lemma world_event_life:
  "world_event deps order frc (Turn st m) ((bs, db), w) = ((bs', db'), w') \<Longrightarrow> life_step db db'"
  by (cases "bs st") (auto simp: branch_orders intro: life_step.step_rows split: prod.splits)

lemma branches_go_life:
  assumes "branches_go deps order frc steps on going (Turn st m) ((bs, db), w) = ((pc', db'), w')"
  shows "life_step db db'"
proof (cases "all_settled steps bs")
  case True
  with assms life_step.step_rows [of db db] show ?thesis by (simp add: branches_go_def)
next
  case False
  obtain bs1 db1 w1 where e: "world_event deps order frc (Turn st m) ((bs, db), w) = ((bs1, db1), w1)" by (metis prod.collapse)
  with assms False have "db' = db1" unfolding branches_go_def by simp
  with world_event_life [OF e] show ?thesis by simp
qed

lemma saga_event_life:
  assumes "saga_event deps order frc z ((pc, db), w) = ((pc', db'), w')"
    and "\<And>status. pc = Set_final status \<Longrightarrow> status \<in> {PLACED, CANCELLED, NEEDS_ATTENTION}"
  shows "life_step db db'"
proof (cases z)
  case (Beat t)
  with assms(1) show ?thesis by (auto simp: beat_def intro: life_step.renews life_step.step_rows split: if_splits)
next
  case (Turn st m)
  note e = assms(1) [unfolded Turn saga_event.simps]
  have steps: "life_step db (snd (initSteps oid sts t db))" "life_step db (snd (markStepResult oid st' x n err t db))"
    for oid sts t st' x n err
    by (rule life_step.step_rows, simp add: initSteps_def markStepResult_def)+
  have reads: "life_step db (snd (getStepStatuses oid t db))" "life_step db (snd (getSucceededForwardSteps oid t db))" for oid t
    by (rule life_step.step_rows, simp add: getStepStatuses_def getSucceededForwardSteps_def)+
  have same: "life_step db db" by (rule life_step.step_rows) simp
  show ?thesis
  proof (cases pc)
    case (Forward steps bs)
    with e show ?thesis by (simp only: saga_turn.simps branches_go_life)
  next
    case (Undo toRun bs)
    with e show ?thesis by (simp only: saga_turn.simps branches_go_life)
  next
    case (Set_final status)
    with e assms(2) show ?thesis by (auto intro: awaited_life life_step.finishes)
  next
    case (Over r)
    with e same show ?thesis by simp
  qed (use e steps reads in \<open>auto intro: awaited_life life_step.compensating\<close>)
qed

lemma proc_goes_true:
  assumes x: "fleet_true x" and i: "i < length (fl_procs x)"
  shows "fleet_true (proc_goes net i z x)"
proof -
  let ?p = "fl_procs x ! i"
  obtain pc db w where e: "saga_event (wired net (sp_deps ?p)) (sp_order ?p) (sp_retry ?p) z
      ((sp_pc ?p, fl_db x), fl_world x) = ((pc, db), w)" by (metis prod.collapse)
  have c: "consistent done_at in_order (fl_db x) (fl_world x)" using x by (simp add: fleet_true_def)
  have t: "shop.going_true (sp_order ?p) (sp_pc ?p) (fl_world x)" using x i by (simp add: fleet_true_def)
  note E = shop.saga_event_true [OF c t e]
  have life: "life_step (fl_db x) db"
    by (rule saga_event_life [OF e]) (use t in auto)
  have "shop.going_true (sp_order q) (sp_pc q) w" if "q \<in> set ((fl_procs x)[i := ?p\<lparr>sp_pc := pc\<rparr>])" for q
  proof -
    from that set_update_subset_insert [of "fl_procs x" i "?p\<lparr>sp_pc := pc\<rparr>"]
    consider "q = ?p\<lparr>sp_pc := pc\<rparr>" | "q \<in> set (fl_procs x)" by blast
    then show ?thesis
    proof cases
      case 2
      then have "shop.going_true (sp_order q) (sp_pc q) (fl_world x)" using x by (simp add: fleet_true_def)
      then show ?thesis by (rule shop.going_lasts) (use E in blast)
    qed (use E in simp)
  qed
  with E life x show ?thesis
    by (auto simp: proc_goes_def Let_def e fleet_true_def intro: life_reach.step)
qed

lemma fleet_step_true: "fleet_step may x y \<Longrightarrow> fleet_true x \<Longrightarrow> fleet_true y"
proof (induction rule: fleet_step.induct)
  case (loads x v)
  from orders_only_true [OF loads life_step.loads, of v "[]"] show ?case by simp
next
  case (ships x oid now)
  from orders_only_true [OF ships life_step.ships, of oid now "[]"] show ?case
    by (simp add: markShipped_def case_prod_beta)
next
  case (claims now locked deps n x orders db')
  then have db': "db' = snd (claim_batch_work now locked (instanceId deps) n (lease_ttlMs deps) (fl_db x))" by simp
  show ?case
  proof (rule orders_only_true [OF claims.prems])
    show "life_step (fl_db x) db'" unfolding db' by (rule life_step.claims)
  qed (auto simp: db' claim_work_eq Let_def)
next
  case (retries oid deps ttl now x granted db')
  then have db': "db' = snd (claimForRetry oid (instanceId deps) ttl now (fl_db x))" by simp
  have ok: "db_ok (fl_db x)" using retries.prems by (simp add: fleet_true_def consistent_def)
  show ?case
  proof (rule orders_only_true [OF retries.prems])
    show "life_step (fl_db x) db'" unfolding db' by (rule life_step.retries)
  qed (auto simp: db' claimForRetry_eq [OF ok] split: option.splits)
next
  case (goes i x net z)
  then show ?case by (intro proc_goes_true)
next
  case (arrives x late)
  then have g: "in_order (fl_world x)" by (simp add: fleet_true_def consistent_def)
  note L = arrive_late_keeps [OF g, of late]
  have "shop.going_true (sp_order p) (sp_pc p) (arrive_late late (fl_world x))" if "p \<in> set (fl_procs x)" for p
    by (rule shop.going_lasts [where w = "fl_world x"]) (use arrives that L in \<open>auto simp: fleet_true_def\<close>)
  moreover have "agrees done_at (fl_db x) (arrive_late late (fl_world x))"
    using arrives L by (auto simp: fleet_true_def consistent_def agrees_def)
  ultimately show ?case using arrives L by (auto simp: fleet_true_def consistent_def)
qed

lemma fleet_reach_true: "fleet_reach may x \<Longrightarrow> fleet_true x"
proof (induction rule: fleet_reach.induct)
  case (begins st)
  have "db_ok empty_saga" by (simp add: db_ok_def empty_saga_def unique_key_def)
  then show ?case
    by (simp add: fleet_true_def consistent_def agrees_def in_order_def life_reach.start)
       (simp add: empty_saga_def step_status_of_def)
next
  case (step x y)
  then show ?case by (blast intro: fleet_step_true)
qed

text \<open>
  C7. The step rows never lie, whatever runs at the same time. In every state that any number of
  coordinators reach together, in the middle of any of their steps, whatever failed on the way and
  whoever lost a lease: a forward step recorded SUCCEEDED was carried out at its service and is live
  until it is undone there; an undo recorded SUCCEEDED means the effect is gone; an undo was only ever
  carried out for a step that had been; and a run that returned PLACED had all four steps carried out. The
  tables are those of the life cycle, so all its guarantees hold.
\<close>

theorem fleet_rows_never_lie:
  assumes "fleet_reach may x"
  shows "(step_status_of (fl_db x) oid (Fwd f) = Some S_SUCCEEDED \<longrightarrow>
      live_at f (fl_world x) oid \<or> done_at (fl_world x) oid (Comp (COMPENSATION_OF f))) \<and>
    (step_status_of (fl_db x) oid (Comp (COMPENSATION_OF f)) = Some S_SUCCEEDED \<longrightarrow> \<not> live_at f (fl_world x) oid) \<and>
    (done_at (fl_world x) oid (Comp (COMPENSATION_OF f)) \<longrightarrow> done_at (fl_world x) oid (Fwd f)) \<and>
    (p \<in> set (fl_procs x) \<and> sp_pc p = Over (Inr PLACED) \<longrightarrow>
      live_at f (fl_world x) (orderId (sp_order p)) \<or>
      done_at (fl_world x) (orderId (sp_order p)) (Comp (COMPENSATION_OF f))) \<and>
    life_reach (fl_db x)"
proof -
  have T: "fleet_true x" by (rule fleet_reach_true [OF assms])
  then have c: "in_order (fl_world x)" "agrees done_at (fl_db x) (fl_world x)"
    by (simp_all add: fleet_true_def consistent_def)
  have e: "all_exact (fl_world x)" using c(1) by (simp add: in_order_def)
  have "done_at (fl_world x) (orderId (sp_order p)) (Fwd f)"
    if "p \<in> set (fl_procs x)" "sp_pc p = Over (Inr PLACED)"
    using T that by (auto simp: fleet_true_def dest!: bspec [where x = p])
  moreover have "done_at (fl_world x) oid (Comp (COMPENSATION_OF f)) \<longrightarrow> done_at (fl_world x) oid (Fwd f)"
    using e by (cases f) (simp_all add: all_exact_def done_at_def orders.exact_def inventory.exact_def
      payments.exact_def shipments.exact_def)
  ultimately show ?thesis
    using T c(2) live_at_exact [OF e] by (auto simp: fleet_true_def agrees_def)
qed

section \<open>Runs of theory Saga in the fleet\<close>

inductive fleet_steps :: "(fleet \<Rightarrow> nat \<Rightarrow> bool) \<Rightarrow> fleet \<Rightarrow> fleet \<Rightarrow> bool" for may where
  none: "fleet_steps may x x"
| more: "fleet_steps may x y \<Longrightarrow> fleet_step may y z \<Longrightarrow> fleet_steps may x z"

lemma fleet_steps_reach: "fleet_steps may x y \<Longrightarrow> fleet_reach may x \<Longrightarrow> fleet_reach may y"
  by (induction rule: fleet_steps.induct) (auto intro: fleet_reach.step)

lemma fleet_steps_trans: "fleet_steps may y z \<Longrightarrow> fleet_steps may x y \<Longrightarrow> fleet_steps may x z"
  by (induction rule: fleet_steps.induct) (auto intro: fleet_steps.more)

text \<open>The state of the fleet when process \<open>i\<close> is at \<open>pc\<close> and tables and world are those of \<open>s\<close>.\<close>

definition fleet_at :: "fleet \<Rightarrow> nat \<Rightarrow> saga_pc \<Rightarrow> shop coord \<Rightarrow> fleet" where
  "fleet_at x i pc s = \<lparr>fl_db = cs_db s, fl_world = cs_world s,
     fl_procs = (fl_procs x)[i := (fl_procs x ! i)\<lparr>sp_pc := pc\<rparr>]\<rparr>"

text \<open>A run may go on whatever it has done itself.\<close>

definition may_go_on :: "(fleet \<Rightarrow> nat \<Rightarrow> bool) \<Rightarrow> fleet \<Rightarrow> nat \<Rightarrow> bool" where
  "may_go_on may x i \<longleftrightarrow> (\<forall>db w pc. may \<lparr>fl_db = db, fl_world = w,
     fl_procs = (fl_procs x)[i := (fl_procs x ! i)\<lparr>sp_pc := pc\<rparr>]\<rparr> i)"

lemma anyone_may [simp]: "may_go_on anyone x i"
  by (simp add: may_go_on_def anyone_def)

lemma may_go_on_now: "may_go_on may x i \<Longrightarrow> may x i"
proof -
  assume m: "may_go_on may x i"
  have "(fl_procs x)[i := (fl_procs x ! i)\<lparr>sp_pc := sp_pc (fl_procs x ! i)\<rparr>] = fl_procs x" by simp
  then show ?thesis
    using m [unfolded may_go_on_def, rule_format, of "fl_db x" "fl_world x" "sp_pc (fl_procs x ! i)"] by (cases x) simp
qed

text \<open>The events of one run, one after another.\<close>

lemma goes_on:
  assumes "saga_run (wired net (sp_deps (fl_procs x ! i))) (sp_order (fl_procs x ! i)) (sp_retry (fl_procs x ! i)) zs
      ((sp_pc (fl_procs x ! i), fl_db x), fl_world x) = ((pc, db), w)" and "i < length (fl_procs x)"
  shows "fold (proc_goes net i) zs x =
    \<lparr>fl_db = db, fl_world = w, fl_procs = (fl_procs x)[i := (fl_procs x ! i)\<lparr>sp_pc := pc\<rparr>]\<rparr>"
  using assms
proof (induction zs arbitrary: x)
  case Nil
  then have e: "pc = sp_pc (fl_procs x ! i)" "db = fl_db x" "w = fl_world x" by (simp_all add: saga_run_def)
  then have "(fl_procs x)[i := (fl_procs x ! i)\<lparr>sp_pc := pc\<rparr>] = fl_procs x" by simp
  then show ?case using e by simp
next
  case (Cons z zs)
  let ?p = "fl_procs x ! i"
  obtain pc1 db1 w1 where e: "saga_event (wired net (sp_deps ?p)) (sp_order ?p) (sp_retry ?p) z
      ((sp_pc ?p, fl_db x), fl_world x) = ((pc1, db1), w1)" by (metis prod.collapse)
  let ?y = "proc_goes net i z x"
  have y: "?y = \<lparr>fl_db = db1, fl_world = w1, fl_procs = (fl_procs x)[i := ?p\<lparr>sp_pc := pc1\<rparr>]\<rparr>"
    by (simp add: proc_goes_def e)
  have "fold (proc_goes net i) zs ?y =
      \<lparr>fl_db = db, fl_world = w, fl_procs = (fl_procs ?y)[i := (fl_procs ?y ! i)\<lparr>sp_pc := pc\<rparr>]\<rparr>"
    by (rule Cons.IH) (use Cons.prems e in \<open>simp_all add: y saga_run_def\<close>)
  then show ?case using Cons.prems(2) by (simp add: y)
qed

lemma goes_procs:
  "i < length (fl_procs x) \<Longrightarrow> \<exists>db w pc. proc_goes net i z x =
    \<lparr>fl_db = db, fl_world = w, fl_procs = (fl_procs x)[i := (fl_procs x ! i)\<lparr>sp_pc := pc\<rparr>]\<rparr>"
  by (auto simp: proc_goes_def Let_def split: prod.split)

lemma goes_in_fleet:
  assumes "i < length (fl_procs x)" and "may_go_on may x i"
  shows "fleet_steps may x (fold (proc_goes net i) zs x)"
  using assms
proof (induction zs arbitrary: x)
  case Nil
  then show ?case by (simp add: fleet_steps.none)
next
  case (Cons z zs)
  have "fleet_steps may x (proc_goes net i z x)"
    by (rule fleet_steps.more [OF fleet_steps.none], rule fleet_step.goes, rule Cons.prems(1))
       (rule may_go_on_now [OF Cons.prems(2)])
  moreover have "fleet_steps may (proc_goes net i z x) (fold (proc_goes net i) zs (proc_goes net i z x))"
    by (rule Cons.IH) (use goes_procs [OF Cons.prems(1), of net z] Cons.prems in \<open>auto simp: may_go_on_def\<close>)
  ultimately show ?case by (auto intro: fleet_steps_trans)
qed

lemma run_in_fleet:
  assumes "i < length (fl_procs x)" and "may_go_on may x i"
    and "saga_run (wired net (sp_deps (fl_procs x ! i))) (sp_order (fl_procs x ! i)) (sp_retry (fl_procs x ! i)) zs
      ((sp_pc (fl_procs x ! i), fl_db x), fl_world x) = ((pc, db), w)"
  shows "fleet_steps may x \<lparr>fl_db = db, fl_world = w, fl_procs = (fl_procs x)[i := (fl_procs x ! i)\<lparr>sp_pc := pc\<rparr>]\<rparr>"
  using goes_in_fleet [OF assms(1,2), of net zs] goes_on [OF assms(3,1)] by simp

lemma unfolds_in_fleet:
  assumes "unfolds (wired net (sp_deps (fl_procs x ! i))) (sp_order (fl_procs x ! i)) (sp_retry (fl_procs x ! i))
      (sp_pc (fl_procs x ! i)) s pc s'"
    and "i < length (fl_procs x)" and "may_go_on may x i" and "fl_db x = cs_db s" and "fl_world x = cs_world s"
  shows "fleet_steps may x (fleet_at x i pc s')"
  using assms run_in_fleet [OF assms(2,3)] by (auto simp: unfolds_def fleet_at_def)

end
