(* ===== verification/LostLease.thy ===== *)
theory LostLease
  imports Fleet
begin

text \<open>
  What the lease does not protect. runSaga does not look at what setOrderStatus answers when it
  writes COMPENSATING: a coordinator whose lease ran out during its forward steps goes on to undo
  them, although another instance has taken the order over and may have placed it. The states of
  theory Fleet contain such an order; this theory constructs one.
\<close>

section \<open>Three parts of the story\<close>

lemma still_open_mono: "still_open order A w \<Longrightarrow> B \<subseteq> A \<Longrightarrow> still_open order B w"
  by (auto simp: still_open_def)

lemma still_open_claim:
  "still_open (order\<lparr>claimed_status := x\<rparr>) = still_open order"
  "requested (order\<lparr>claimed_status := x\<rparr>) = requested order"
  by (simp_all add: fun_eq_iff still_open_def requested_def step_body_def)

lemma url_step: "step_url deps st = step_url deps st' \<longleftrightarrow> st = st'"
  unfolding step_url_def using url_inj by blast

text \<open>The first coordinator cannot reach one service and decides to roll back.\<close>

lemma forward_stalls:
  assumes works: "database_works deps" and net: "faultless net"
    and fate: "net_fate net = (\<lambda>_ url. if url = step_url deps (Fwd f0) then Request_lost e else Delivered)"
    and order: "orderId order \<noteq> []" "failAt order = None" and ok: "db_ok (cs_db s)"
    and world: "still_open order (insert (Fwd f0) (range Comp)) (cs_world s)"
    and fresh: "step_status_of (cs_db s) (orderId order) (Fwd f0) \<noteq> Some S_SUCCEEDED"
    and heart: "cs_heartbeat s = None"
  shows "\<exists>msg s'. unfolds (wired net deps) order False Init_forward s (Set_compensating msg) s' \<and>
    still_open order (insert (Fwd f0) (range Comp)) (cs_world s') \<and>
    db_ok (cs_db s') \<and> orders_core (cs_db s') = orders_core (cs_db s)"
proof -
  let ?A = "insert (Fwd f0) (range Comp)" and ?V = "\<lambda>st. st \<noteq> Fwd f0"
  let ?deps = "wired net deps"
  have dec: "decided (still_open order ?A) (requested order ?V) ?V ?deps order False (Fwd f)" for f
    by (rule shop_decided [where fate = "if Fwd f = Fwd f0 then Request_lost e else Delivered"])
       (use net fate order in \<open>auto simp: url_step assertNoInjectedFailure_def step_body_def\<close>)
  obtain outs s' where f: "forward_phase ?deps order s = (Inr outs, s')"
    and F: "still_open order ?A (cs_world s')" "db_ok (cs_db s')"
      "filter (\<lambda>out. \<not> out_ok out) outs = [] \<longleftrightarrow>
        (\<forall>f. step_status_of (cs_db s) (orderId order) (Fwd f) = Some S_SUCCEEDED \<or> ?V (Fwd f))"
    using forward_decided [where K = "still_open order ?A" and V = ?V and E = "requested order ?V"
        and deps = ?deps and order = order and s = s, OF _ dec world ok] works by auto
  have "heart_ok order False s" using heart by (simp add: heart_ok_def)
  from forward_unfolds [OF f this] obtain pending bs
    where outs: "outs = map (\<lambda>st. branch_outcome st (bs st)) pending"
      and U: "unfolds ?deps order False Init_forward s (forward_over pending bs) s'" by auto
  have "failed_branches pending bs \<noteq> []" using F(3) fresh outs by (auto simp: failed_branches_def)
  moreover have "orders_core (cs_db s') = orders_core (cs_db s)"
    using forward_phase_result [where J = "\<lambda>_. True", OF _ _ ok f]
    by (simp add: forward_calls_keep_def near_def)
  ultimately show ?thesis using U F(1,2) by (auto simp: forward_over_def)
qed

text \<open>The second one takes over and places the order.\<close>

lemma takes_over:
  assumes works: "database_works deps" and net: "faultless net" "net_fate net = (\<lambda>_ _. Delivered)"
    and order: "orderId order \<noteq> []" "failAt order = None" "claimed_status order \<noteq> COMPENSATING"
    and ok: "db_ok (cs_db s)" and world: "still_open order (range Comp) (cs_world s)"
  shows "\<exists>s'. runSaga (wired net deps) order s = (Inr PLACED, s') \<and>
    still_open order (range Comp) (cs_world s') \<and> db_ok (cs_db s') \<and>
    (\<forall>f. step_status_of (cs_db s') (orderId order) (Fwd f) = Some S_SUCCEEDED) \<and>
    order_core_at (cs_db s') (orderId order) =
      map_option (closed_row (instanceId deps) PLACED) (order_core_at (cs_db s) (orderId order))"
proof -
  let ?K = "still_open order (range Comp)" and ?V = "\<lambda>st. st \<in> range Fwd"
  let ?deps = "wired net deps"
  have dec: "decided ?K (requested order (\<lambda>_. True)) ?V ?deps order False (Fwd f)" for f
    by (rule shop_decided [where fate = Delivered])
       (use net order in \<open>auto simp: assertNoInjectedFailure_def step_body_def\<close>)
  have verdict: "verdict_of ?V order (cs_db s) = PLACED"
    using order(3) by (simp add: verdict_of_def saga_verdict_def list_all_FORWARD)
  obtain s' where run: "runSaga ?deps order s = (Inr PLACED, s')" and K: "?K (cs_world s')"
    using saga_decision [where deps = ?deps and order = order and K = ?K and V = ?V and s = s
        and E = "requested order (\<lambda>_. True)", OF _ ok world dec] works order(3) verdict
    by (auto simp: decision_defs)
  obtain s1 where b: "saga_body ?deps order (startHeartbeat (orderId order) s) = (Inr PLACED, s1)"
    and s1: "cs_db s' = cs_db s1" using runSaga_body [OF run] by auto
  have "db_ok (cs_db s1) \<and> status_fits (cs_db s1) (orderId order) PLACED \<and>
      order_core_at (cs_db s1) (orderId order) =
        map_option (closed_row (instanceId deps) PLACED) (order_core_at (cs_db s) (orderId order))"
    using saga_forward_result [where J = "\<lambda>_. True", OF _ _ _ _ order(3) b] ok
    by (simp add: forward_calls_keep_def wired_def)
  with run K s1 show ?thesis by (simp add: status_fits_def)
qed

text \<open>The first one, which holds no lease any more, undoes everything.\<close>

lemma undoes_all:
  assumes works: "database_works deps" and net: "faultless net" "net_fate net = (\<lambda>_ _. Delivered)"
    and order: "orderId order \<noteq> []" "compFailAt order = None"
    and ok: "db_ok (cs_db s)" and world: "still_open order {} (cs_world s)"
    and steps: "\<And>f. step_status_of (cs_db s) (orderId order) (Fwd f) = Some S_SUCCEEDED"
    and lost: "order_core_at (cs_db s) (orderId order) = Some row" "o_lease_owner row \<noteq> Some (instanceId deps)"
    and heart: "cs_heartbeat s = None"
  shows "\<exists>s'. unfolds (wired net deps) order False (Set_compensating msg) s (Over (Inr CANCELLED)) s' \<and>
    order_core_at (cs_db s') (orderId order) = Some row \<and>
    (\<forall>f. done_at (cs_world s') (orderId order) (Comp (COMPENSATION_OF f)))"
proof -
  let ?oid = "orderId order" and ?deps = "wired net deps"
  let ?K = "still_open order {}" and ?E = "requested order (\<lambda>_. True)"
  let ?q = "setOrderStatus ?oid (instanceId ?deps) COMPENSATING False (Some msg)"
  have me: "instanceId ?deps = instanceId deps" by (simp add: wired_def)
  have works': "database_works ?deps" using works by simp
  obtain p s1 where q: "query ?deps ?q s = (Inr p, s1)"
    and s1: "cs_db s1 = snd (?q (cs_now s) (cs_db s))" "cs_world s1 = cs_world s"
    using query_works [OF works', of ?q s] by auto
  have S1: "db_ok (cs_db s1)" "step_status_of (cs_db s1) = step_status_of (cs_db s)"
    using set_status_near [OF ok] by (simp_all add: s1)
  have core1: "order_core_at (cs_db s1) ?oid = Some row"
  proof -
    obtain r where r: "order_at (cs_db s) ?oid = Some r" "row = r\<lparr>o_lease_expires_at := None\<rparr>"
      using lost(1) by (auto simp: order_core_at_def)
    with lost(2) have "o_lease_owner r \<noteq> Some (instanceId ?deps)" by (simp add: me)
    with r set_status_at [OF ok, of ?oid "instanceId ?deps"] show ?thesis by (simp add: s1(1) order_core_at_def)
  qed
  have U1: "unfolds ?deps order False (Set_compensating msg) s Read_succeeded s1"
    using query_unfolds [OF q, of order False "Set_compensating msg" "\<lambda>_. Read_succeeded"]
    by (simp add: after_query_def)
  have dec: "decided ?K ?E (\<lambda>_. True) ?deps order False (Comp c)" for c
    by (rule shop_decided [where fate = Delivered])
       (use net order in \<open>auto simp: assertNoInjectedFailure_def step_body_def\<close>)
  obtain s2 where c: "compensate ?deps order False s1 = (Inr CANCELLED, s2)"
    and E: "\<forall>f. ?E (Comp (COMPENSATION_OF f)) (cs_world s2)"
    using compensate_decided [where K = ?K and E = ?E and V = "\<lambda>_. True" and deps = ?deps and s = s1
        and order = order, OF works' dec _ S1(1)] world steps S1(2) s1(2) by auto
  have n: "near ?oid (range Comp) (cs_db s1) (cs_db s2)"
    using compensate_result [where J = "\<lambda>_. True", OF _ _ S1(1) c] by (simp add: undo_calls_keep_def)
  have heart1: "heart_ok order False s1"
    by (rule unfolds_heart [OF U1]) (simp add: heart heart_ok_def)
  have U2: "unfolds ?deps order False Read_succeeded s1 (Set_final CANCELLED) s2"
    using compensate_unfolds [OF c heart1] by (simp add: after_query_def)
  obtain s3 where f: "finish_order ?deps order CANCELLED s2 = (Inr CANCELLED, s3)" "cs_world s3 = cs_world s2"
    using finish_works [OF works'] by blast
  have "order_core_at (cs_db s3) ?oid = Some row"
    using finish_order_result [OF f(1) near_ok [OF n]] near_order [OF n, of ?oid] core1 lost(2)
    by (simp add: closed_row_def me)
  with f E unfolds_trans [OF unfolds_trans [OF U1 U2] finish_unfolds [OF f(1)]] show ?thesis
    by (auto simp: requested_def)
qed

section \<open>The order\<close>

definition instance_deps :: "string \<Rightarrow> shop SagaDeps" where
  "instance_deps me = shop_deps\<lparr>instanceId := me\<rparr>"

lemma instance_simps [simp]: "database_works (instance_deps me)" "instanceId (instance_deps me) = me"
  by (simp_all add: instance_deps_def database_works_def shop_deps_def)

definition some_row :: order_row where
  "some_row = Ingest.new_order some_values []"

definition claimed_by :: "string \<Rightarrow> int \<Rightarrow> saga_db" where
  "claimed_by me now = loaded_saga\<lparr>saga_orders := [claim_stamp now me 60000 some_row]\<rparr>"

lemma first_claim:
  "claim_batch_work now (\<lambda>_. False) me 10 60000 loaded_saga = (Inr [toClaimedOrder some_row], claimed_by me now)"
  by (simp add: loaded_saga_def claimed_by_def some_row_def empty_saga_def add_order_def claim_work_eq
      claim_select_def claimable_def Ingest.new_order_def some_values_def Let_def claim_stamp_def next_id_def)

text \<open>Any later claim, once the lease has run out.\<close>

lemma second_claim:
  assumes "saga_orders db = [r]" and "o_status r = IN_PROGRESS" and "o_lease_expires_at r = Some t" and "t < now"
  shows "claim_batch_work now (\<lambda>_. False) me 10 ttl db =
    (Inr [toClaimedOrder r], db\<lparr>saga_orders := [claim_stamp now me ttl r]\<rparr>)"
  using assms by (simp add: claim_work_eq claim_select_def claimable_def lease_expired_def Let_def)

definition some_order :: ClaimedOrder where
  "some_order = toClaimedOrder some_row"

lemma some_order_simps [simp]: "orderId some_order = ''A''" "failAt some_order = None" "compFailAt some_order = None"
    "claimed_status some_order = PENDING"
  by (simp_all add: some_order_def some_row_def toClaimedOrder_def Ingest.new_order_def some_values_def)

definition saga_at :: "string \<Rightarrow> ClaimedOrder \<Rightarrow> saga_pc \<Rightarrow> saga_proc" where
  "saga_at me order pc = \<lparr>sp_deps = instance_deps me, sp_order = order, sp_retry = False, sp_pc = pc\<rparr>"

lemma saga_at_simps [simp]:
  "sp_deps (saga_at me order pc) = instance_deps me" "sp_order (saga_at me order pc) = order"
  "sp_retry (saga_at me order pc) = False" "sp_pc (saga_at me order pc) = pc"
  "(saga_at me order pc)\<lparr>sp_pc := pc'\<rparr> = saga_at me order pc'"
  "new_saga (instance_deps me) order = saga_at me order (saga_start order)"
  by (simp_all add: saga_at_def new_saga_def)

definition some_stock :: shop where
  "some_stock = empty_shop [\<lparr>inv_sku = ''S1'', available_qty = 10, reserved_qty = 0\<rparr>]"

lemma nothing_done: "still_open some_order A some_stock"
proof -
  have "step_body some_order False = step_body ShopRuns.new_order False"
    by (simp add: step_body_def some_order_def some_row_def toClaimedOrder_def Ingest.new_order_def some_values_def
        ShopRuns.new_order_def)
  with sample_calm show ?thesis by (simp add: still_open_def some_stock_def)
qed

definition fleet_of :: "saga_db \<Rightarrow> shop \<Rightarrow> saga_proc list \<Rightarrow> fleet" where
  "fleet_of db w ps = \<lparr>fl_db = db, fl_world = w, fl_procs = ps\<rparr>"

lemma fleet_of_simps [simp]: "fl_db (fleet_of db w ps) = db" "fl_world (fleet_of db w ps) = w" "fl_procs (fleet_of db w ps) = ps"
  by (simp_all add: fleet_of_def)

lemma story_claimed: "fleet_reach may (fleet_of (claimed_by ''a'' 50) some_stock [saga_at ''a'' some_order Init_forward])"
proof -
  have "fleet_reach may (fleet_of empty_saga some_stock [])"
    unfolding fleet_of_def some_stock_def by (rule fleet_reach.begins)
  from fleet_reach.step [OF this fleet_step.loads, of some_values]
  have l: "fleet_reach may (fleet_of loaded_saga some_stock [])" by (simp add: loaded_saga_def fleet_of_def)
  have "claim_batch_work 50 (\<lambda>_. False) (instanceId (instance_deps ''a'')) 10 (lease_ttlMs (instance_deps ''a''))
      (fl_db (fleet_of loaded_saga some_stock [])) = (Inr [some_order], claimed_by ''a'' 50)"
    using first_claim by (simp add: some_order_def instance_deps_def shop_deps_def)
  from fleet_reach.step [OF l fleet_step.claims [OF this]] show ?thesis
    by (simp add: fleet_of_def saga_start_def)
qed

definition charge_lost :: network where
  "charge_lost = quiet_network
     (\<lambda>url. if url = step_url (instance_deps ''a'') (Fwd CHARGE_PAYMENT) then Request_lost syntax_error else Delivered)"

lemma story_stalled:
  "\<exists>msg db w. fleet_reach anyone (fleet_of db w [saga_at ''a'' some_order (Set_compensating msg)]) \<and>
    still_open some_order (range Comp) w \<and> orders_core db = orders_core (claimed_by ''a'' 50)"
proof -
  let ?x = "fleet_of (claimed_by ''a'' 50) some_stock [saga_at ''a'' some_order Init_forward]"
  define s where "s = \<lparr>cs_db = claimed_by ''a'' 50, cs_now = 0, cs_world = some_stock, cs_tick = 0, cs_heartbeat = None\<rparr>"
  have "db_ok (cs_db s)"
    using fleet_reach_true [OF story_claimed] by (simp add: s_def fleet_true_def consistent_def)
  moreover have "step_status_of (cs_db s) oid st = None" for oid st
    by (simp add: s_def claimed_by_def loaded_saga_def empty_saga_def step_status_of_def)
  ultimately obtain msg s' where
    U: "unfolds (wired charge_lost (instance_deps ''a'')) some_order False Init_forward s (Set_compensating msg) s'"
    and S: "still_open some_order (insert (Fwd CHARGE_PAYMENT) (range Comp)) (cs_world s')"
      "orders_core (cs_db s') = orders_core (cs_db s)"
    using forward_stalls [of "instance_deps ''a''" charge_lost CHARGE_PAYMENT syntax_error some_order s] nothing_done
    by (auto simp: charge_lost_def s_def)
  have "fleet_steps anyone ?x (fleet_at ?x 0 (Set_compensating msg) s')"
    by (rule unfolds_in_fleet [where s = s and net = charge_lost]) (use U in \<open>simp_all add: s_def\<close>)
  from fleet_steps_reach [OF this story_claimed]
  have "fleet_reach anyone (fleet_of (cs_db s') (cs_world s') [saga_at ''a'' some_order (Set_compensating msg)])"
    by (simp add: fleet_at_def fleet_of_def)
  with S still_open_mono [OF S(1)] show ?thesis by (auto simp: s_def)
qed

text \<open>The order as the second claim hands it out.\<close>

definition retaken_order :: ClaimedOrder where
  "retaken_order = some_order\<lparr>claimed_status := IN_PROGRESS\<rparr>"

lemma story_retaken:
  "\<exists>msg db w row. fleet_reach anyone (fleet_of db w
      [saga_at ''a'' some_order (Set_compensating msg), saga_at ''b'' retaken_order Init_forward]) \<and>
    still_open some_order (range Comp) w \<and>
    order_core_at db ''A'' = Some row \<and> o_lease_owner row = Some ''b''"
proof -
  obtain msg db w where R: "fleet_reach anyone (fleet_of db w [saga_at ''a'' some_order (Set_compensating msg)])"
    and w: "still_open some_order (range Comp) w" and core: "orders_core db = orders_core (claimed_by ''a'' 50)"
    using story_stalled by blast
  let ?x = "fleet_of db w [saga_at ''a'' some_order (Set_compensating msg)]"
  obtain r where rows: "saga_orders db = [r]"
    and r: "r\<lparr>o_lease_expires_at := None\<rparr> = (claim_stamp 50 ''a'' 60000 some_row)\<lparr>o_lease_expires_at := None\<rparr>"
    using core by (auto simp: orders_core_def claimed_by_def)
  have same: "f (r\<lparr>o_lease_expires_at := None\<rparr>) =
      f ((claim_stamp 50 ''a'' 60000 some_row)\<lparr>o_lease_expires_at := None\<rparr>)" for f :: "order_row \<Rightarrow> 'a"
    using r by simp
  have status: "o_status r = IN_PROGRESS" and id: "o_order_id r = ''A''"
    using same [of o_status] same [of o_order_id]
    by (simp_all add: claim_stamp_def some_row_def Ingest.new_order_def some_values_def)
  have "toClaimedOrder r = toClaimedOrder (claim_stamp 50 ''a'' 60000 some_row)"
    using same [of toClaimedOrder] by (simp add: toClaimedOrder_def)
  then have order: "toClaimedOrder r = retaken_order"
    by (simp add: retaken_order_def some_order_def toClaimedOrder_def claim_stamp_def some_row_def Ingest.new_order_def)
  have "row_inv r"
    using fleet_reach_true [OF R] rows by (auto simp: fleet_true_def orders_inv_def dest!: life_reach_inv)
  with status obtain t where t: "o_lease_expires_at r = Some t" by (auto simp: row_inv_def working_def)
  let ?row = "claim_stamp (t + 1) ''b'' 60000 r"
  let ?db = "db\<lparr>saga_orders := [?row]\<rparr>"
  have "claim_batch_work (t + 1) (\<lambda>_. False) (instanceId (instance_deps ''b'')) 10 (lease_ttlMs (instance_deps ''b'')) (fl_db ?x) =
      (Inr [retaken_order], ?db)"
    using second_claim [OF rows status t, of "t + 1" "''b''" 60000] order by (simp add: instance_deps_def shop_deps_def)
  from fleet_reach.step [OF R fleet_step.claims [OF this]]
  have "fleet_reach anyone (fleet_of ?db w
      [saga_at ''a'' some_order (Set_compensating msg), saga_at ''b'' retaken_order Init_forward])"
    by (simp add: fleet_of_def saga_start_def retaken_order_def)
  moreover have "order_core_at ?db ''A'' = Some (?row\<lparr>o_lease_expires_at := None\<rparr>)"
    using id by (simp add: order_core_at_def order_at_def claim_stamp_def)
  moreover have "o_lease_owner (?row\<lparr>o_lease_expires_at := None\<rparr>) = Some ''b''" by (simp add: claim_stamp_def)
  ultimately show ?thesis using w by blast
qed

lemma story_placed:
  "\<exists>msg db w row. fleet_reach anyone (fleet_of db w
      [saga_at ''a'' some_order (Set_compensating msg), saga_at ''b'' retaken_order (Over (Inr PLACED))]) \<and>
    still_open some_order (range Comp) w \<and>
    (\<forall>f. step_status_of db ''A'' (Fwd f) = Some S_SUCCEEDED) \<and>
    order_core_at db ''A'' = Some row \<and> o_lease_owner row = None \<and> o_status row = PLACED"
proof -
  obtain msg db w row where R: "fleet_reach anyone (fleet_of db w
      [saga_at ''a'' some_order (Set_compensating msg), saga_at ''b'' retaken_order Init_forward])"
    and w: "still_open some_order (range Comp) w"
    and row: "order_core_at db ''A'' = Some row" "o_lease_owner row = Some ''b''"
    using story_retaken by blast
  let ?x = "fleet_of db w [saga_at ''a'' some_order (Set_compensating msg), saga_at ''b'' retaken_order Init_forward]"
  let ?net = "quiet_network (\<lambda>_. Delivered)"
  define s where "s = \<lparr>cs_db = db, cs_now = 0, cs_world = w, cs_tick = 0, cs_heartbeat = None\<rparr>"
  have "db_ok (cs_db s)"
    using fleet_reach_true [OF R] by (simp add: s_def fleet_true_def consistent_def)
  then obtain s' where run: "runSaga (wired ?net (instance_deps ''b'')) retaken_order s = (Inr PLACED, s')"
    and S: "still_open some_order (range Comp) (cs_world s')"
      "\<forall>f. step_status_of (cs_db s') ''A'' (Fwd f) = Some S_SUCCEEDED"
      "order_core_at (cs_db s') ''A'' = map_option (closed_row ''b'' PLACED) (order_core_at (cs_db s) ''A'')"
    using takes_over [of "instance_deps ''b''" ?net retaken_order s] w
    by (auto simp: s_def retaken_order_def still_open_claim)
  obtain zs where zs: "saga_run (wired ?net (instance_deps ''b'')) retaken_order False zs
      ((saga_start retaken_order, db), w) = ((Over (Inr PLACED), cs_db s'), cs_world s')"
    using saga_machine [OF run] by (auto simp: s_def)
  have "fleet_steps anyone ?x (fleet_of (cs_db s') (cs_world s')
      [saga_at ''a'' some_order (Set_compensating msg), saga_at ''b'' retaken_order (Over (Inr PLACED))])"
    using run_in_fleet [where x = ?x and i = 1 and zs = zs and net = ?net and pc = "Over (Inr PLACED)"] zs
    by (simp add: fleet_of_def saga_start_def retaken_order_def)
  from fleet_steps_reach [OF this R] S row show ?thesis
    by (intro exI [of _ msg] exI [of _ "cs_db s'"] exI [of _ "cs_world s'"] exI [of _ "closed_row ''b'' PLACED row"])
       (simp add: s_def closed_row_def status_write_def)
qed

theorem fleet_rows_never_lie_witness:
  "\<exists>x p. fleet_reach anyone x \<and> p \<in> set (fl_procs x) \<and> sp_pc p = Over (Inr PLACED) \<and>
     (\<forall>f. step_status_of (fl_db x) ''A'' (Fwd f) = Some S_SUCCEEDED \<and> live_at f (fl_world x) ''A'')"
proof -
  obtain msg db w where R: "fleet_reach anyone (fleet_of db w
      [saga_at ''a'' some_order (Set_compensating msg), saga_at ''b'' retaken_order (Over (Inr PLACED))])"
    and S: "still_open some_order (range Comp) w" "\<forall>f. step_status_of db ''A'' (Fwd f) = Some S_SUCCEEDED"
    using story_placed by blast
  from S(1) have "\<not> done_at w ''A'' (Comp c)" for c by (simp add: still_open_def)
  with fleet_rows_never_lie [OF R, where oid = "''A''"] S(2) have "live_at f w ''A''" for f by simp
  with R S(2) show ?thesis
    by (intro exI [of _ "fleet_of db w [saga_at ''a'' some_order (Set_compensating msg), saga_at ''b'' retaken_order (Over (Inr PLACED))]"]
          exI [of _ "saga_at ''b'' retaken_order (Over (Inr PLACED))"]) simp
qed

text \<open>
  C15. A lost lease can undo a placed order (a flaw of the code, not a promise). From empty tables the system
  reaches a state in which an order is PLACED, its new owner reported PLACED, and yet none of its four
  effects is live: its first coordinator, which could not reach the payment service and whose lease ran out
  meanwhile, was refused COMPENSATING by the database, did not look at the answer, and undid all four steps.
  Nothing failed but one request and one lease.
\<close>

theorem lost_lease_undoes_placed:
  "\<exists>x. fleet_reach anyone x \<and> map_option o_status (order_at (fl_db x) ''A'') = Some PLACED \<and>
    map sp_pc (fl_procs x) = [Over (Inr CANCELLED), Over (Inr PLACED)] \<and>
    map (orderId \<circ> sp_order) (fl_procs x) = [''A'', ''A''] \<and>
    (\<forall>f. \<not> live_at f (fl_world x) ''A'')"
proof -
  obtain msg db w row where R: "fleet_reach anyone (fleet_of db w
      [saga_at ''a'' some_order (Set_compensating msg), saga_at ''b'' retaken_order (Over (Inr PLACED))])"
    and w: "still_open some_order {} w" and steps: "\<forall>f. step_status_of db ''A'' (Fwd f) = Some S_SUCCEEDED"
    and row: "order_core_at db ''A'' = Some row" "o_lease_owner row = None" "o_status row = PLACED"
    using story_placed still_open_mono by blast
  let ?x = "fleet_of db w [saga_at ''a'' some_order (Set_compensating msg), saga_at ''b'' retaken_order (Over (Inr PLACED))]"
  let ?net = "quiet_network (\<lambda>_. Delivered)"
  define s where "s = \<lparr>cs_db = db, cs_now = 0, cs_world = w, cs_tick = 0, cs_heartbeat = None\<rparr>"
  have "db_ok (cs_db s)"
    using fleet_reach_true [OF R] by (simp add: s_def fleet_true_def consistent_def)
  then obtain s' where U: "unfolds (wired ?net (instance_deps ''a'')) some_order False (Set_compensating msg) s
      (Over (Inr CANCELLED)) s'"
    and S: "order_core_at (cs_db s') ''A'' = Some row"
      "\<forall>f. done_at (cs_world s') ''A'' (Comp (COMPENSATION_OF f))"
    using undoes_all [of "instance_deps ''a''" ?net some_order s row msg] w steps row by (auto simp: s_def)
  let ?y = "fleet_at ?x 0 (Over (Inr CANCELLED)) s'"
  have "fleet_steps anyone ?x ?y"
    by (rule unfolds_in_fleet [where s = s and net = ?net]) (use U in \<open>simp_all add: s_def\<close>)
  then have y: "fleet_reach anyone ?y" by (rule fleet_steps_reach) (rule R)
  have "all_exact (cs_world s')"
    using fleet_reach_true [OF y] by (simp add: fleet_true_def consistent_def in_order_def fleet_at_def)
  with S(2) have "\<not> live_at f (cs_world s') ''A''" for f by (simp add: live_at_exact)
  moreover have "map_option o_status (order_at (cs_db s') ''A'') = Some PLACED"
    using S(1) row(3) by (auto simp: order_core_at_def)
  ultimately show ?thesis using y
    by (intro exI [of _ ?y]) (simp add: fleet_at_def retaken_order_def)
qed

end
