(* ===== verification/LeaseHeld.thy ===== *)
theory LeaseHeld
  imports LostLease
begin

text \<open>
  What the lease does protect. As long as a coordinator does nothing more for an order once another run
  has got it (which the code does not enforce, theory LostLease), the status of the order row is true at
  the services, whatever else fails and whoever dies: PLACED and SHIPPED orders are live, and of a
  CANCELLED order nothing that was recorded is.
\<close>

section \<open>Who has an order\<close>

text \<open>The last run that got the order.\<close>

fun current :: "saga_proc list \<Rightarrow> string \<Rightarrow> saga_proc option" where
  "current [] oid = None"
| "current (p # ps) oid =
     (case current ps oid of
        Some q \<Rightarrow> Some q
      | None \<Rightarrow> if orderId (sp_order p) = oid then Some p else None)"

definition leaseholder :: "fleet \<Rightarrow> nat \<Rightarrow> bool" where
  "leaseholder x i \<longleftrightarrow> current (drop (Suc i) (fl_procs x)) (orderId (sp_order (fl_procs x ! i))) = None"

lemma current_append:
  "current (ps @ qs) oid = (case current qs oid of Some q \<Rightarrow> Some q | None \<Rightarrow> current ps oid)"
  by (induction ps) (auto split: option.splits)

lemma current_SomeD: "current ps oid = Some p \<Longrightarrow> p \<in> set ps \<and> orderId (sp_order p) = oid"
  by (induction ps) (auto split: option.splits if_splits)

lemma current_None: "current ps oid = None \<longleftrightarrow> (\<forall>p \<in> set ps. orderId (sp_order p) \<noteq> oid)"
  by (induction ps) (auto split: option.splits)

lemma current_middle:
  "current (ps @ p # qs) oid = (case current qs oid of
     Some q \<Rightarrow> Some q | None \<Rightarrow> if orderId (sp_order p) = oid then Some p else current ps oid)"
  by (auto simp: current_append split: option.splits)

lemma current_at:
  assumes "i < length (fl_procs x)" and "leaseholder x i"
  shows "current (fl_procs x) (orderId (sp_order (fl_procs x ! i))) = Some (fl_procs x ! i)"
  using assms(2) unfolding leaseholder_def
  by (subst (asm) id_take_nth_drop [OF assms(1)], subst id_take_nth_drop [OF assms(1)]) (simp add: current_middle)

lemma current_update:
  assumes "i < length (fl_procs x)" and "leaseholder x i" and "sp_order p = sp_order (fl_procs x ! i)"
  shows "current ((fl_procs x)[i := p]) oid = (if oid = orderId (sp_order p) then Some p else current (fl_procs x) oid)"
proof -
  let ?ps = "fl_procs x"
  have "current ?ps oid = current (take i ?ps @ ?ps ! i # drop (Suc i) ?ps) oid"
    using id_take_nth_drop [OF assms(1)] by simp
  then show ?thesis
    using assms(2,3) unfolding leaseholder_def upd_conv_take_nth_drop [OF assms(1)] current_middle
    by (auto split: option.splits)
qed

section \<open>The invariant\<close>

text \<open>The status of the row while a run is at \<open>pc\<close>.\<close>

fun phase :: "saga_pc \<Rightarrow> order_status" where
  "phase Init_forward = IN_PROGRESS"
| "phase Read_statuses = IN_PROGRESS"
| "phase (Forward _ _) = IN_PROGRESS"
| "phase (Set_compensating _) = IN_PROGRESS"
| "phase (Set_final status) = (if status = PLACED then IN_PROGRESS else COMPENSATING)"
| "phase _ = COMPENSATING"

text \<open>What a rollback has still to undo, or has undone.\<close>

definition covers :: "compensation_step list \<Rightarrow> (step \<rightharpoonup> step_status) \<Rightarrow> bool" where
  "covers cs rows \<longleftrightarrow> (\<forall>f. rows (Fwd f) = Some S_SUCCEEDED \<longrightarrow> COMPENSATION_OF f \<in> set cs)"

definition undone :: "(step \<rightharpoonup> step_status) \<Rightarrow> (step \<Rightarrow> bool) \<Rightarrow> bool" where
  "undone rows dn \<longleftrightarrow> (\<forall>f. rows (Fwd f) = Some S_SUCCEEDED \<longrightarrow> dn (Comp (COMPENSATION_OF f)))"

fun undo_known :: "saga_pc \<Rightarrow> (step \<rightharpoonup> step_status) \<Rightarrow> (step \<Rightarrow> bool) \<Rightarrow> bool" where
  "undo_known (Init_undo needed) rows dn = covers needed rows"
| "undo_known (Undo_marks needed c rest) rows dn = covers needed rows"
| "undo_known (Undo toRun bs) rows dn = covers toRun rows"
| "undo_known (Set_final status) rows dn = (status = CANCELLED \<longrightarrow> undone rows dn)"
| "undo_known _ rows dn = True"

text \<open>
  What is true of an order row: an undo was only ever asked for (\<open>sent\<close>) for an order that is rolled
  back; a placed order was carried out, a cancelled one undone (\<open>dn\<close>).
\<close>

definition row_true :: "order_row option \<Rightarrow> (step \<rightharpoonup> step_status) \<Rightarrow> (step \<Rightarrow> bool) \<Rightarrow> (step \<Rightarrow> bool) \<Rightarrow> bool" where
  "row_true row rows sent dn \<longleftrightarrow>
     ((\<exists>c. sent (Comp c)) \<longrightarrow> (\<exists>r. row = Some r \<and> o_status r \<in> {COMPENSATING, CANCELLED, NEEDS_ATTENTION})) \<and>
     (\<forall>r. row = Some r \<longrightarrow> (o_status r \<in> {PLACED, SHIPPED} \<longrightarrow> (\<forall>f. dn (Fwd f))) \<and>
        (o_status r = CANCELLED \<longrightarrow> undone rows dn))"

definition held_by :: "string \<Rightarrow> saga_pc \<Rightarrow> order_row option \<Rightarrow> (step \<rightharpoonup> step_status) \<Rightarrow>
    (step \<Rightarrow> bool) \<Rightarrow> (step \<Rightarrow> bool) \<Rightarrow> bool" where
  "held_by me pc row rows sent dn \<longleftrightarrow> row_true row rows sent dn \<and>
     ((\<forall>res. pc \<noteq> Over res) \<longrightarrow>
        (\<exists>r. row = Some r \<and> o_lease_owner r = Some me \<and> o_status r = phase pc) \<and> undo_known pc rows dn)"

definition order_held :: "order_row option \<Rightarrow> (step \<rightharpoonup> step_status) \<Rightarrow> (step \<Rightarrow> bool) \<Rightarrow> (step \<Rightarrow> bool) \<Rightarrow>
    saga_proc option \<Rightarrow> bool" where
  "order_held row rows sent dn c \<longleftrightarrow>
     (case c of
        None \<Rightarrow> row_true row rows sent dn
      | Some p \<Rightarrow> held_by (instanceId (sp_deps p)) (sp_pc p) row rows sent dn)"

text \<open>A request for the step is on its way or was carried out.\<close>

definition asked :: "shop \<Rightarrow> string \<Rightarrow> step \<Rightarrow> bool" where
  "asked w oid st \<longleftrightarrow> sent_at w oid st \<or> done_at w oid st"

definition lease_true :: "fleet \<Rightarrow> bool" where
  "lease_true x \<longleftrightarrow> (\<forall>oid. order_held (order_at (fl_db x) oid) (step_status_of (fl_db x) oid)
     (asked (fl_world x) oid) (done_at (fl_world x) oid) (current (fl_procs x) oid))"

lemma phase_working: "phase pc = IN_PROGRESS \<or> phase pc = COMPENSATING"
  by (cases pc) auto

lemma row_true_working:
  "o_status r = IN_PROGRESS \<or> o_status r = COMPENSATING \<Longrightarrow>
    row_true (Some r) rows sent dn \<longleftrightarrow> ((\<exists>c. sent (Comp c)) \<longrightarrow> o_status r = COMPENSATING)"
  by (auto simp: row_true_def)

lemma held_going:
  "(\<And>res. pc \<noteq> Over res) \<Longrightarrow> held_by me pc row rows sent dn \<longleftrightarrow>
    (\<exists>r. row = Some r \<and> o_lease_owner r = Some me \<and> o_status r = phase pc) \<and> undo_known pc rows dn \<and>
    ((\<exists>c. sent (Comp c)) \<longrightarrow> phase pc = COMPENSATING)"
  using phase_working [of pc] by (auto simp: held_by_def row_true_working)

lemma held_over [simp]: "held_by me (Over res) row rows sent dn = row_true row rows sent dn"
  by (simp add: held_by_def)

lemma held_row: "held_by me pc row rows sent dn \<Longrightarrow> row_true row rows sent dn"
  by (simp add: held_by_def)

lemma order_row: "order_held row rows sent dn c \<Longrightarrow> row_true row rows sent dn"
  by (auto simp: order_held_def held_row split: option.splits)

text \<open>What the services do may only grow.\<close>

lemma undo_known_mono: "undo_known pc rows dn \<Longrightarrow> (\<And>st. dn st \<Longrightarrow> dn' st) \<Longrightarrow> undo_known pc rows dn'"
  by (cases "(pc, rows, dn)" rule: undo_known.cases) (auto simp: undone_def)

lemma row_true_mono:
  "row_true row rows sent dn \<Longrightarrow> (\<And>st. dn st \<Longrightarrow> dn' st) \<Longrightarrow> (\<And>c. sent' (Comp c) \<Longrightarrow> sent (Comp c)) \<Longrightarrow>
    row_true row rows sent' dn'"
  unfolding row_true_def undone_def by blast

lemma order_held_mono:
  assumes "order_held row rows sent dn c" and "\<And>st. dn st \<Longrightarrow> dn' st" and "\<And>c. sent' (Comp c) \<Longrightarrow> sent (Comp c)"
  shows "order_held row rows sent' dn' c"
  using assms(1) row_true_mono [of row rows sent dn dn' sent', OF _ assms(2,3)]
    undo_known_mono [OF _ assms(2)]
  by (auto simp: order_held_def held_by_def split: option.splits)

text \<open>Only owner and status of the row matter.\<close>

lemma order_held_row:
  assumes "order_held (Some r) rows sent dn c" and "o_lease_owner r' = o_lease_owner r" and "o_status r' = o_status r"
  shows "order_held (Some r') rows sent dn c"
  using assms by (auto simp: order_held_def held_by_def row_true_def split: option.splits)

section \<open>An event of the run that has the order\<close>

text \<open>Who is asked, and which rows change.\<close>

fun calls :: "saga_pc \<Rightarrow> step set" where
  "calls (Forward steps bs) = set steps"
| "calls (Undo toRun bs) = Comp ` set toRun"
| "calls _ = {}"

lemma branch_rows:
  "(oid, st') \<noteq> (orderId order, st) \<or> is_settled b \<Longrightarrow>
    step_status_of (branch_write deps order st m b db) oid st' = step_status_of db oid st'"
proof (cases "issued deps m b")
  case (Some x)
  then show "(oid, st') \<noteq> (orderId order, st) \<or> is_settled b \<Longrightarrow> ?thesis"
    using settled_stays [of b deps st m] by (cases x) (auto simp: branch_write_def sql_simps)
qed (simp add: branch_write_def)

lemma calling_idle: "branch_write deps order st m (Calling n) db = db"
  by (simp add: branch_write_def issued_def)

lemma world_frame:
  assumes g: "in_order w" and S: "\<And>st. st \<notin> S \<Longrightarrow> is_settled (bs st)"
    and e: "world_event (wired net deps) order frc (Turn st m) ((bs, db), w) = ((bs', db'), w')"
  shows "saga_orders db' = saga_orders db \<and>
    (\<not> (oid = orderId order \<and> st' \<in> S) \<longrightarrow> step_status_of db' oid st' = step_status_of db oid st') \<and>
    (asked w' oid st' \<longrightarrow> asked w oid st' \<or> oid = orderId order \<and> st' \<in> S)"
proof (cases "\<exists>n. bs st = Calling n")
  case True
  then obtain n where n: "bs st = Calling n" by blast
  obtain a d w1 where post: "post_step (wired net deps) order st frc w = (a, d, w1)" by (rule prod_cases3)
  have "st \<in> S" using S [of st] n by auto
  moreover have "db' = db" "w' = w1" using e by (auto simp: n post calling_idle)
  ultimately show ?thesis using wired_post_keeps [OF g post, of oid st'] by (auto simp: asked_def)
next
  case False
  then have "db' = branch_write (wired net deps) order st m (bs st) db" "w' = w"
    using e by (cases "bs st"; simp)+
  then show ?thesis
    using branch_rows [of oid st' order st "bs st" "wired net deps" m db] S [of st] by (auto simp: branch_orders)
qed

lemma awaited_orders:
  "awaited m q k db = (pc', db') \<Longrightarrow> db' = db \<or> (\<exists>t. db' = snd (q t db))"
  by (auto simp: awaited_def split: stmt_fate.splits)

text \<open>The rows a statement leaves alone are the same for the invariant.\<close>

lemma held_awaited:
  assumes held: "held_by me pc (order_at db oid) (step_status_of db oid) sent dn" and pc: "\<And>res. pc \<noteq> Over res"
    and a: "awaited m q k db = (pc', db')"
    and orders: "\<And>t. saga_orders (snd (q t db)) = saga_orders db"
    and next_: "\<And>t. phase (k (fst (q t db))) = phase pc"
      "\<And>t. undo_known pc (step_status_of db oid) dn \<Longrightarrow>
        undo_known (k (fst (q t db))) (step_status_of (snd (q t db)) oid) dn"
  shows "held_by me pc' (order_at db' oid) (step_status_of db' oid) sent dn"
proof -
  obtain r where r: "order_at db oid = Some r" "o_lease_owner r = Some me" "o_status r = phase pc"
    and H: "undo_known pc (step_status_of db oid) dn" "(\<exists>c. sent (Comp c)) \<longrightarrow> phase pc = COMPENSATING"
    using held unfolding held_going [OF pc] by (elim conjE exE) (rule that)
  have at: "order_at (snd (q t db)) oid = Some r" for t using orders r(1) by (simp add: order_at_def)
  have over: "row_true (Some r) rows sent dn" for rows
    using r(3) H(2) phase_working [of pc] by (simp add: row_true_working [of r])
  have on: "held_by me (k (fst (q t db))) (Some r) (step_status_of (snd (q t db)) oid) sent dn" for t
    unfolding held_by_def using r(2,3) next_(1) [of t] next_(2) [OF H(1)] over by simp
  show ?thesis
  proof (cases "mo_fate m")
    case Stmt_ok
    with a on [of "mo_now m"] show ?thesis by (auto simp: awaited_def at)
  qed (use a over r(1) at in \<open>auto simp: awaited_def\<close>)
qed

text \<open>The two writes of the status, by the run that holds the lease.\<close>

lemma held_status:
  assumes ok: "db_ok db" and a: "awaited m (setOrderStatus oid me status clear err) k db = (pc', db')"
    and held: "held_by me pc (order_at db oid) (step_status_of db oid) sent dn" and pc: "\<And>res. pc \<noteq> Over res"
    and k: "\<And>r. o_lease_owner r = Some me \<Longrightarrow> o_status r = phase pc \<Longrightarrow>
      held_by me (k True) (Some (status_write status clear err r)) (step_status_of db oid) sent dn"
    and k': "\<And>b. k b = k True"
  shows "held_by me pc' (order_at db' oid) (step_status_of db' oid) sent dn"
proof -
  let ?q = "setOrderStatus oid me status clear err"
  obtain r where r: "order_at db oid = Some r" "o_lease_owner r = Some me" "o_status r = phase pc"
    using held held_going [OF pc] by blast
  have q: "order_at (snd (?q t db)) oid = Some (status_write status clear err r)"
    "step_status_of (snd (?q t db)) = step_status_of db" for t
    using set_status_at [OF ok] set_status_near [OF ok] r by auto
  note done_ = k [OF r(2,3)]
  have "held_by me (Over res) (order_at (snd (?q t db)) oid) (step_status_of (snd (?q t db)) oid) sent dn" for t res
    using held_row [OF done_] by (simp add: q)
  moreover have "held_by me (Over res) (order_at db oid) (step_status_of db oid) sent dn" for res
    using held_row [OF held] by simp
  moreover have "held_by me (k b) (order_at (snd (?q t db)) oid) (step_status_of (snd (?q t db)) oid) sent dn" for t b
    using done_ by (simp add: q k' [of b])
  ultimately show ?thesis using a by (cases "mo_fate m") (auto simp: awaited_def)
qed

text \<open>The end of a branch or of all of them.\<close>

lemma held_branches:
  assumes g: "in_order w" and S: "shop.branches_done order (set steps) bs w"
    and e: "branches_go (wired net deps) order frc steps on going (Turn st m) ((bs, db), w) = ((pc', db'), w')"
    and held: "held_by me (on bs) (order_at db (orderId order)) (step_status_of db (orderId order))
      (asked w (orderId order)) (done_at w (orderId order))"
    and on: "\<And>bs res. on bs \<noteq> Over res" "\<And>bs'. phase (on bs') = phase (on bs)"
    and undo: "\<And>c. Comp c \<in> set steps \<Longrightarrow> phase (on bs) = COMPENSATING"
    and known: "\<And>bs' rows dn. undo_known (on bs) (step_status_of db (orderId order)) (done_at w (orderId order)) \<Longrightarrow>
      (\<And>f. Fwd f \<notin> set steps \<Longrightarrow> rows (Fwd f) = step_status_of db (orderId order) (Fwd f)) \<Longrightarrow> undo_known (on bs') rows dn"
    and over: "all_settled steps bs \<Longrightarrow> phase going = phase (on bs) \<and> (\<forall>res. going \<noteq> Over res) \<and>
      (undo_known (on bs) (step_status_of db (orderId order)) (done_at w (orderId order)) \<longrightarrow>
       undo_known going (step_status_of db (orderId order)) (done_at w (orderId order)))"
  shows "held_by me pc' (order_at db' (orderId order)) (step_status_of db' (orderId order))
    (asked w' (orderId order)) (done_at w' (orderId order))"
proof (cases "all_settled steps bs")
  case True
  with e have "pc' = going" "db' = db" "w' = w" by (simp_all add: branches_go_def)
  with held over [OF True] held_going [of going] held_going [of "on bs", OF on(1)] show ?thesis by simp
next
  case False
  obtain bs1 db1 w1 where we: "world_event (wired net deps) order frc (Turn st m) ((bs, db), w) = ((bs1, db1), w1)"
    by (metis prod.collapse)
  with e False have x: "pc' = on bs1" "db' = db1" "w' = w1" by (simp_all add: branches_go_def)
  have settled: "st \<notin> set steps \<Longrightarrow> is_settled (bs st)" for st using S by (simp add: shop.branches_done_def)
  note F = world_frame [where S = "set steps", OF g settled we]
  have at: "order_at db1 (orderId order) = order_at db (orderId order)" using F by (simp add: order_at_def)
  have rows: "Fwd f \<notin> set steps \<Longrightarrow> step_status_of db1 (orderId order) (Fwd f) = step_status_of db (orderId order) (Fwd f)" for f
    using F [where oid = "orderId order" and st' = "Fwd f"] by simp
  have sent: "asked w1 (orderId order) (Comp c) \<Longrightarrow> asked w (orderId order) (Comp c) \<or> phase (on bs) = COMPENSATING" for c
    using F [where oid = "orderId order" and st' = "Comp c"] undo by blast
  show ?thesis
    using held known [where rows = "step_status_of db1 (orderId order)" and dn = "done_at w1 (orderId order)" and bs' = bs1, OF _ rows] sent
    unfolding x held_going [of "on bs", OF on(1)] held_going [of "on bs1", OF on(1)] on(2) [of bs1] at by blast
qed

lemma undo_start_phase: "phase (undo_start needed) = COMPENSATING" "undo_start needed \<noteq> Over res"
  by (simp_all add: undo_start_def Let_def)

lemma mark_next_phase: "phase (mark_next needed cs) = COMPENSATING" "mark_next needed cs \<noteq> Over res"
  by (induction cs) (simp_all add: undo_start_phase)

lemma undo_start_known: "covers needed rows \<Longrightarrow> undo_known (undo_start needed) rows dn"
  using compensation_step_cases by (auto simp: undo_start_def Let_def covers_def undone_def filter_empty_conv)

lemma mark_next_known: "covers needed rows \<Longrightarrow> undo_known (mark_next needed cs) rows dn"
  by (induction cs) (simp_all add: undo_start_known)

lemma undo_over_known:
  assumes t: "shop.going_true order (Undo toRun bs) w" and s: "all_settled (map Comp toRun) bs"
    and c: "covers toRun rows"
  shows "undo_known (undo_over toRun bs) rows (done_at w (orderId order))"
proof -
  have "done_at w (orderId order) (Comp (COMPENSATION_OF f))"
    if none: "failed_branches (map Comp toRun) bs = []" and f: "rows (Fwd f) = Some S_SUCCEEDED" for f
  proof -
    let ?st = "Comp (COMPENSATION_OF f)"
    have st: "?st \<in> set (map Comp toRun)" using c f by (auto simp: covers_def)
    have settled: "is_settled (bs ?st)" using s st unfolding all_settled_def list_all_iff by blast
    have "out_ok (branch_outcome ?st (bs ?st))"
      using none st unfolding failed_branches_def filter_empty_conv set_map by blast
    with settled t show ?thesis by (auto intro: shop.ok_branch_done)
  qed
  then show ?thesis by (auto simp: undo_over_def undone_def)
qed

abbreviation held_run :: "shop SagaDeps \<Rightarrow> ClaimedOrder \<Rightarrow> saga_pc \<Rightarrow> saga_db \<Rightarrow> shop \<Rightarrow> bool" where
  "held_run deps order pc db w \<equiv> held_by (instanceId deps) pc (order_at db (orderId order))
     (step_status_of db (orderId order)) (asked w (orderId order)) (done_at w (orderId order))"

lemma held_branch_turns:
  assumes g: "in_order w" and t: "shop.going_true order pc w" and held: "held_run deps order pc db w"
    and e: "saga_turn (wired net deps) order frc st m ((pc, db), w) = ((pc', db'), w')"
    and pc: "pc = Forward steps bs \<or> pc = Undo toRun bs"
  shows "held_run deps order pc' db' w'"
  using pc
proof
  assume pc: "pc = Forward steps bs"
  have e': "branches_go (wired net deps) order False steps (Forward steps) (forward_over steps bs) (Turn st m) ((bs, db), w) =
      ((pc', db'), w')" using e by (simp add: pc)
  show ?thesis
    by (rule held_branches [OF g _ e']) (use t held in \<open>auto simp: pc forward_over_def\<close>)
next
  assume pc: "pc = Undo toRun bs"
  have e': "branches_go (wired net deps) order frc (map Comp toRun) (Undo toRun) (undo_over toRun bs) (Turn st m) ((bs, db), w) =
      ((pc', db'), w')" using e by (simp add: pc)
  show ?thesis
  proof (rule held_branches [OF g _ e'])
    show "shop.branches_done order (set (map Comp toRun)) bs w" using t by (simp add: pc)
    show "held_run deps order (Undo toRun bs) db w" using held by (simp add: pc)
    show "undo_known (Undo toRun bs') rows dn"
      if "undo_known (Undo toRun bs) (step_status_of db (orderId order)) (done_at w (orderId order))"
        "\<And>f. Fwd f \<notin> set (map Comp toRun) \<Longrightarrow> rows (Fwd f) = step_status_of db (orderId order) (Fwd f)" for bs' rows dn
    proof -
      have "rows (Fwd f) = step_status_of db (orderId order) (Fwd f)" for f by (rule that(2)) auto
      with that(1) show ?thesis by (simp add: covers_def)
    qed
    show "phase (undo_over toRun bs) = phase (Undo toRun bs) \<and> (\<forall>res. undo_over toRun bs \<noteq> Over res) \<and>
        (undo_known (Undo toRun bs) (step_status_of db (orderId order)) (done_at w (orderId order)) \<longrightarrow>
         undo_known (undo_over toRun bs) (step_status_of db (orderId order)) (done_at w (orderId order)))"
      if "all_settled (map Comp toRun) bs"
      using undo_over_known [OF t [unfolded pc] that] by (simp add: undo_over_def)
  qed simp_all
qed

lemma held_turn:
  assumes c: "consistent done_at in_order db w" and t: "shop.going_true order pc w" and held: "held_run deps order pc db w"
    and e: "saga_turn (wired net deps) order frc st m ((pc, db), w) = ((pc', db'), w')"
  shows "held_run deps order pc' db' w'"
proof -
  have g: "in_order w" and ok: "db_ok db" using c by (simp_all add: consistent_def)
  have me: "instanceId (wired net deps) = instanceId deps" by (simp add: wired_def)
  show ?thesis
  proof (cases pc)
    case Init_forward
    with e have a: "awaited m (initSteps (orderId order) (map Fwd FORWARD_STEPS)) (\<lambda>_. Read_statuses) db = (pc', db')" "w' = w" by auto
    show ?thesis unfolding a(2) by (rule held_awaited [OF held _ a(1)]) (simp_all add: Init_forward sql_simps)
  next
    case Read_statuses
    with e have a: "awaited m (getStepStatuses (orderId order)) forward_start db = (pc', db')" "w' = w" by auto
    show ?thesis unfolding a(2)
      by (rule held_awaited [OF held _ a(1)]) (simp_all add: Read_statuses getStepStatuses_def forward_start_def Let_def)
  next
    case (Set_compensating msg)
    with e have a: "awaited m (setOrderStatus (orderId order) (instanceId deps) COMPENSATING False (Some msg)) (\<lambda>_. Read_succeeded) db =
        (pc', db')" "w' = w" by (auto simp: me)
    show ?thesis unfolding a(2)
      by (rule held_status [OF ok a(1) held])
         (simp_all add: Set_compensating held_going status_write_def)
  next
    case Read_succeeded
    with e have a: "awaited m (getSucceededForwardSteps (orderId order))
        (\<lambda>succeeded. Init_undo (map COMPENSATION_OF succeeded)) db = (pc', db')" "w' = w" by auto
    have "snd (getSucceededForwardSteps (orderId order) t db) = db" for t by (simp add: getSucceededForwardSteps_def)
    then show ?thesis unfolding a(2)
      by (intro held_awaited [OF held _ a(1)])
         (auto simp: Read_succeeded covers_def succeeded_forward_iff [OF ok])
  next
    case (Init_undo needed)
    with e have a: "awaited m (initSteps (orderId order) (map Comp COMPENSATION_STEPS))
        (\<lambda>_. mark_next needed COMPENSATION_STEPS) db = (pc', db')" "w' = w" by auto
    show ?thesis unfolding a(2)
      by (rule held_awaited [OF held _ a(1)])
         (auto simp: Init_undo mark_next_phase sql_simps covers_def intro!: mark_next_known)
  next
    case (Undo_marks needed c' rest)
    with e have a: "awaited m (markStepResult (orderId order) (Comp c') S_SKIPPED 0 None) (\<lambda>_. mark_next needed rest) db =
        (pc', db')" "w' = w" by auto
    show ?thesis unfolding a(2)
      by (rule held_awaited [OF held _ a(1)])
         (auto simp: Undo_marks mark_next_phase sql_simps covers_def intro!: mark_next_known)
  next
    case (Set_final status)
    with e have a: "awaited m (setOrderStatus (orderId order) (instanceId deps) status True None) (\<lambda>_. Over (Inr status)) db =
        (pc', db')" "w' = w" by (auto simp: me)
    have "\<not> (\<exists>c. asked w (orderId order) (Comp c)) \<or> status \<noteq> PLACED" "status = CANCELLED \<Longrightarrow>
        undone (step_status_of db (orderId order)) (done_at w (orderId order))"
      using held held_going [of pc] by (auto simp: Set_final split: if_splits)
    with t show ?thesis unfolding a(2)
      by (intro held_status [OF ok a(1) held]) (auto simp: Set_final row_true_def status_write_def)
  next
    case (Over res)
    with e held show ?thesis by simp
  qed (use held_branch_turns [OF g t held e] in blast)+
qed

text \<open>A renewal changes neither owner nor status.\<close>

lemma beat_row:
  assumes "db_ok db"
  shows "order_at (beat deps oid t db) oid' = order_at db oid' \<or>
    (\<exists>r l. order_at db oid' = Some r \<and> order_at (beat deps oid t db) oid' = Some (r\<lparr>o_lease_expires_at := l\<rparr>))"
proof -
  have "order_core_at (beat deps oid t db) oid' = order_core_at db oid'" by (simp add: order_core_at_core)
  then show ?thesis
  proof (cases "order_at db oid'")
    case (Some r)
    with \<open>order_core_at (beat deps oid t db) oid' = order_core_at db oid'\<close> obtain r'
      where r': "order_at (beat deps oid t db) oid' = Some r'" "r'\<lparr>o_lease_expires_at := None\<rparr> = r\<lparr>o_lease_expires_at := None\<rparr>"
      by (auto simp: order_core_at_def)
    then have "r' = r\<lparr>o_lease_expires_at := o_lease_expires_at r'\<rparr>" by (cases r, cases r') simp
    with Some r'(1) show ?thesis by metis
  qed (auto simp: order_core_at_def)
qed

text \<open>Other orders are left alone.\<close>

definition left_alone :: "string \<Rightarrow> saga_db \<Rightarrow> shop \<Rightarrow> saga_db \<Rightarrow> shop \<Rightarrow> bool" where
  "left_alone oid db w db' w' \<longleftrightarrow> order_at db' oid = order_at db oid \<and> step_status_of db' oid = step_status_of db oid \<and>
     (\<forall>st. asked w' oid st \<longrightarrow> asked w oid st)"

lemma statement_frame:
  assumes "saga_turn D order frc st m ((pc, db), w) = ((pc', db'), w')"
    and "saga_turn D order frc st m ((pc, db), w) = (awaited m q k db, w)"
    and "\<And>t. order_at (snd (q t db)) oid = order_at db oid"
    and "\<And>t st. step_status_of (snd (q t db)) oid st = step_status_of db oid st"
  shows "left_alone oid db w db' w'"
proof -
  have "awaited m q k db = (pc', db')" "w' = w" using assms(1,2) by auto
  with awaited_orders [OF this(1)] assms(3,4) show ?thesis by (auto simp: fun_eq_iff left_alone_def)
qed

lemma branches_frame:
  assumes g: "in_order w" and S: "shop.branches_done order (set steps) bs w" and oid: "oid \<noteq> orderId order"
    and b: "branches_go (wired net deps) order frc steps on going (Turn st m) ((bs, db), w) = ((pc', db'), w')"
  shows "left_alone oid db w db' w'"
proof (cases "all_settled steps bs")
  case True
  with b show ?thesis by (simp add: branches_go_def left_alone_def)
next
  case False
  obtain bs1 where we: "world_event (wired net deps) order frc (Turn st m) ((bs, db), w) = ((bs1, db'), w')"
    using b False by (auto simp: branches_go_def split: prod.splits)
  have settled: "st \<notin> set steps \<Longrightarrow> is_settled (bs st)" for st using S by (simp add: shop.branches_done_def)
  from world_frame [where S = "set steps", OF g settled we, of oid] oid show ?thesis
    by (auto simp: order_at_def fun_eq_iff left_alone_def)
qed

lemma turn_frame:
  assumes c: "consistent done_at in_order db w" and t: "shop.going_true order pc w"
    and e: "saga_turn (wired net deps) order frc st m ((pc, db), w) = ((pc', db'), w')" and oid: "oid \<noteq> orderId order"
  shows "left_alone oid db w db' w'"
proof -
  have g: "in_order w" and ok: "db_ok db" using c by (simp_all add: consistent_def)
  note statement = statement_frame [OF e] and branches = branches_frame [OF g _ oid]
  note steps = order_at_def sql_simps oid getStepStatuses_def getSucceededForwardSteps_def
  note status = set_status.frame [OF ok oid] set_status_near [OF ok, THEN conjunct2]
  show ?thesis
  proof (cases pc)
    case (Forward steps bs)
    with e have "branches_go (wired net deps) order False steps (Forward steps) (forward_over steps bs) (Turn st m)
        ((bs, db), w) = ((pc', db'), w')" by simp
    from branches [OF _ this] t Forward show ?thesis by simp
  next
    case (Undo toRun bs)
    with e have "branches_go (wired net deps) order frc (map Comp toRun) (Undo toRun) (undo_over toRun bs) (Turn st m)
        ((bs, db), w) = ((pc', db'), w')" by simp
    from branches [OF _ this] t Undo show ?thesis by simp
  next
    case (Over r)
    with e show ?thesis by (simp add: left_alone_def)
  next
    case (Set_compensating msg)
    show ?thesis
      by (rule statement [where q = "setOrderStatus (orderId order) (instanceId (wired net deps)) COMPENSATING False (Some msg)"])
         (simp_all add: Set_compensating status)
  next
    case (Set_final x)
    show ?thesis
      by (rule statement [where q = "setOrderStatus (orderId order) (instanceId (wired net deps)) x True None"])
         (simp_all add: Set_final status)
  qed (rule statement, simp, simp add: steps, simp add: steps)+
qed

lemma goes_held:
  assumes x: "fleet_true x" "lease_true x" and i: "i < length (fl_procs x)" "leaseholder x i"
  shows "lease_true (proc_goes net i z x)"
proof -
  let ?p = "fl_procs x ! i"
  let ?oid = "orderId (sp_order ?p)"
  obtain pc db w where e: "saga_event (wired net (sp_deps ?p)) (sp_order ?p) (sp_retry ?p) z
      ((sp_pc ?p, fl_db x), fl_world x) = ((pc, db), w)" by (metis prod.collapse)
  have c: "consistent done_at in_order (fl_db x) (fl_world x)" using x by (simp add: fleet_true_def)
  have t: "shop.going_true (sp_order ?p) (sp_pc ?p) (fl_world x)" using x i by (simp add: fleet_true_def)
  have mono: "\<And>oid st. done_at (fl_world x) oid st \<Longrightarrow> done_at w oid st" using shop.saga_event_true [OF c t e] by blast
  note cur = current_update [OF i, of "?p\<lparr>sp_pc := pc\<rparr>", simplified]
  have old: "order_held (order_at (fl_db x) oid) (step_status_of (fl_db x) oid) (asked (fl_world x) oid)
      (done_at (fl_world x) oid) (current (fl_procs x) oid)" for oid using x(2) by (simp add: lease_true_def)
  have own: "held_run (sp_deps ?p) (sp_order ?p) (sp_pc ?p) (fl_db x) (fl_world x)"
    using old [of ?oid] by (simp add: order_held_def current_at [OF i])
  have "order_held (order_at db oid) (step_status_of db oid) (asked w oid) (done_at w oid)
      (current ((fl_procs x)[i := ?p\<lparr>sp_pc := pc\<rparr>]) oid)" for oid
  proof (cases z)
    case (Beat t)
    then have same: "pc = sp_pc ?p" "w = fl_world x" and db: "db = fl_db x \<or> db = beat (wired net (sp_deps ?p)) ?oid t (fl_db x)"
      using e by (auto split: if_splits)
    have "?p\<lparr>sp_pc := pc\<rparr> = ?p" using same(1) by simp
    then have procs: "(fl_procs x)[i := ?p\<lparr>sp_pc := pc\<rparr>] = fl_procs x" by simp
    have rows: "step_status_of db = step_status_of (fl_db x)" using db by auto
    have "order_at db oid = order_at (fl_db x) oid \<or>
        (\<exists>r l. order_at (fl_db x) oid = Some r \<and> order_at db oid = Some (r\<lparr>o_lease_expires_at := l\<rparr>))"
      using db beat_row [of "fl_db x"] c by (auto simp: consistent_def)
    then have "order_held (order_at db oid) (step_status_of (fl_db x) oid) (asked (fl_world x) oid)
        (done_at (fl_world x) oid) (current (fl_procs x) oid)"
    proof (elim disjE exE conjE)
      fix r l assume "order_at (fl_db x) oid = Some r" "order_at db oid = Some (r\<lparr>o_lease_expires_at := l\<rparr>)"
      with old [of oid] order_held_row [of r _ _ _ _ "r\<lparr>o_lease_expires_at := l\<rparr>"] show ?thesis by simp
    qed (use old [of oid] in simp)
    then show ?thesis by (simp only: procs rows same(2))
  next
    case (Turn st m)
    with e have e': "saga_turn (wired net (sp_deps ?p)) (sp_order ?p) (sp_retry ?p) st m ((sp_pc ?p, fl_db x), fl_world x) =
        ((pc, db), w)" by simp
    show ?thesis
    proof (cases "oid = ?oid")
      case True
      with held_turn [OF c t own e'] show ?thesis by (simp add: cur order_held_def)
    next
      case False
      with turn_frame [OF c t e' False] show ?thesis
        by (simp add: cur left_alone_def) (rule order_held_mono [OF old], auto simp: mono)
    qed
  qed
  then show ?thesis by (simp add: proc_goes_def Let_def e lease_true_def)
qed

section \<open>The other steps\<close>

lemma loads_held:
  assumes "order_held row rows sent dn c" and "row = None" and "o_status r = PENDING"
  shows "order_held (Some r) rows sent dn c"
  using assms by (auto simp: order_held_def held_by_def row_true_def split: option.splits)

lemma ships_held:
  assumes "order_held (Some r) rows sent dn c" and "o_status r = PLACED"
  shows "order_held (Some (r\<lparr>o_status := SHIPPED\<rparr>)) rows sent dn c"
proof -
  have "\<exists>res. sp_pc p = Over res" if "c = Some p" for p
    using assms that phase_working [of "sp_pc p"] by (auto simp: order_held_def held_by_def)
  with assms show ?thesis by (auto simp: order_held_def held_by_def row_true_def split: option.splits)
qed

text \<open>Whoever gets an order starts in the phase of its row.\<close>

lemma claimed_held:
  assumes "row_true (Some r) rows sent dn" and "claimable now r"
  shows "held_by me (saga_start (toClaimedOrder r)) (Some (claim_stamp now me ttl r)) rows sent dn"
  using assms by (auto simp: held_by_def row_true_def claimable_def claim_stamp_def saga_start_def toClaimedOrder_def)

lemma retried_held:
  assumes "row_true (Some r) rows sent dn"
  shows "held_by me Read_succeeded (Some (retry_row me ttl now r)) rows sent dn"
  using assms by (auto simp: held_by_def row_true_def retry_row_def)

lemma load_order_at:
  "order_at (db\<lparr>saga_orders := add_order v (saga_orders db)\<rparr>) oid = order_at db oid \<or>
    order_at db oid = None \<and> (\<exists>r. order_at (db\<lparr>saga_orders := add_order v (saga_orders db)\<rparr>) oid = Some r \<and> o_status r = PENDING)"
  by (auto simp: order_at_def add_order_def row_at_append Ingest.new_order_def split: option.splits)

lemma ship_order_at:
  "order_at (snd (markShipped oid now db)) oid' =
    map_option (\<lambda>r. if o_order_id r = oid \<and> o_status r = PLACED then r\<lparr>o_status := SHIPPED\<rparr> else r) (order_at db oid')"
  by (simp add: markShipped_def order_at_def case_prod_beta row_at_update [where k = o_order_id])

lemma claim_order_at:
  assumes "claim_batch_work now locked me n ttl db = (Inr orders, db')" and "db_ok db"
  shows "order_at db' oid =
      map_option (\<lambda>r. if toClaimedOrder r \<in> set orders then claim_stamp now me ttl r else r) (order_at db oid)"
    and "order \<in> set orders \<Longrightarrow> \<exists>r. order_at db (orderId order) = Some r \<and> order = toClaimedOrder r \<and> claimable now r"
proof -
  let ?sel = "claim_select now locked n (saga_orders db)"
  have k: "orders = map toClaimedOrder ?sel"
    "db' = db\<lparr>saga_orders := map (\<lambda>r. if o_id r \<in> set (map o_id ?sel) then claim_stamp now me ttl r else r) (saga_orders db)\<rparr>"
    using assms(1) by (simp_all add: claim_work_eq Let_def)
  have u: "unique_key o_id (saga_orders db)" "unique_key o_order_id (saga_orders db)" using assms(2) by (simp_all add: db_ok_def)
  have iff: "o_id r \<in> set (map o_id ?sel) \<longleftrightarrow> toClaimedOrder r \<in> set orders" if r: "r \<in> set (saga_orders db)" for r
  proof
    assume "o_id r \<in> set (map o_id ?sel)"
    then obtain q where q: "q \<in> set ?sel" "o_id q = o_id r" by auto
    with claim_select_sub [OF q(1)] unique_key_eq [OF u(1), of q r] r have "q = r" by simp
    with q(1) show "toClaimedOrder r \<in> set orders" by (simp add: k)
  next
    assume "toClaimedOrder r \<in> set orders"
    then obtain q where q: "q \<in> set ?sel" "toClaimedOrder q = toClaimedOrder r" by (auto simp: k)
    then have "o_id q = o_id r" by (simp add: toClaimedOrder_def)
    with q(1) show "o_id r \<in> set (map o_id ?sel)" by (metis image_eqI set_map)
  qed
  have "order_at db' oid = map_option (\<lambda>r. if o_id r \<in> set (map o_id ?sel) then claim_stamp now me ttl r else r) (order_at db oid)"
    unfolding k(2) order_at_def by (simp add: row_at_map claim_stamp_def)
  also have "\<dots> = map_option (\<lambda>r. if toClaimedOrder r \<in> set orders then claim_stamp now me ttl r else r) (order_at db oid)"
    using iff row_at_Some_in [of o_order_id oid "saga_orders db"] by (auto simp: order_at_def intro!: option.map_cong)
  finally show "order_at db' oid =
      map_option (\<lambda>r. if toClaimedOrder r \<in> set orders then claim_stamp now me ttl r else r) (order_at db oid)" .
  assume "order \<in> set orders"
  then obtain q where q: "q \<in> set ?sel" "order = toClaimedOrder q" by (auto simp: k)
  with claim_select_sub [OF q(1)] have "order_at db (orderId order) = Some q"
    using unique_key_row_at [OF u(2), of q] by (simp add: order_at_def toClaimedOrder_def)
  with q claim_select_sub [OF q(1)] show "\<exists>r. order_at db (orderId order) = Some r \<and> order = toClaimedOrder r \<and> claimable now r"
    by blast
qed

lemma retry_order_at:
  assumes "db_ok db" and "claimForRetry oid me ttl now db = (granted, db')"
  shows "case granted of
      None \<Rightarrow> db' = db
    | Some order \<Rightarrow> \<exists>r. order_at db oid = Some r \<and> o_status r = NEEDS_ATTENTION \<and> orderId order = oid \<and>
        order_at db' oid = Some (retry_row me ttl now r) \<and> (\<forall>oid'. oid' \<noteq> oid \<longrightarrow> order_at db' oid' = order_at db oid')"
proof (cases "order_at db oid")
  case None
  with assms show ?thesis by (auto simp: claimForRetry_eq)
next
  case (Some r)
  have id: "o_order_id r = oid" using Some row_at_Some_key by (auto simp: order_at_def)
  show ?thesis
  proof (cases "o_status r = NEEDS_ATTENTION")
    case True
    with assms Some have "granted = Some (toClaimedOrder (retry_row me ttl now r))"
      and db': "db' = db\<lparr>saga_orders := fst (sql_update (\<lambda>r. o_order_id r = oid \<and> o_status r = NEEDS_ATTENTION)
                 (retry_row me ttl now) (saga_orders db))\<rparr>" by (simp_all add: claimForRetry_eq)
    moreover have "order_at db' oid' = map_option (\<lambda>r. if o_order_id r = oid \<and> o_status r = NEEDS_ATTENTION
        then retry_row me ttl now r else r) (order_at db oid')" for oid'
      by (simp add: db' order_at_def row_at_update [where k = o_order_id] retry_keys)
    moreover have "oid' \<noteq> oid \<Longrightarrow> order_at db oid' = Some q \<Longrightarrow> o_order_id q \<noteq> oid" for oid' q
      by (auto simp: order_at_def dest: row_at_Some_key)
    ultimately show ?thesis using Some True id
      by (auto simp: toClaimedOrder_def retry_row_def intro!: option.map_ident_strong)
  qed (use assms Some in \<open>auto simp: claimForRetry_eq\<close>)
qed

lemma orders_held:
  assumes "lease_true x" and "saga_steps db' = saga_steps (fl_db x)"
    and "\<And>oid. order_held (order_at (fl_db x) oid) (step_status_of (fl_db x) oid) (asked (fl_world x) oid)
        (done_at (fl_world x) oid) (current (fl_procs x) oid) \<Longrightarrow>
      order_held (order_at db' oid) (step_status_of (fl_db x) oid) (asked (fl_world x) oid)
        (done_at (fl_world x) oid) (current (fl_procs x @ ps) oid)"
  shows "lease_true (x\<lparr>fl_db := db', fl_procs := fl_procs x @ ps\<rparr>)"
proof -
  have "step_status_of db' = step_status_of (fl_db x)" using assms(2) by (simp add: step_status_of_def fun_eq_iff)
  with assms(1,3) show ?thesis by (simp add: lease_true_def)
qed

lemma claims_held:
  assumes x: "fleet_true x" "lease_true x"
    and k: "claim_batch_work now locked (instanceId deps) n ttl (fl_db x) = (Inr orders, db')"
  shows "lease_true (x\<lparr>fl_db := db', fl_procs := fl_procs x @ map (new_saga deps) orders\<rparr>)"
proof (rule orders_held [OF x(2)])
  have ok: "db_ok (fl_db x)" using x(1) by (simp add: fleet_true_def consistent_def)
  note at = claim_order_at [OF k ok]
  show "saga_steps db' = saga_steps (fl_db x)" using k by (auto simp: claim_work_eq Let_def)
  fix oid
  assume old: "order_held (order_at (fl_db x) oid) (step_status_of (fl_db x) oid) (asked (fl_world x) oid)
      (done_at (fl_world x) oid) (current (fl_procs x) oid)"
  show "order_held (order_at db' oid) (step_status_of (fl_db x) oid) (asked (fl_world x) oid)
      (done_at (fl_world x) oid) (current (fl_procs x @ map (new_saga deps) orders) oid)"
  proof (cases "current (map (new_saga deps) orders) oid")
    case None
    then have "\<And>r. order_at (fl_db x) oid = Some r \<Longrightarrow> toClaimedOrder r \<notin> set orders"
      by (fastforce simp: current_None new_saga_def order_at_def toClaimedOrder_def dest: row_at_Some_key)
    with old None show ?thesis
      by (cases "order_at (fl_db x) oid") (simp_all add: current_append at(1))
  next
    case (Some p)
    from current_SomeD [OF Some] obtain order where p: "p = new_saga deps order" "order \<in> set orders" "orderId order = oid"
      by auto
    from at(2) [OF p(2)] p(3) obtain r where r: "order_at (fl_db x) oid = Some r" "order = toClaimedOrder r" "claimable now r"
      by auto
    from claimed_held [OF order_row [OF old [unfolded r(1)]] r(3)] Some p r show ?thesis
      by (simp add: current_append order_held_def at(1) new_saga_def)
  qed
qed

lemma retries_held:
  assumes x: "fleet_true x" "lease_true x"
    and k: "claimForRetry oid (instanceId deps) ttl now (fl_db x) = (granted, db')"
  shows "lease_true (x\<lparr>fl_db := db', fl_procs := fl_procs x @
      (case granted of None \<Rightarrow> [] | Some order \<Rightarrow> [new_retry deps order])\<rparr>)"
proof (rule orders_held [OF x(2)])
  have ok: "db_ok (fl_db x)" using x(1) by (simp add: fleet_true_def consistent_def)
  note at = retry_order_at [OF ok k]
  show "saga_steps db' = saga_steps (fl_db x)" using k by (auto simp: claimForRetry_eq [OF ok] split: option.splits if_splits)
  fix oid'
  assume old: "order_held (order_at (fl_db x) oid') (step_status_of (fl_db x) oid') (asked (fl_world x) oid')
      (done_at (fl_world x) oid') (current (fl_procs x) oid')"
  show "order_held (order_at db' oid') (step_status_of (fl_db x) oid') (asked (fl_world x) oid') (done_at (fl_world x) oid')
      (current (fl_procs x @ (case granted of None \<Rightarrow> [] | Some order \<Rightarrow> [new_retry deps order])) oid')"
  proof (cases granted)
    case None
    with at old show ?thesis by simp
  next
    case (Some order)
    with at obtain r where r: "order_at (fl_db x) oid = Some r" "orderId order = oid"
        "order_at db' oid = Some (retry_row (instanceId deps) ttl now r)" "oid' \<noteq> oid \<Longrightarrow> order_at db' oid' = order_at (fl_db x) oid'"
      by auto
    show ?thesis
    proof (cases "oid' = oid")
      case True
      from retried_held [OF order_row [OF old [unfolded True r(1)]]] r Some True show ?thesis
        by (simp add: current_append order_held_def new_retry_def)
    next
      case False
      with old r Some show ?thesis by (simp add: current_append new_retry_def)
    qed
  qed
qed

lemma loads_step_held:
  assumes "lease_true x"
  shows "lease_true (x\<lparr>fl_db := (fl_db x)\<lparr>saga_orders := add_order v (saga_orders (fl_db x))\<rparr>\<rparr>)"
proof -
  let ?db = "(fl_db x)\<lparr>saga_orders := add_order v (saga_orders (fl_db x))\<rparr>"
  have "lease_true (x\<lparr>fl_db := ?db, fl_procs := fl_procs x @ []\<rparr>)"
  proof (rule orders_held [OF assms])
    fix oid
    assume "order_held (order_at (fl_db x) oid) (step_status_of (fl_db x) oid) (asked (fl_world x) oid)
        (done_at (fl_world x) oid) (current (fl_procs x) oid)"
    with load_order_at [where db = "fl_db x" and v = v and oid = oid]
    show "order_held (order_at ?db oid) (step_status_of (fl_db x) oid) (asked (fl_world x) oid)
        (done_at (fl_world x) oid) (current (fl_procs x @ []) oid)" by (auto intro: loads_held)
  qed simp
  then show ?thesis by simp
qed

lemma ships_step_held:
  assumes "lease_true x"
  shows "lease_true (x\<lparr>fl_db := snd (markShipped oid now (fl_db x))\<rparr>)"
proof -
  let ?db = "snd (markShipped oid now (fl_db x))"
  have "lease_true (x\<lparr>fl_db := ?db, fl_procs := fl_procs x @ []\<rparr>)"
  proof (rule orders_held [OF assms])
    fix oid'
    assume "order_held (order_at (fl_db x) oid') (step_status_of (fl_db x) oid') (asked (fl_world x) oid')
        (done_at (fl_world x) oid') (current (fl_procs x) oid')"
    then show "order_held (order_at ?db oid') (step_status_of (fl_db x) oid') (asked (fl_world x) oid')
        (done_at (fl_world x) oid') (current (fl_procs x @ []) oid')"
      by (cases "order_at (fl_db x) oid'") (auto simp: ship_order_at ships_held)
  qed (simp add: markShipped_def case_prod_beta)
  then show ?thesis by simp
qed

lemma arrives_held:
  assumes "in_order (fl_world x)" and "lease_true x"
  shows "lease_true (x\<lparr>fl_world := arrive_late late (fl_world x)\<rparr>)"
proof -
  note L = arrive_late_keeps [OF assms(1), of late]
  have "order_held (order_at (fl_db x) oid) (step_status_of (fl_db x) oid) (asked (arrive_late late (fl_world x)) oid)
      (done_at (arrive_late late (fl_world x)) oid) (current (fl_procs x) oid)" for oid
    by (rule order_held_mono [of _ _ "asked (fl_world x) oid" "done_at (fl_world x) oid"])
       (use assms(2) L in \<open>auto simp: lease_true_def asked_def sent_at_def\<close>)
  then show ?thesis by (simp add: lease_true_def)
qed

lemma held_step: "fleet_step leaseholder x y \<Longrightarrow> fleet_true x \<Longrightarrow> lease_true x \<Longrightarrow> lease_true y"
proof (induction rule: fleet_step.induct)
  case (arrives x late)
  then show ?case by (intro arrives_held) (simp_all add: fleet_true_def consistent_def)
qed (blast intro: loads_step_held ships_step_held claims_held retries_held goes_held)+

lemma held_reach: "fleet_reach leaseholder x \<Longrightarrow> lease_true x"
proof (induction rule: fleet_reach.induct)
  case (begins st)
  show ?case by (auto simp: lease_true_def order_held_def row_true_def empty_saga_def order_at_def asked_def)
next
  case (step x y)
  with held_step fleet_reach_true show ?case by blast
qed

text \<open>
  C8. The status of an order is true as long as leases are respected. Any number of coordinators, faults
  anywhere, crashes anywhere, retries, late requests: if no run goes on with an order after another run has
  got it, then in every reachable state all four effects of a PLACED or SHIPPED order are live at the
  services, and no step of a CANCELLED order that was recorded SUCCEEDED is.
\<close>

theorem held_status_true:
  assumes "fleet_reach leaseholder x" and "order_at (fl_db x) oid = Some r"
  shows "(o_status r \<in> {PLACED, SHIPPED} \<longrightarrow> live_at f (fl_world x) oid) \<and>
    (o_status r = CANCELLED \<and> step_status_of (fl_db x) oid (Fwd f) = Some S_SUCCEEDED \<longrightarrow> \<not> live_at f (fl_world x) oid)"
proof -
  have T: "in_order (fl_world x)"
    using fleet_reach_true [OF assms(1)] by (simp add: fleet_true_def consistent_def)
  then have live: "live_at f (fl_world x) oid \<longleftrightarrow>
      done_at (fl_world x) oid (Fwd f) \<and> \<not> done_at (fl_world x) oid (Comp (COMPENSATION_OF f))"
    by (intro live_at_exact) (simp add: in_order_def)
  have "row_true (Some r) (step_status_of (fl_db x) oid) (asked (fl_world x) oid) (done_at (fl_world x) oid)"
    using held_reach [OF assms(1)] assms(2) order_row unfolding lease_true_def by metis
  then show ?thesis unfolding live by (auto simp: row_true_def undone_def asked_def)
qed

text \<open>One coordinator, from the claim to the end.\<close>

lemma alone_held: "fl_procs x = [p] \<Longrightarrow> may_go_on leaseholder x 0"
  by (simp add: may_go_on_def leaseholder_def)

theorem held_status_true_witness:
  "\<exists>x r. fleet_reach leaseholder x \<and> order_at (fl_db x) ''A'' = Some r \<and> o_status r = PLACED \<and>
     (\<forall>f. live_at f (fl_world x) ''A'')"
proof -
  let ?x = "fleet_of (claimed_by ''a'' 50) some_stock [saga_at ''a'' some_order Init_forward]"
  let ?net = "quiet_network (\<lambda>_. Delivered)"
  define s where "s = \<lparr>cs_db = claimed_by ''a'' 50, cs_now = 0, cs_world = some_stock, cs_tick = 0, cs_heartbeat = None\<rparr>"
  have R: "fleet_reach leaseholder ?x" by (rule story_claimed)
  have row: "order_core_at (cs_db s) ''A'' = Some ((claim_stamp 50 ''a'' 60000 some_row)\<lparr>o_lease_expires_at := None\<rparr>)"
    by (simp add: s_def claimed_by_def order_core_at_def order_at_def claim_stamp_def some_row_def Ingest.new_order_def some_values_def)
  have "db_ok (cs_db s)"
    using fleet_reach_true [OF R] by (simp add: s_def fleet_true_def consistent_def)
  then obtain s' where run: "runSaga (wired ?net (instance_deps ''a'')) some_order s = (Inr PLACED, s')"
    and S: "order_core_at (cs_db s') ''A'' = map_option (closed_row ''a'' PLACED) (order_core_at (cs_db s) ''A'')"
    using takes_over [of "instance_deps ''a''" ?net some_order s] nothing_done by (auto simp: s_def)
  obtain zs where zs: "saga_run (wired ?net (instance_deps ''a'')) some_order False zs
      ((Init_forward, claimed_by ''a'' 50), some_stock) = ((Over (Inr PLACED), cs_db s'), cs_world s')"
    using saga_machine [OF run] by (auto simp: s_def saga_start_def)
  let ?y = "fleet_of (cs_db s') (cs_world s') [saga_at ''a'' some_order (Over (Inr PLACED))]"
  have "fleet_steps leaseholder ?x ?y"
    using run_in_fleet [where x = ?x and i = 0 and zs = zs and net = ?net and pc = "Over (Inr PLACED)"] zs alone_held [of ?x]
    by (simp add: fleet_of_def)
  then have y: "fleet_reach leaseholder ?y" by (rule fleet_steps_reach) (rule R)
  have "map_option o_status (order_core_at (cs_db s') ''A'') = Some PLACED"
    by (simp add: S row closed_row_def claim_stamp_def status_write_def)
  then obtain r where r: "order_at (fl_db ?y) ''A'' = Some r" "o_status r = PLACED"
    by (auto simp: order_core_at_def)
  have "live_at f (fl_world ?y) ''A''" for f using held_status_true [OF y r(1), of f] r(2) by simp
  with y r show ?thesis by blast
qed

end
