(* ===== verification/Recovery.thy ===== *)
theory Recovery
  imports LeaseHeld
begin

text \<open>
  Every order ends. Whatever state the system has got into, one coordinator whose database works brings any
  unfinished order to an end, whatever the services and the network do to its requests.
\<close>

section \<open>A saga whose statements succeed returns\<close>

lemma executeStep_returns:
  assumes works: "database_works deps"
  shows "\<exists>out s'. executeStep deps order st frc s = (Inr out, s')"
proof -
  obtain t s1 n where t: "execute_try deps order st frc (s, 0) = (t, (s1, n))" by (metis prod.collapse)
  show ?thesis
  proof (cases t)
    case (Inl e)
    let ?q = "markStepResult (orderId order) st S_FAILED n (Some (error_message e))"
    obtain s2 where "query deps ?q s1 = (Inr (), s2)" using query_works [OF works, of ?q s1] by auto
    with t Inl show ?thesis by (simp add: executeStep_def seq_act_Inr ret_act_def)
  qed (use t in \<open>simp add: executeStep_def\<close>)
qed

lemma runConcurrently_returns: "\<exists>outs s'. runConcurrently deps order steps frc s = (Inr outs, s')"
  by (cases "run_branches deps order frc (arrange deps steps) s") (simp add: runConcurrently_def)

lemma compensate_returns:
  assumes works: "database_works deps"
  shows "\<exists>x s'. compensate deps order frc s = (Inr x, s')"
proof -
  obtain succeeded s1 where 1: "query deps (getSucceededForwardSteps (orderId order)) s = (Inr succeeded, s1)"
    using query_works [OF works] by blast
  obtain s2 where 2: "query deps (initSteps (orderId order) (map Comp COMPENSATION_STEPS)) s1 = (Inr (), s2)"
    using query_works [OF works, of "initSteps (orderId order) (map Comp COMPENSATION_STEPS)" s1] by auto
  obtain s3 where 3: "mark_skipped deps (orderId order) (map COMPENSATION_OF succeeded) COMPENSATION_STEPS s2 = (Inr (), s3)"
    using mark_skipped_works [OF works] by blast
  have "\<exists>x s'. undo_needed deps order frc steps s3 = (Inr x, s')" for steps
    using runConcurrently_returns [of deps order steps frc s3]
    by (auto simp: undo_needed_def bind_act_def ret_act_def)
  with 1 2 3 show ?thesis by (simp add: compensate_eq prepare_undo_def bind_act_Inr seq_act_Inr)
qed

lemma rollback_returns:
  assumes works: "database_works deps"
  shows "\<exists>x s'. bind_act (compensate deps order frc) (finish_order deps order') s = (Inr x, s')"
proof -
  obtain x s1 where "compensate deps order frc s = (Inr x, s1)" using compensate_returns [OF works] by blast
  moreover obtain s2 where "finish_order deps order' x s1 = (Inr x, s2)" using finish_works [OF works] by blast
  ultimately show ?thesis by (simp add: bind_act_Inr)
qed

lemma forward_returns:
  assumes works: "database_works deps"
  shows "\<exists>outs s'. forward_phase deps order s = (Inr outs, s')"
proof -
  obtain s1 where 1: "query deps (initSteps (orderId order) (map Fwd FORWARD_STEPS)) s = (Inr (), s1)"
    using query_works [OF works, of "initSteps (orderId order) (map Fwd FORWARD_STEPS)" s] by auto
  obtain existing s2 where 2: "query deps (getStepStatuses (orderId order)) s1 = (Inr existing, s2)"
    using query_works [OF works] by blast
  from 1 2 runConcurrently_returns show ?thesis by (simp add: forward_phase_def bind_act_Inr seq_act_Inr)
qed

lemma runSaga_returns:
  assumes works: "database_works deps"
  shows "\<exists>st s'. runSaga deps order s = (Inr st, s')"
proof -
  have "\<exists>x s'. saga_body deps order s = (Inr x, s')" for s
  proof (cases "claimed_status order = COMPENSATING")
    case True
    then show ?thesis using rollback_returns [OF works] by (simp add: saga_body_def)
  next
    case False
    obtain outs s1 where f: "forward_phase deps order s = (Inr outs, s1)" using forward_returns [OF works] by blast
    show ?thesis
    proof (cases "filter (\<lambda>out. \<not> out_ok out) outs = []")
      case True
      with False f finish_works [OF works, of order PLACED s1] show ?thesis by (auto simp: saga_body_def bind_act_Inr)
    next
      case failed: False
      let ?q = "setOrderStatus (orderId order) (instanceId deps) COMPENSATING False
        (Some (first_error_text (filter (\<lambda>out. \<not> out_ok out) outs)))"
      obtain b s2 where "query deps ?q s1 = (Inr b, s2)" using query_works [OF works] by blast
      with False f failed show ?thesis
        using rollback_returns [OF works, of "order\<lparr>claimed_status := COMPENSATING\<rparr>" False order s2]
        by (simp add: saga_body_def bind_act_Inr Let_def)
    qed
  qed
  from this [of "startHeartbeat (orderId order) s"] show ?thesis by (auto simp: runSaga_def)
qed

section \<open>The claim\<close>

lemma claimed_distinct:
  assumes "unique_key o_order_id rows"
  shows "distinct (map o_order_id (claim_select now locked n rows))"
proof -
  have "distinct (map o_order_id (sort_key o_id (filter P rows)))" for P
    using assms by (auto simp: unique_key_def distinct_map inj_on_def)
  then show ?thesis unfolding claim_select_def take_map [symmetric] by (rule distinct_take)
qed

lemma leaseholder_may: "i < length (fl_procs x) \<Longrightarrow> leaseholder x i \<Longrightarrow> may_go_on leaseholder x i"
  by (simp add: may_go_on_def leaseholder_def)

lemma claimed_leaseholder:
  assumes "fl_procs x = ps @ map (new_saga deps) orders" and "k < length orders" and "distinct (map orderId orders)"
  shows "leaseholder x (length ps + k)"
proof -
  have "orderId (orders ! j) \<noteq> orderId (orders ! k)" if "Suc k \<le> j" "j < length orders" for j
    using that assms(2,3) by (auto simp: distinct_conv_nth)
  then have "current (drop (Suc k) (map (new_saga deps) orders)) (orderId (orders ! k)) = None"
    by (auto simp: current_None in_set_conv_nth new_saga_def)
  with assms(1,2) show ?thesis by (simp add: leaseholder_def nth_append new_saga_def)
qed

lemma fleet_steps_anyone: "fleet_steps may x y \<Longrightarrow> fleet_steps anyone x y"
proof (induction rule: fleet_steps.induct)
  case (more x y z)
  from more.hyps(2) have "fleet_step anyone y z"
    by (induction rule: fleet_step.induct) (auto intro: fleet_step.intros simp: anyone_def)
  with more.IH show ?case by (rule fleet_steps.more)
qed (rule fleet_steps.none)

section \<open>The end\<close>

lemma claim_and_run:
  assumes x: "fleet_true x" and r: "order_at (fl_db x) oid = Some r"
    and sel: "r \<in> set (claim_select now (\<lambda>_. False) n (saga_orders (fl_db x)))"
    and works: "database_works deps"
    and claim: "claim_batch_work now (\<lambda>_. False) (instanceId deps) n (lease_ttlMs deps) (fl_db x) = (Inr orders, db')"
    and y: "y = x\<lparr>fl_db := db', fl_procs := fl_procs x @ map (new_saga deps) orders\<rparr>"
  shows "\<exists>i zs r'. i < length (fl_procs y) \<and> leaseholder y i \<and>
    order_at (fl_db (fold (proc_goes net i) zs y)) oid = Some r' \<and> order_ident r' = order_ident r \<and>
    o_status r' \<in> {PLACED, CANCELLED, NEEDS_ATTENTION} \<and> o_lease_owner r' = None"
proof -
  have ok: "db_ok (fl_db x)" using x by (simp add: fleet_true_def consistent_def)
  have id: "o_order_id r = oid" using r row_at_Some_key by (fastforce simp: order_at_def)
  have orders: "orders = map toClaimedOrder (claim_select now (\<lambda>_. False) n (saga_orders (fl_db x)))"
    using claim by (auto simp: claim_work_eq Let_def)
  then obtain k where k: "k < length orders" "orders ! k = toClaimedOrder r"
    using sel by (metis in_set_conv_nth length_map nth_map)
  have "map orderId orders = map o_order_id (claim_select now (\<lambda>_. False) n (saga_orders (fl_db x)))"
    by (simp add: orders toClaimedOrder_def)
  then have dist: "distinct (map orderId orders)"
    using claimed_distinct [of "saga_orders (fl_db x)"] ok by (simp add: db_ok_def)
  let ?i = "length (fl_procs x) + k"
  have i: "?i < length (fl_procs y)" "leaseholder y ?i"
    using k(1) claimed_leaseholder [where ps = "fl_procs x" and x = y and deps = deps, OF _ k(1) dist] by (simp_all add: y)
  have at: "order_at db' oid = Some (claim_stamp now (instanceId deps) (lease_ttlMs deps) r)"
    using claim_order_at(1) [OF claim ok, of oid] r k nth_mem [OF k(1)] by simp
  have ok': "db_ok db'"
    using x claim fleet_step_true [OF fleet_step.claims [OF claim, of anyone] x]
    by (simp add: fleet_true_def consistent_def)
  define s where "s = \<lparr>cs_db = db', cs_now = 0, cs_world = fl_world x, cs_tick = 0, cs_heartbeat = None\<rparr>"
  obtain st s' where run: "runSaga (wired net deps) (toClaimedOrder r) s = (Inr st, s')"
    using runSaga_returns [of "wired net deps" "toClaimedOrder r" s] works by auto
  have C: "status_fits (cs_db s') oid st" "order_core_at (cs_db s') oid = map_option (\<lambda>r. if o_lease_owner r = Some (instanceId deps)
         then r\<lparr>o_status := st, o_lease_owner := None, o_lease_expires_at := None, o_last_error := None\<rparr> else r)
       (order_core_at db' oid)"
    using runSaga_closes [OF _ run] ok' id by (simp_all add: s_def toClaimedOrder_def wired_def)
  obtain zs where zs: "saga_run (wired net deps) (toClaimedOrder r) False zs ((saga_start (toClaimedOrder r), db'), fl_world x) =
      ((Over (Inr st), cs_db s'), cs_world s')"
    using saga_machine [OF run] by (auto simp: s_def)
  have p: "fl_procs y ! ?i = new_saga deps (toClaimedOrder r)" using k by (simp add: y nth_append)
  have "fl_db (fold (proc_goes net ?i) zs y) = cs_db s'"
  proof -
    have "saga_run (wired net (sp_deps (fl_procs y ! ?i))) (sp_order (fl_procs y ! ?i)) (sp_retry (fl_procs y ! ?i)) zs
        ((sp_pc (fl_procs y ! ?i), fl_db y), fl_world y) = ((Over (Inr st), cs_db s'), cs_world s')"
      using zs unfolding p by (simp add: new_saga_def y)
    from goes_on [OF this i(1)] show ?thesis by simp
  qed
  moreover obtain r' where r': "order_at (cs_db s') oid = Some r'" and
    core: "r'\<lparr>o_lease_expires_at := None\<rparr> = (claim_stamp now (instanceId deps) (lease_ttlMs deps) r)
      \<lparr>o_status := st, o_lease_owner := None, o_lease_expires_at := None, o_last_error := None\<rparr>"
    using C(2) at by (auto simp: order_core_at_def claim_stamp_def)
  moreover have "o_status r' = st" "o_lease_owner r' = None" "order_ident r' = order_ident r"
    using arg_cong [OF core, of o_status] arg_cong [OF core, of o_lease_owner] arg_cong [OF core, of order_ident]
    by (simp_all add: claim_stamp_def order_ident_def)
  moreover have "st \<in> {PLACED, CANCELLED, NEEDS_ATTENTION}" using C(1) by (simp add: status_fits_def)
  ultimately show ?thesis using i by (intro exI [of _ ?i] exI [of _ zs] exI [of _ r']) simp
qed

text \<open>
  C20. Every order ends. In whatever state any number of coordinators have left the system (dead in the middle of
  anything, with leases lost, requests under way), for every order that is neither finished nor waiting for a person
  and from some time on: one claim by a coordinator whose database works, and that coordinator's run of the order,
  bring it to PLACED, CANCELLED or NEEDS_ATTENTION with its data unchanged and its lease given back, whatever the network
  and the services do to the requests of that run. The steps are steps of the fleet, and respect leases.
\<close>

theorem every_order_ends:
  fixes deps :: "shop SagaDeps"
  assumes "fleet_reach may x" and "order_at (fl_db x) oid = Some r"
    and "o_status r \<notin> {PLACED, CANCELLED, NEEDS_ATTENTION, SHIPPED}" and "database_works deps"
  shows "\<exists>t. \<forall>now > t. \<exists>y i zs r'.
    fleet_step leaseholder x y \<and> fleet_steps leaseholder y (fold (proc_goes net i) zs y) \<and>
    order_at (fl_db (fold (proc_goes net i) zs y)) oid = Some r' \<and> order_ident r' = order_ident r \<and>
    o_status r' \<in> {PLACED, CANCELLED, NEEDS_ATTENTION} \<and> o_lease_owner r' = None \<and>
    snd (claim_batch_work now (\<lambda>_. False) (instanceId deps) (length (saga_orders (fl_db x))) (lease_ttlMs deps) (fl_db x)) = fl_db y"
proof -
  let ?n = "length (saga_orders (fl_db x))"
  have x: "fleet_true x" by (rule fleet_reach_true [OF assms(1)])
  then obtain t where t: "\<forall>now > t. r \<in> set (claim_select now (\<lambda>_. False) ?n (saga_orders (fl_db x)))"
    using unfinished_orders_claimable [OF _ assms(2,3)] by (auto simp: fleet_true_def)
  show ?thesis
  proof (intro exI [of _ t] allI impI)
    fix now assume now: "t < now"
    obtain orders db' where claim:
      "claim_batch_work now (\<lambda>_. False) (instanceId deps) ?n (lease_ttlMs deps) (fl_db x) = (Inr orders, db')"
      by (simp add: claim_work_eq Let_def)
    let ?y = "x\<lparr>fl_db := db', fl_procs := fl_procs x @ map (new_saga deps) orders\<rparr>"
    from claim_and_run [OF x assms(2) _ assms(4) claim refl, of net] t now obtain i zs r' where
      R: "i < length (fl_procs ?y)" "leaseholder ?y i" "order_at (fl_db (fold (proc_goes net i) zs ?y)) oid = Some r'"
        "order_ident r' = order_ident r" "o_status r' \<in> {PLACED, CANCELLED, NEEDS_ATTENTION}" "o_lease_owner r' = None"
      by blast
    have "fleet_step leaseholder x ?y" by (rule fleet_step.claims [OF claim])
    moreover have "fleet_steps leaseholder ?y (fold (proc_goes net i) zs ?y)"
      by (rule goes_in_fleet [OF R(1) leaseholder_may [OF R(1,2)]])
    ultimately show "\<exists>y i zs r'. fleet_step leaseholder x y \<and> fleet_steps leaseholder y (fold (proc_goes net i) zs y) \<and>
        order_at (fl_db (fold (proc_goes net i) zs y)) oid = Some r' \<and> order_ident r' = order_ident r \<and>
        o_status r' \<in> {PLACED, CANCELLED, NEEDS_ATTENTION} \<and> o_lease_owner r' = None \<and>
        snd (claim_batch_work now (\<lambda>_. False) (instanceId deps) ?n (lease_ttlMs deps) (fl_db x)) = fl_db y"
      using R(3-6) claim by (intro exI [of _ ?y] exI [of _ i] exI [of _ zs] exI [of _ r']) simp
  qed
qed

text \<open>A coordinator that died right after its claim, and a network that loses every request.\<close>

theorem every_order_ends_witness:
  "\<exists>now y i zs r'. fleet_step leaseholder (fleet_of (claimed_by ''a'' 50) some_stock [saga_at ''a'' some_order Init_forward]) y \<and>
     order_at (fl_db (fold (proc_goes (quiet_network (\<lambda>_. Request_lost syntax_error)) i) zs y)) ''A'' = Some r' \<and>
     o_status r' \<in> {PLACED, CANCELLED, NEEDS_ATTENTION} \<and> o_qty r' = 2"
proof -
  let ?x = "fleet_of (claimed_by ''a'' 50) some_stock [saga_at ''a'' some_order Init_forward]"
  let ?r = "claim_stamp 50 ''a'' 60000 some_row"
  have row: "order_at (fl_db ?x) ''A'' = Some ?r"
    by (simp add: claimed_by_def order_at_def claim_stamp_def some_row_def Ingest.new_order_def some_values_def)
  have r: "o_status ?r \<notin> {PLACED, CANCELLED, NEEDS_ATTENTION, SHIPPED}" "o_qty ?r = 2"
    by (simp_all add: claim_stamp_def some_row_def Ingest.new_order_def some_values_def)
  have works: "database_works (instance_deps ''b'')" by simp
  have R: "fleet_reach anyone ?x" by (rule story_claimed)
  let ?net = "quiet_network (\<lambda>_. Request_lost syntax_error)"
  have "\<exists>y i zs r'. fleet_step leaseholder ?x y \<and> order_at (fl_db (fold (proc_goes ?net i) zs y)) ''A'' = Some r' \<and>
      order_ident r' = order_ident ?r \<and> o_status r' \<in> {PLACED, CANCELLED, NEEDS_ATTENTION}"
    by (rule exE [OF every_order_ends [OF R row r(1) works, where net = ?net]], drule spec, drule mp, rule less_add_one)
       (elim exE conjE, intro exI conjI, assumption+)
  moreover have "order_ident r' = order_ident ?r \<Longrightarrow> o_qty r' = 2" for r'
    using r(2) by (simp add: order_ident_def)
  ultimately show ?thesis by blast
qed

end
