(* ===== verification/WebList.thy ===== *)
theory WebList
  imports Api
begin

text \<open>
  The order list of the web UI: web/src/app/core/models.ts, core/api.ts and
  features/order-list/order-list.ts. The component's signals are a record, with the requests whose
  observables have been subscribed to and have not answered yet, oldest first. Clicks, the timer and
  the answers are events; answers may come in any order. Rendering is left out.
\<close>

section \<open>The JSON contract\<close>

definition ALL_STATUSES :: "order_status list" where
  "ALL_STATUSES = [PENDING, IN_PROGRESS, PLACED, COMPENSATING, CANCELLED, NEEDS_ATTENTION, SHIPPED]"

fun status_text :: "order_status \<Rightarrow> string" where
  "status_text PENDING = ''PENDING''"
| "status_text IN_PROGRESS = ''IN_PROGRESS''"
| "status_text PLACED = ''PLACED''"
| "status_text COMPENSATING = ''COMPENSATING''"
| "status_text CANCELLED = ''CANCELLED''"
| "status_text NEEDS_ATTENTION = ''NEEDS_ATTENTION''"
| "status_text SHIPPED = ''SHIPPED''"

fun STATUS_LABEL :: "order_status \<Rightarrow> string" where
  "STATUS_LABEL PENDING = ''Pending''"
| "STATUS_LABEL IN_PROGRESS = ''In progress''"
| "STATUS_LABEL PLACED = ''Placed''"
| "STATUS_LABEL COMPENSATING = ''Compensating''"
| "STATUS_LABEL CANCELLED = ''Cancelled''"
| "STATUS_LABEL NEEDS_ATTENTION = ''Needs attention''"
| "STATUS_LABEL SHIPPED = ''Shipped''"

section \<open>The Api service\<close>

definition web_listOrders :: "order_status option \<Rightarrow> int \<Rightarrow> nat \<Rightarrow> api_request" where
  "web_listOrders status page pageSize =
     Get_orders (case status of None \<Rightarrow> Q_absent | Some s \<Rightarrow> Q_text (status_text s))
       (Q_text (show_int page)) (Q_text (show_int (int pageSize)))"

definition web_getOrder :: "string \<Rightarrow> api_request" where
  "web_getOrder oid = Get_order oid"

definition web_getStats :: api_request where
  "web_getStats = Get_stats"

definition web_retry :: "string \<Rightarrow> api_request" where
  "web_retry oid = Post_retry oid"

definition web_markShipped :: "string \<Rightarrow> api_request" where
  "web_markShipped oid = Post_mark_shipped oid"

text \<open>
  What HttpClient makes of a reply: a status outside 200-299 goes to the error callback as an
  HttpErrorResponse, which is not an instance of Error.
\<close>

definition web_answer :: "api_reply \<Rightarrow> js_value + api_body" where
  "web_answer rep = (if 200 \<le> rep_status rep \<and> rep_status rep \<le> 299 then Inr (rep_body rep)
     else Inl (PlainObject None None))"

definition shown_error :: "js_value \<Rightarrow> string \<Rightarrow> string" where
  "shown_error err fallback = (if is_Error err then error_message err else fallback)"

section \<open>The component\<close>

record order_list =
  ol_orders :: "OrderListItem list"
  ol_total :: nat
  ol_page :: int
  ol_pageSize :: nat
  ol_statusFilter :: "order_status option"
  ol_loading :: bool
  ol_error :: "string option"
  ol_stats :: "(order_status \<times> nat) list"
  ol_autoRefresh :: bool
  ol_busyOrderId :: "string option"
  ol_sent :: "api_request list"

definition totalPages :: "order_list \<Rightarrow> int" where
  "totalPages v = max 1 \<lceil>of_nat (ol_total v) / (of_nat (ol_pageSize v) :: rat)\<rceil>"

definition stat_count :: "order_list \<Rightarrow> order_status \<Rightarrow> nat" where
  "stat_count v status = (case map_of (ol_stats v) status of None \<Rightarrow> 0 | Some n \<Rightarrow> n)"

definition send_request :: "api_request \<Rightarrow> order_list \<Rightarrow> order_list" where
  "send_request req v = v\<lparr>ol_sent := ol_sent v @ [req]\<rparr>"

definition list_request :: "order_list \<Rightarrow> api_request" where
  "list_request v = web_listOrders (ol_statusFilter v) (ol_page v) (ol_pageSize v)"

definition load :: "order_list \<Rightarrow> order_list" where
  "load v = send_request (list_request v) (v\<lparr>ol_loading := True, ol_error := None\<rparr>)"

definition loadStats :: "order_list \<Rightarrow> order_list" where
  "loadStats v = send_request web_getStats v"

definition new_list :: order_list where
  "new_list = loadStats (load \<lparr>ol_orders = [], ol_total = 0, ol_page = 1, ol_pageSize = 25,
     ol_statusFilter = None, ol_loading = False, ol_error = None, ol_stats = [], ol_autoRefresh = False,
     ol_busyOrderId = None, ol_sent = []\<rparr>)"

definition timer_fires :: "order_list \<Rightarrow> order_list" where
  "timer_fires v = (if ol_autoRefresh v then loadStats (load v) else v)"

definition setStatus :: "order_status option \<Rightarrow> order_list \<Rightarrow> order_list" where
  "setStatus status v = load (v\<lparr>ol_statusFilter := status, ol_page := 1\<rparr>)"

definition goTo :: "int \<Rightarrow> order_list \<Rightarrow> order_list" where
  "goTo page v = (if page < 1 \<or> page > totalPages v then v else load (v\<lparr>ol_page := page\<rparr>))"

definition toggleAutoRefresh :: "order_list \<Rightarrow> order_list" where
  "toggleAutoRefresh v = v\<lparr>ol_autoRefresh := \<not> ol_autoRefresh v\<rparr>"

definition list_retry :: "string \<Rightarrow> order_list \<Rightarrow> order_list" where
  "list_retry oid v = send_request (web_retry oid) (v\<lparr>ol_busyOrderId := Some oid\<rparr>)"

definition list_markShipped :: "string \<Rightarrow> order_list \<Rightarrow> order_list" where
  "list_markShipped oid v = send_request (web_markShipped oid) (v\<lparr>ol_busyOrderId := Some oid\<rparr>)"

text \<open>The callbacks passed to \<open>subscribe\<close>.\<close>

definition list_answered :: "js_value + api_body \<Rightarrow> order_list \<Rightarrow> order_list" where
  "list_answered ans v = (case ans of
     Inr (B_page page) \<Rightarrow> v\<lparr>ol_orders := lp_items page, ol_total := lp_total page, ol_loading := False\<rparr>
   | Inr _ \<Rightarrow> v
   | Inl err \<Rightarrow> v\<lparr>ol_error := Some (shown_error err ''Failed to load orders''), ol_loading := False\<rparr>)"

definition stats_answered :: "js_value + api_body \<Rightarrow> order_list \<Rightarrow> order_list" where
  "stats_answered ans v = (case ans of Inr (B_stats s) \<Rightarrow> v\<lparr>ol_stats := s\<rparr> | _ \<Rightarrow> v)"

definition action_answered :: "string \<Rightarrow> js_value + api_body \<Rightarrow> order_list \<Rightarrow> order_list" where
  "action_answered fallback ans v = (case ans of
     Inr _ \<Rightarrow> loadStats (load (v\<lparr>ol_busyOrderId := None\<rparr>))
   | Inl err \<Rightarrow> v\<lparr>ol_busyOrderId := None, ol_error := Some (shown_error err fallback)\<rparr>)"

definition on_answer :: "api_request \<Rightarrow> js_value + api_body \<Rightarrow> order_list \<Rightarrow> order_list" where
  "on_answer req ans v = (case req of
     Get_orders _ _ _ \<Rightarrow> list_answered ans v
   | Get_stats \<Rightarrow> stats_answered ans v
   | Post_retry _ \<Rightarrow> action_answered ''Retry failed'' ans v
   | Post_mark_shipped _ \<Rightarrow> action_answered ''Mark shipped failed'' ans v
   | _ \<Rightarrow> v)"

datatype list_event =
    Click_status "order_status option"
  | Click_page int
  | Click_auto
  | Click_refresh
  | Timer
  | Click_retry string
  | Click_shipped string
  | Answer nat "js_value + api_body"

fun list_step :: "list_event \<Rightarrow> order_list \<Rightarrow> order_list" where
  "list_step (Click_status s) v = setStatus s v"
| "list_step (Click_page p) v = goTo p v"
| "list_step Click_auto v = toggleAutoRefresh v"
| "list_step Click_refresh v = loadStats (load v)"
| "list_step Timer v = timer_fires v"
| "list_step (Click_retry oid) v = list_retry oid v"
| "list_step (Click_shipped oid) v = list_markShipped oid v"
| "list_step (Answer i ans) v =
     (if i < length (ol_sent v)
      then on_answer (ol_sent v ! i) ans (v\<lparr>ol_sent := take i (ol_sent v) @ drop (Suc i) (ol_sent v)\<rparr>)
      else v)"

text \<open>A session, with the requests answered so far and their answers.\<close>

type_synonym exchange = "api_request \<times> (js_value + api_body)"

fun exchanged :: "list_event \<Rightarrow> order_list \<Rightarrow> exchange list" where
  "exchanged (Answer i ans) v = (if i < length (ol_sent v) then [(ol_sent v ! i, ans)] else [])"
| "exchanged _ v = []"

definition list_session :: "list_event list \<Rightarrow> order_list \<times> exchange list" where
  "list_session evs = fold (\<lambda>e (v, ex). (list_step e v, ex @ exchanged e v)) evs (new_list, [])"

section \<open>What the table shows\<close>

fun is_list :: "api_request \<Rightarrow> bool" where
  "is_list (Get_orders _ _ _) = True"
| "is_list _ = False"

text \<open>The answers come back in the order the requests went out.\<close>

fun in_turn :: "list_event \<Rightarrow> bool" where
  "in_turn (Answer i _) = (i = 0)"
| "in_turn _ = True"

definition lists_under_way :: "order_list \<Rightarrow> api_request list" where
  "lists_under_way v = filter is_list (ol_sent v)"

definition list_exchanges :: "exchange list \<Rightarrow> exchange list" where
  "list_exchanges ex = filter (\<lambda>x. is_list (fst x)) ex"

definition session_inv :: "order_list \<times> exchange list \<Rightarrow> bool" where
  "session_inv = (\<lambda>(v, ex). 1 \<le> ol_page v \<and> ol_pageSize v = 25 \<and>
     (if lists_under_way v = [] then list_exchanges ex \<noteq> [] \<and> fst (last (list_exchanges ex)) = list_request v
      else last (lists_under_way v) = list_request v) \<and>
     (\<forall>req page. list_exchanges ex \<noteq> [] \<longrightarrow> last (list_exchanges ex) = (req, Inr (B_page page)) \<longrightarrow>
        ol_orders v = lp_items page \<and> ol_total v = lp_total page))"

lemma web_lists [simp]: "is_list (web_listOrders s p n)" "\<not> is_list web_getStats" "\<not> is_list (web_retry oid)"
    "\<not> is_list (web_markShipped oid)"
  by (simp_all add: web_listOrders_def web_getStats_def web_retry_def web_markShipped_def)

lemma send_under_way [simp]:
  "lists_under_way (send_request req v) = lists_under_way v @ (if is_list req then [req] else [])"
  "list_request (send_request req v) = list_request v"
  by (simp_all add: send_request_def lists_under_way_def list_request_def)

lemma load_under_way [simp]: "lists_under_way (load v) = lists_under_way v @ [list_request v]"
  "list_request (load v) = list_request v"
  by (simp_all add: load_def send_request_def lists_under_way_def list_request_def)

lemma sent_fields [simp]:
  "ol_page (send_request req v) = ol_page v" "ol_pageSize (send_request req v) = ol_pageSize v"
  "ol_orders (send_request req v) = ol_orders v" "ol_total (send_request req v) = ol_total v"
  "ol_page (load v) = ol_page v" "ol_pageSize (load v) = ol_pageSize v"
  "ol_orders (load v) = ol_orders v" "ol_total (load v) = ol_total v"
  by (simp_all add: load_def send_request_def)

lemma inv_load:
  assumes "session_inv (v, ex)" and "ol_orders v' = ol_orders v" and "ol_total v' = ol_total v"
    and "1 \<le> ol_page v'" and "ol_pageSize v' = ol_pageSize v"
  shows "session_inv (load v', ex)"
  using assms by (simp add: session_inv_def)

lemma inv_send:
  assumes "session_inv (v, ex)" and "\<not> is_list req"
  shows "session_inv (send_request req v, ex)"
  using assms by (simp add: session_inv_def)

lemma inv_same:
  assumes "session_inv (v, ex)" and "ol_orders v' = ol_orders v" and "ol_total v' = ol_total v"
    and "ol_page v' = ol_page v" and "ol_pageSize v' = ol_pageSize v"
    and "ol_statusFilter v' = ol_statusFilter v" and "ol_sent v' = ol_sent v"
  shows "session_inv (v', ex)"
proof -
  have "lists_under_way v' = lists_under_way v" "list_request v' = list_request v"
    using assms(4-7) by (simp_all add: lists_under_way_def list_request_def)
  then show ?thesis using assms by (simp add: session_inv_def)
qed

lemma inv_pop:
  assumes inv: "session_inv (v, ex)" and sent: "ol_sent v = req # rest" and other: "\<not> is_list req"
  shows "session_inv (v\<lparr>ol_sent := rest\<rparr>, ex @ [(req, ans)])"
proof -
  have "lists_under_way (v\<lparr>ol_sent := rest\<rparr>) = lists_under_way v" "list_request (v\<lparr>ol_sent := rest\<rparr>) = list_request v"
      "list_exchanges (ex @ [(req, ans)]) = list_exchanges ex"
    using sent other by (simp_all add: lists_under_way_def list_request_def list_exchanges_def)
  then show ?thesis using inv by (simp add: session_inv_def)
qed

lemma inv_list_answer:
  assumes inv: "session_inv (v, ex)" and sent: "ol_sent v = req # rest" and lst: "is_list req"
  shows "session_inv (list_answered ans (v\<lparr>ol_sent := rest\<rparr>), ex @ [(req, ans)])"
proof -
  let ?v = "list_answered ans (v\<lparr>ol_sent := rest\<rparr>)"
  have req: "list_request ?v = list_request v" "ol_page ?v = ol_page v" "ol_pageSize ?v = ol_pageSize v"
      "ol_sent ?v = rest"
    by (auto simp: list_answered_def list_request_def split: sum.splits api_body.splits)
  have ex: "list_exchanges (ex @ [(req, ans)]) = list_exchanges ex @ [(req, ans)]"
    using lst by (simp add: list_exchanges_def)
  have under: "lists_under_way v = req # lists_under_way ?v"
    using sent lst req(4) by (simp add: lists_under_way_def)
  have shown: "ol_orders ?v = lp_items page \<and> ol_total ?v = lp_total page" if "ans = Inr (B_page page)" for page
    using that by (simp add: list_answered_def)
  show ?thesis
    using inv req(1-3) under shown by (simp add: session_inv_def ex) (auto split: if_splits)
qed

lemma inv_action_answer:
  assumes "session_inv (v, ex)"
  shows "session_inv (action_answered m ans v, ex)"
proof (cases ans)
  case (Inl err)
  show ?thesis by (rule inv_same [OF assms]) (simp_all add: action_answered_def Inl)
next
  case (Inr b)
  have "session_inv (load (v\<lparr>ol_busyOrderId := None\<rparr>), ex)"
    by (rule inv_load [OF assms]) (use assms in \<open>simp_all add: session_inv_def\<close>)
  then show ?thesis by (simp add: action_answered_def Inr loadStats_def inv_send)
qed

lemma list_step_inv:
  assumes inv: "session_inv (v, ex)" and turn: "in_turn e"
  shows "session_inv (list_step e v, ex @ exchanged e v)"
proof -
  have page: "1 \<le> ol_page v" using inv by (simp add: session_inv_def)
  have reload: "session_inv (load v, ex)" by (rule inv_load [OF inv]) (use page in simp_all)
  show ?thesis
  proof (cases e)
    case (Click_status st)
    have "session_inv (load (v\<lparr>ol_statusFilter := st, ol_page := 1\<rparr>), ex)" by (rule inv_load [OF inv]) simp_all
    then show ?thesis by (simp add: Click_status setStatus_def)
  next
    case (Click_page p)
    have "session_inv (load (v\<lparr>ol_page := p\<rparr>), ex)" if "1 \<le> p"
      by (rule inv_load [OF inv]) (use that in simp_all)
    with inv show ?thesis by (simp add: Click_page goTo_def)
  next
    case Click_auto
    have "session_inv (toggleAutoRefresh v, ex)" by (rule inv_same [OF inv]) (simp_all add: toggleAutoRefresh_def)
    then show ?thesis by (simp add: Click_auto)
  next
    case (Click_retry oid)
    have "session_inv (v\<lparr>ol_busyOrderId := Some oid\<rparr>, ex)" by (rule inv_same [OF inv]) simp_all
    then show ?thesis by (simp add: Click_retry list_retry_def inv_send)
  next
    case (Click_shipped oid)
    have "session_inv (v\<lparr>ol_busyOrderId := Some oid\<rparr>, ex)" by (rule inv_same [OF inv]) simp_all
    then show ?thesis by (simp add: Click_shipped list_markShipped_def inv_send)
  next
    case (Answer i ans)
    with turn have i: "i = 0" by simp
    show ?thesis
    proof (cases "ol_sent v")
      case Nil
      with inv show ?thesis by (simp add: Answer)
    next
      case (Cons req rest)
      let ?v = "v\<lparr>ol_sent := rest\<rparr>"
      have st: "list_step e v = on_answer req ans ?v" "exchanged e v = [(req, ans)]"
        using Cons by (simp_all add: Answer i)
      show ?thesis
      proof (cases "is_list req")
        case True
        then obtain a b c where "req = Get_orders a b c" by (cases req) auto
        with inv_list_answer [OF inv Cons True, of ans] st show ?thesis by (simp add: on_answer_def)
      next
        case False
        note P = inv_pop [OF inv Cons False, of ans]
        have "session_inv (stats_answered ans ?v, ex @ [(req, ans)])"
          by (rule inv_same [OF P]) (auto simp: stats_answered_def split: sum.splits api_body.splits)
        with st P False inv_action_answer [OF P] show ?thesis
          by (cases req) (simp_all add: on_answer_def)
      qed
    qed
  qed (use reload inv in \<open>auto simp: timer_fires_def loadStats_def inv_send\<close>)
qed

lemma new_list_inv: "session_inv (new_list, [])"
  by (simp add: session_inv_def new_list_def loadStats_def load_def send_request_def lists_under_way_def
    list_request_def list_exchanges_def)

lemma list_session_inv: "list_all in_turn evs \<Longrightarrow> session_inv (list_session evs)"
proof -
  have "list_all in_turn evs \<Longrightarrow> session_inv s \<Longrightarrow>
      session_inv (fold (\<lambda>e (v, ex). (list_step e v, ex @ exchanged e v)) evs s)" for s
    by (induction evs arbitrary: s) (auto intro: list_step_inv)
  from this [OF _ new_list_inv] show "list_all in_turn evs \<Longrightarrow> session_inv (list_session evs)"
    by (simp add: list_session_def)
qed

lemma status_text_param [simp]: "status_param (Q_text (status_text st)) = Some st"
  by (cases st) (simp_all add: status_param_def VALID_STATUSES_def)

text \<open>
  C37. The table of the UI shows what its controls say. In any session of clicks, refreshes and
  timers in which answers come in the order of their requests, once no list request is under way
  and the last one was answered by the coordinator's API, the rows are the page of the database
  that the filter and the page number select, newest orders first, and the total counts the
  matching orders.
\<close>

theorem list_shows_its_page:
  assumes "list_all in_turn evs" and "list_session evs = (v, ex)" and "lists_under_way v = []"
    and "last (list_exchanges ex) = (req, web_answer (fst (createApi ad req s)))"
    and "dep_fate (ad_saga ad) = (\<lambda>_. Stmt_ok)" and "ol_page v < 2 ^ 50"
  shows "ol_orders v = map (list_item (cs_db s))
      (take 25 (drop ((nat (ol_page v) - 1) * 25) (newest_first (ol_statusFilter v) (cs_db s)))) \<and>
    ol_total v = length (newest_first (ol_statusFilter v) (cs_db s))"
proof -
  have inv: "1 \<le> ol_page v" "ol_pageSize v = 25" "list_exchanges ex \<noteq> []" "req = list_request v"
      "\<And>page. web_answer (fst (createApi ad req s)) = Inr (B_page page) \<Longrightarrow>
         ol_orders v = lp_items page \<and> ol_total v = lp_total page"
    using list_session_inv [OF assms(1)] assms(2-4) by (auto simp: session_inv_def)
  define p where "p = nat (ol_page v) - 1"
  have p: "ol_page v = int (Suc p)" using inv(1) by (simp add: p_def)
  have small: "Suc p < 2 ^ 64" "p * 200 < 2 ^ 64" using assms(6) p by simp_all
  let ?q = "case ol_statusFilter v of None \<Rightarrow> Q_absent | Some s \<Rightarrow> Q_text (status_text s)"
  have filt: "status_param ?q = ol_statusFilter v"
    by (cases "ol_statusFilter v") (simp_all add: status_param_def [of Q_absent])
  have "createApi ad req s = createApi ad (Get_orders ?q (Q_text (show_int (int (Suc p)))) (Q_text (show_int (int 25)))) s"
    by (simp add: inv(4) list_request_def web_listOrders_def p inv(2))
  with list_route_page [of ad s 25 p ?q] assms(5) small filt inv(5)
  have "ol_orders v = map (list_item (cs_db s)) (take 25 (drop (p * 25) (newest_first (ol_statusFilter v) (cs_db s)))) \<and>
      ol_total v = length (newest_first (ol_statusFilter v) (cs_db s))"
    by (simp add: web_answer_def json_reply_def)
  then show ?thesis unfolding p_def .
qed

theorem list_shows_its_page_witness:
  "ol_total (fst (list_session [Answer 0 (web_answer (fst (createApi (sample_api 200) (list_request new_list)
     (sample_state PLACED))))])) = 1"
proof -
  let ?a = "web_answer (fst (createApi (sample_api 200) (list_request new_list) (sample_state PLACED)))"
  have sent: "ol_sent new_list = [list_request new_list, web_getStats]"
    by (simp add: new_list_def loadStats_def load_def send_request_def list_request_def)
  have lst: "is_list (list_request v)" for v by (simp add: list_request_def)
  let ?v = "list_answered ?a (new_list\<lparr>ol_sent := [web_getStats]\<rparr>)"
  have "list_step (Answer 0 ?a) new_list = ?v"
    using sent by (simp add: on_answer_def list_request_def web_listOrders_def)
  then have run: "list_session [Answer 0 ?a] = (?v, [(list_request new_list, ?a)])"
    using sent by (simp add: list_session_def)
  have v: "ol_sent ?v = [web_getStats]" "ol_page ?v = 1" "ol_statusFilter ?v = None"
    by (auto simp: list_answered_def new_list_def loadStats_def load_def send_request_def
        split: sum.splits api_body.splits)
  have "ol_total ?v = length (newest_first None (cs_db (sample_state PLACED)))"
    using list_shows_its_page [OF _ run, of "list_request new_list" "sample_api 200" "sample_state PLACED"] v lst
    by (simp add: lists_under_way_def list_exchanges_def sample_api_def log_deps_def)
  moreover have "length (newest_first None (cs_db (sample_state PLACED))) = 1"
    by (simp add: newest_first_def sample_state_def list_where_def)
  ultimately show ?thesis by (simp only: run fst_conv)
qed

text \<open>
  Nothing cancels a request that another has overtaken. A reachable session: the filter PLACED is
  clicked before the first answer is there, the answer of the filtered request comes first, the
  answer of the older one second. No request is under way any more and the filter reads PLACED,
  but the table has the unfiltered page.
\<close>

definition page_of :: "OrderListItem list \<Rightarrow> api_body" where
  "page_of items = B_page \<lparr>lp_items = items, lp_total = length items, lp_page = Finite 1, lp_pageSize = Finite 25\<rparr>"

theorem stale_answer_wins:
  "\<exists>evs v. fst (list_session evs) = v \<and> ol_sent v = [] \<and> \<not> ol_loading v \<and> ol_error v = None \<and>
     ol_statusFilter v = Some PLACED \<and> map li_status (ol_orders v) = [CANCELLED]"
proof -
  let ?item = "\<lparr>li_orderId = ''A'', li_sku = ''S1'', li_qty = 2, li_amount = ''10.00'',
    li_status = CANCELLED, li_stepsDone = 4, li_stepsTotal = 8\<rparr>"
  let ?evs = "[Click_status (Some PLACED), Answer 1 (Inr (B_stats [])), Answer 1 (Inr (page_of [])),
    Answer 0 (Inr (page_of [?item]))]"
  show ?thesis
    by (rule exI [of _ ?evs]) (simp add: list_session_def setStatus_def new_list_def loadStats_def load_def
      send_request_def list_request_def web_listOrders_def web_getStats_def on_answer_def stats_answered_def
      list_answered_def page_of_def)
qed

text \<open>
  The page number is not clamped when the total shrinks: after the last row of the last page has
  left the filter, the table is empty on a page beyond the last.
\<close>

theorem page_beyond_last:
  "\<exists>evs v. list_all in_turn evs \<and> fst (list_session evs) = v \<and> lists_under_way v = [] \<and>
     totalPages v < ol_page v \<and> ol_total v = 25 \<and> ol_orders v = []"
proof -
  let ?page = "\<lambda>n. Inr (B_page \<lparr>lp_items = [], lp_total = n, lp_page = Finite 2, lp_pageSize = Finite 25\<rparr>)"
  let ?evs = "[Answer 0 (?page 26), Answer 0 (Inr (B_stats [])), Click_page 2, Answer 0 (?page 26),
    Click_retry ''A'', Answer 0 (Inr (B_status ''A'' CANCELLED)), Answer 0 (?page 25)]"
  have two: "\<lceil>26 / 25 :: rat\<rceil> = 2" by (rule ceiling_unique) simp_all
  show ?thesis
    by (rule exI [of _ ?evs]) (simp add: list_session_def goTo_def totalPages_def new_list_def loadStats_def load_def
      send_request_def list_request_def web_listOrders_def web_getStats_def web_retry_def on_answer_def
      stats_answered_def list_answered_def action_answered_def list_retry_def lists_under_way_def two)
qed

end
