(* ===== verification/WebDetail.thy ===== *)
theory WebDetail
  imports WebList
begin

text \<open>
  The order page of the web UI, features/order-detail/order-detail.ts: the signals as a record, with
  the requests not answered yet (a callback carries the order id it was made with), and the events.
\<close>

section \<open>The component\<close>

datatype detail_request = D_load string | D_retry string | D_shipped string

fun detail_api :: "detail_request \<Rightarrow> api_request" where
  "detail_api (D_load oid) = web_getOrder oid"
| "detail_api (D_retry oid) = web_retry oid"
| "detail_api (D_shipped oid) = web_markShipped oid"

record order_detail =
  dv_detail :: "OrderDetail option"
  dv_loading :: bool
  dv_error :: "string option"
  dv_busy :: bool
  dv_sent :: "detail_request list"

definition new_detail :: order_detail where
  "new_detail = \<lparr>dv_detail = None, dv_loading = True, dv_error = None, dv_busy = False, dv_sent = []\<rparr>"

definition steps_of_kind :: "step_kind \<Rightarrow> order_detail \<Rightarrow> step_row list" where
  "steps_of_kind k v = (case dv_detail v of None \<Rightarrow> [] | Some d \<Rightarrow> filter (\<lambda>s. ss_kind s = k) (od_steps d))"

definition forwardSteps :: "order_detail \<Rightarrow> step_row list" where
  "forwardSteps = steps_of_kind FORWARD"

definition compensationSteps :: "order_detail \<Rightarrow> step_row list" where
  "compensationSteps = steps_of_kind COMPENSATION"

definition wasCompensated :: "order_detail \<Rightarrow> bool" where
  "wasCompensated v \<longleftrightarrow> list_ex (\<lambda>s. ss_status s \<noteq> S_PENDING) (compensationSteps v)"

definition detail_load :: "string \<Rightarrow> order_detail \<Rightarrow> order_detail" where
  "detail_load oid v = v\<lparr>dv_loading := True, dv_error := None, dv_sent := dv_sent v @ [D_load oid]\<rparr>"

text \<open>The subscription to \<open>paramMap\<close>.\<close>

definition route_changed :: "string option \<Rightarrow> order_detail \<Rightarrow> order_detail" where
  "route_changed param v = (case param of None \<Rightarrow> v | Some oid \<Rightarrow> if oid = [] then v else detail_load oid v)"

text \<open>The two buttons act on the order that is on the screen.\<close>

definition act_on_shown :: "(string \<Rightarrow> detail_request) \<Rightarrow> order_detail \<Rightarrow> order_detail" where
  "act_on_shown req v = (case dv_detail v of
     None \<Rightarrow> v
   | Some d \<Rightarrow> if o_order_id (od_order d) = [] then v
       else v\<lparr>dv_busy := True, dv_sent := dv_sent v @ [req (o_order_id (od_order d))]\<rparr>)"

definition detail_retry :: "order_detail \<Rightarrow> order_detail" where
  "detail_retry = act_on_shown D_retry"

definition detail_markShipped :: "order_detail \<Rightarrow> order_detail" where
  "detail_markShipped = act_on_shown D_shipped"

definition loaded :: "js_value + api_body \<Rightarrow> order_detail \<Rightarrow> order_detail" where
  "loaded ans v = (case ans of
     Inr (B_detail d) \<Rightarrow> v\<lparr>dv_detail := Some d, dv_loading := False\<rparr>
   | Inr _ \<Rightarrow> v
   | Inl err \<Rightarrow> v\<lparr>dv_error := Some (shown_error err ''Order not found''), dv_loading := False\<rparr>)"

definition acted :: "string \<Rightarrow> string \<Rightarrow> js_value + api_body \<Rightarrow> order_detail \<Rightarrow> order_detail" where
  "acted oid fallback ans v = (case ans of
     Inr _ \<Rightarrow> detail_load oid (v\<lparr>dv_busy := False\<rparr>)
   | Inl err \<Rightarrow> v\<lparr>dv_busy := False, dv_error := Some (shown_error err fallback)\<rparr>)"

fun detail_answered :: "detail_request \<Rightarrow> js_value + api_body \<Rightarrow> order_detail \<Rightarrow> order_detail" where
  "detail_answered (D_load oid) ans v = loaded ans v"
| "detail_answered (D_retry oid) ans v = acted oid ''Retry failed'' ans v"
| "detail_answered (D_shipped oid) ans v = acted oid ''Mark shipped failed'' ans v"

datatype detail_event = Route "string option" | Retry_clicked | Ship_clicked | Answered nat "js_value + api_body"

fun detail_step :: "detail_event \<Rightarrow> order_detail \<Rightarrow> order_detail" where
  "detail_step (Route param) v = route_changed param v"
| "detail_step Retry_clicked v = detail_retry v"
| "detail_step Ship_clicked v = detail_markShipped v"
| "detail_step (Answered i ans) v =
     (if i < length (dv_sent v)
      then detail_answered (dv_sent v ! i) ans (v\<lparr>dv_sent := take i (dv_sent v) @ drop (Suc i) (dv_sent v)\<rparr>)
      else v)"

section \<open>What the page shows\<close>

lemma sorted_kinds:
  "sorted (map (kind_field \<circ> ss_kind) xs) \<Longrightarrow>
    filter (\<lambda>s. ss_kind s = FORWARD) xs @ filter (\<lambda>s. ss_kind s = COMPENSATION) xs = xs"
proof (induction xs)
  case (Cons x xs)
  then have IH: "filter (\<lambda>s. ss_kind s = FORWARD) xs @ filter (\<lambda>s. ss_kind s = COMPENSATION) xs = xs" by simp
  show ?case
  proof (cases "ss_kind x")
    case FORWARD
    with IH show ?thesis by simp
  next
    case COMPENSATION
    have "ss_kind y = COMPENSATION" if "y \<in> set xs" for y
      using Cons.prems that COMPENSATION by (cases "ss_kind y") auto
    then have "filter (\<lambda>s. ss_kind s = FORWARD) xs = []" "filter (\<lambda>s. ss_kind s = COMPENSATION) xs = xs"
      by (auto simp: filter_empty_conv filter_id_conv)
    with COMPENSATION show ?thesis by simp
  qed
qed simp

lemma detail_sorted:
  assumes "getOrderDetail oid db = Some d"
  shows "sorted (map (kind_field \<circ> ss_kind) (od_steps d)) \<and> set (od_steps d) = set (steps_of db oid) \<and>
    row_at o_order_id oid (saga_orders db) = Some (od_order d)"
proof -
  let ?key = "\<lambda>q. (kind_field (ss_kind q), ss_step q)"
  have d: "od_steps d = sort_key ?key (steps_of db oid)" "row_at o_order_id oid (saga_orders db) = Some (od_order d)"
    using assms by (auto simp: getOrderDetail_def split: option.splits)
  have "sorted_wrt (\<lambda>a b. ?key a \<le> ?key b) (od_steps d)"
    using sorted_sort_key [of ?key "steps_of db oid"] by (simp add: d sorted_map)
  then have "sorted_wrt (\<lambda>a b. kind_field (ss_kind a) \<le> kind_field (ss_kind b)) (od_steps d)"
    by (rule sorted_wrt_mono_rel [rotated]) (auto simp: less_eq_prod_def)
  with d show ?thesis by (simp add: sorted_map)
qed

text \<open>
  C39. The order page shows the order. When the API answers a load for an order that exists, the
  page has that order's row and all of its step rows, the do-steps in the first table and the
  undo-steps in the second, in the order the API sent them, and says that something was
  compensated exactly when an undo row is past PENDING. For an order that does not exist it keeps
  what it had and reports that the order was not found.
\<close>

theorem order_page_shows_order:
  assumes "dep_fate (ad_saga ad) = (\<lambda>_. Stmt_ok)"
    and "v' = detail_answered (D_load oid) (web_answer (fst (createApi ad (detail_api (D_load oid)) s))) v"
  shows "\<not> dv_loading v' \<and>
    (case row_at o_order_id oid (saga_orders (cs_db s)) of
       None \<Rightarrow> dv_detail v' = dv_detail v \<and> dv_error v' = Some ''Order not found''
     | Some r \<Rightarrow> map_option od_order (dv_detail v') = Some r \<and>
         map_option od_steps (dv_detail v') = Some (forwardSteps v' @ compensationSteps v') \<and>
         set (forwardSteps v' @ compensationSteps v') = set (steps_of (cs_db s) oid) \<and>
         (wasCompensated v' \<longleftrightarrow>
           (\<exists>q \<in> set (steps_of (cs_db s) oid). ss_kind q = COMPENSATION \<and> ss_status q \<noteq> S_PENDING)))"
proof (cases "getOrderDetail oid (cs_db s)")
  case None
  then have "row_at o_order_id oid (saga_orders (cs_db s)) = None"
    by (auto simp: getOrderDetail_def split: option.splits)
  with None assms show ?thesis
    by (simp add: web_getOrder_def createApi_def route_def detail_route_def bind_act_def read_db_ok ret_act_def
        Let_def error_reply_def web_answer_def loaded_def shown_error_def)
next
  case (Some d)
  note D = detail_sorted [OF Some]
  have v': "dv_detail v' = Some d" "\<not> dv_loading v'"
    using Some assms
    by (simp_all add: web_getOrder_def createApi_def route_def detail_route_def bind_act_def read_db_ok ret_act_def
        Let_def json_reply_def web_answer_def loaded_def)
  have split: "forwardSteps v' @ compensationSteps v' = od_steps d"
    using sorted_kinds [OF conjunct1 [OF D]] v' by (simp add: forwardSteps_def compensationSteps_def steps_of_kind_def)
  have comp: "set (compensationSteps v') = {q \<in> set (steps_of (cs_db s) oid). ss_kind q = COMPENSATION}"
    using D v' by (auto simp: compensationSteps_def steps_of_kind_def)
  show ?thesis
    using v' split comp D by (auto simp: wasCompensated_def list_ex_iff simp flip: set_append)
qed

theorem order_page_shows_order_witness:
  "dv_detail (detail_answered (D_load ''B'') (web_answer (fst (createApi (sample_api 200) (detail_api (D_load ''B''))
     (sample_state PLACED)))) new_detail) = None \<and>
   \<not> wasCompensated (detail_answered (D_load ''A'') (web_answer (fst (createApi (sample_api 200) (detail_api (D_load ''A''))
     (sample_state PLACED)))) new_detail)"
proof -
  have f: "dep_fate (ad_saga (sample_api 200)) = (\<lambda>_. Stmt_ok)" by (simp add: sample_api_def log_deps_def)
  have rows: "row_at o_order_id ''B'' (saga_orders (cs_db (sample_state PLACED))) = None"
      "row_at o_order_id ''A'' (saga_orders (cs_db (sample_state PLACED))) = Some ((pending_row 1 ''A'')\<lparr>o_status := PLACED\<rparr>)"
      "steps_of (cs_db (sample_state PLACED)) ''A'' = [sample_step (Fwd CHARGE_PAYMENT) S_SUCCEEDED]"
      "ss_kind (sample_step (Fwd CHARGE_PAYMENT) S_SUCCEEDED) = FORWARD"
    by (simp_all add: sample_state_def pending_row_def steps_of_def sample_step_def stepKind_def isForwardStep_def
        FORWARD_STEPS_def)
  from order_page_shows_order [OF f refl, where v = new_detail and oid = "''B''" and s = "sample_state PLACED"]
    order_page_shows_order [OF f refl, where v = new_detail and oid = "''A''" and s = "sample_state PLACED"] rows
  show ?thesis by (simp add: new_detail_def)
qed

text \<open>
  The page reloads the order an action was for, not the one the route asks for: with a retry of A
  under way, going on to B ends with A on the screen, although every answer came in turn.
\<close>

theorem retry_answer_hijacks_page:
  assumes "o_order_id (od_order a) = ''A''" and "o_order_id (od_order b) = ''B''"
  shows "\<exists>v. fold detail_step [Route (Some ''A''), Answered 0 (Inr (B_detail a)), Retry_clicked,
      Route (Some ''B''), Answered 0 (Inr (B_status ''A'' CANCELLED)), Answered 0 (Inr (B_detail b)),
      Answered 0 (Inr (B_detail a))] new_detail = v \<and>
    dv_sent v = [] \<and> \<not> dv_loading v \<and> map_option (o_order_id \<circ> od_order) (dv_detail v) = Some ''A''"
  using assms by (simp add: new_detail_def route_changed_def detail_load_def loaded_def detail_retry_def
    act_on_shown_def acted_def)

end
