(* ===== verification/WebContract.thy ===== *)
theory WebContract
  imports WebDetail Notifier
begin

text \<open>
  The JSON contract between the coordinator's API and its two clients: the interfaces the web UI
  declares (web/src/app/core/models.ts and core/api.ts) and the one of the notification service
  (notifier.ts), against the documents the API sends. A document has numbers as rationals, since a page number may be
  a fraction. Dates are columns the tables of the model do not have, or texts made from a time: they are arguments.
\<close>

section \<open>Documents and types\<close>

datatype wire = W_null | W_bool bool | W_num rat | W_str string | W_arr "wire list" | W_obj "(string \<times> wire) list"

datatype ts_type = T_string | T_number | T_boolean | T_null | T_literals "string list" | T_or ts_type ts_type
  | T_array ts_type | T_object "(string \<times> ts_type) list" | T_partial "string list" ts_type

text \<open>An interface asks for its properties and allows others; those of a \<open>Partial<Record>\<close> may be missing.\<close>

fun has_type :: "ts_type \<Rightarrow> wire \<Rightarrow> bool" where
  "has_type T_string (W_str _) = True"
| "has_type T_number (W_num _) = True"
| "has_type T_boolean (W_bool _) = True"
| "has_type T_null W_null = True"
| "has_type (T_literals texts) (W_str s) = List.member texts s"
| "has_type (T_or a b) j = (has_type a j \<or> has_type b j)"
| "has_type (T_array t) (W_arr js) = list_all (has_type t) js"
| "has_type (T_object fs) (W_obj kvs) =
     list_all (\<lambda>(k, t). case map_of kvs k of None \<Rightarrow> False | Some j \<Rightarrow> has_type t j) fs"
| "has_type (T_partial ks t) (W_obj kvs) = list_all (\<lambda>k. case map_of kvs k of None \<Rightarrow> True | Some j \<Rightarrow> has_type t j) ks"
| "has_type _ _ = False"

section \<open>The interfaces\<close>

definition OrderStatus_type :: ts_type where
  "OrderStatus_type = T_literals (map status_text ALL_STATUSES)"

definition null_or :: "ts_type \<Rightarrow> ts_type" where
  "null_or t = T_or t T_null"

definition OrderListItem_type :: ts_type where
  "OrderListItem_type = T_object [(''orderId'', T_string), (''sku'', T_string), (''qty'', T_number),
     (''amount'', T_string), (''status'', OrderStatus_type), (''stepsDone'', T_number),
     (''stepsTotal'', T_number), (''updatedAt'', T_string)]"

definition OrderListPage_type :: ts_type where
  "OrderListPage_type = T_object [(''items'', T_array OrderListItem_type), (''total'', T_number),
     (''page'', T_number), (''pageSize'', T_number)]"

definition StepRow_type :: ts_type where
  "StepRow_type = T_object [(''step'', T_string), (''kind'', T_literals [''FORWARD'', ''COMPENSATION'']),
     (''status'', T_literals [''PENDING'', ''RUNNING'', ''SUCCEEDED'', ''FAILED'', ''SKIPPED'']),
     (''attempts'', T_number), (''idempotency_key'', T_string), (''last_error'', null_or T_string),
     (''started_at'', null_or T_string), (''finished_at'', null_or T_string)]"

definition AttemptRow_type :: ts_type where
  "AttemptRow_type = T_object [(''step'', T_string), (''attempt_no'', T_number),
     (''outcome'', T_literals [''SUCCEEDED'', ''FAILED'', ''TIMEOUT'']), (''error_message'', null_or T_string),
     (''duration_ms'', null_or T_number), (''started_at'', T_string), (''finished_at'', T_string)]"

definition OrderDetail_type :: ts_type where
  "OrderDetail_type = T_object [
     (''order'', T_object [(''order_id'', T_string), (''sku'', T_string), (''qty'', T_number), (''amount'', T_string),
        (''status'', OrderStatus_type), (''fail_at'', null_or T_string), (''comp_fail_at'', null_or T_string),
        (''attempt_count'', T_number), (''lease_owner'', null_or T_string), (''last_error'', null_or T_string),
        (''created_at'', T_string), (''updated_at'', T_string)]),
     (''steps'', T_array StepRow_type), (''attempts'', T_array AttemptRow_type)]"

definition Stats_type :: ts_type where
  "Stats_type = T_partial (map status_text ALL_STATUSES) T_number"

text \<open>What retry and markShipped of core/api.ts expect, and every failed request.\<close>

definition Acted_type :: ts_type where
  "Acted_type = T_object [(''ok'', T_boolean), (''orderId'', T_string), (''status'', OrderStatus_type)]"

definition Failed_type :: ts_type where
  "Failed_type = T_object [(''ok'', T_boolean), (''error'', T_string)]"

definition OrderListResponse_type :: ts_type where
  "OrderListResponse_type = T_object [(''items'', T_array (T_object [(''orderId'', T_string)])),
     (''total'', T_number), (''page'', T_number), (''pageSize'', T_number)]"

section \<open>The documents\<close>

record wire_dates =
  wd_text :: "int \<Rightarrow> string"
  wd_created :: "order_row \<Rightarrow> string"
  wd_updated :: "order_row \<Rightarrow> string"
  wd_item_updated :: "OrderListItem \<Rightarrow> string"

definition wire_opt :: "('a \<Rightarrow> wire) \<Rightarrow> 'a option \<Rightarrow> wire" where
  "wire_opt f x = (case x of None \<Rightarrow> W_null | Some a \<Rightarrow> f a)"

text \<open>JSON.stringify writes NaN and the infinities as null.\<close>

definition wire_number :: "js_num \<Rightarrow> wire" where
  "wire_number x = (case x of Finite q \<Rightarrow> W_num q | _ \<Rightarrow> W_null)"

fun step_status_text :: "step_status \<Rightarrow> string" where
  "step_status_text S_PENDING = ''PENDING''"
| "step_status_text S_RUNNING = ''RUNNING''"
| "step_status_text S_SUCCEEDED = ''SUCCEEDED''"
| "step_status_text S_FAILED = ''FAILED''"
| "step_status_text S_SKIPPED = ''SKIPPED''"

fun outcome_text :: "attempt_outcome \<Rightarrow> string" where
  "outcome_text A_SUCCEEDED = ''SUCCEEDED''"
| "outcome_text A_FAILED = ''FAILED''"
| "outcome_text A_TIMEOUT = ''TIMEOUT''"

fun kind_text :: "step_kind \<Rightarrow> string" where
  "kind_text FORWARD = ''FORWARD''"
| "kind_text COMPENSATION = ''COMPENSATION''"

definition wire_item :: "wire_dates \<Rightarrow> OrderListItem \<Rightarrow> wire" where
  "wire_item d i = W_obj [(''orderId'', W_str (li_orderId i)), (''sku'', W_str (li_sku i)),
     (''qty'', W_num (of_int (li_qty i))), (''amount'', W_str (li_amount i)),
     (''status'', W_str (status_text (li_status i))), (''stepsDone'', W_num (of_nat (li_stepsDone i))),
     (''stepsTotal'', W_num (of_nat (li_stepsTotal i))), (''updatedAt'', W_str (wd_item_updated d i))]"

definition wire_page :: "wire_dates \<Rightarrow> OrderListPage \<Rightarrow> wire" where
  "wire_page d p = W_obj [(''items'', W_arr (map (wire_item d) (lp_items p))), (''total'', W_num (of_nat (lp_total p))),
     (''page'', wire_number (lp_page p)), (''pageSize'', wire_number (lp_pageSize p))]"

definition wire_order :: "wire_dates \<Rightarrow> order_row \<Rightarrow> wire" where
  "wire_order d r = W_obj [(''order_id'', W_str (o_order_id r)), (''sku'', W_str (o_sku r)),
     (''qty'', W_num (of_int (o_qty r))), (''amount'', W_str (o_amount r)), (''status'', W_str (status_text (o_status r))),
     (''fail_at'', wire_opt W_str (o_fail_at r)), (''comp_fail_at'', wire_opt W_str (o_comp_fail_at r)),
     (''attempt_count'', W_num (of_nat (o_attempt_count r))), (''lease_owner'', wire_opt W_str (o_lease_owner r)),
     (''lease_expires_at'', wire_opt (\<lambda>t. W_str (wd_text d t)) (o_lease_expires_at r)),
     (''last_error'', wire_opt W_str (o_last_error r)), (''created_at'', W_str (wd_created d r)),
     (''updated_at'', W_str (wd_updated d r))]"

definition wire_step :: "wire_dates \<Rightarrow> step_row \<Rightarrow> wire" where
  "wire_step d r = W_obj [(''step'', W_str (step_name (ss_step r))), (''kind'', W_str (kind_text (ss_kind r))),
     (''status'', W_str (step_status_text (ss_status r))), (''attempts'', W_num (of_nat (ss_attempts r))),
     (''idempotency_key'', W_str (ss_idempotency_key r)), (''last_error'', wire_opt W_str (ss_last_error r)),
     (''started_at'', wire_opt (\<lambda>t. W_str (wd_text d t)) (ss_started_at r)),
     (''finished_at'', wire_opt (\<lambda>t. W_str (wd_text d t)) (ss_finished_at r))]"

definition wire_attempt :: "wire_dates \<Rightarrow> attempt_row \<Rightarrow> wire" where
  "wire_attempt d r = W_obj [(''step'', W_str (step_name (at_step r))), (''attempt_no'', W_num (of_nat (at_attempt_no r))),
     (''outcome'', W_str (outcome_text (at_outcome r))), (''error_message'', wire_opt W_str (at_error_message r)),
     (''duration_ms'', W_num (of_int (at_duration_ms r))), (''started_at'', W_str (wd_text d (at_started_at r))),
     (''finished_at'', W_str (wd_text d (at_finished_at r)))]"

definition wire_detail :: "wire_dates \<Rightarrow> OrderDetail \<Rightarrow> wire" where
  "wire_detail d x = W_obj [(''order'', wire_order d (od_order x)), (''steps'', W_arr (map (wire_step d) (od_steps x))),
     (''attempts'', W_arr (map (wire_attempt d) (od_attempts x)))]"

definition wire_body :: "wire_dates \<Rightarrow> api_body \<Rightarrow> wire" where
  "wire_body d b = (case b of
     B_empty \<Rightarrow> W_null
   | B_health me \<Rightarrow> W_obj [(''ok'', W_bool True), (''service'', W_str ''coordinator''), (''instanceId'', W_str me)]
   | B_stats counts \<Rightarrow> W_obj (map (\<lambda>(s, n). (status_text s, W_num (of_nat n))) counts)
   | B_page p \<Rightarrow> wire_page d p
   | B_detail x \<Rightarrow> wire_detail d x
   | B_status oid s \<Rightarrow> W_obj [(''ok'', W_bool True), (''orderId'', W_str oid), (''status'', W_str (status_text s))]
   | B_ingest r \<Rightarrow> W_obj [(''ok'', W_bool True), (''rowsRead'', W_num (of_nat (rowsRead r))),
       (''rowsInserted'', W_num (of_nat (rowsInserted r))), (''rowsSkipped'', W_num (of_int (rowsSkipped r)))]
   | B_error m \<Rightarrow> W_obj [(''ok'', W_bool False), (''error'', W_str m)])"

section \<open>Every reply is of its type\<close>

text \<open>The type the UI gives the answer of a request.\<close>

fun declared :: "api_request \<Rightarrow> ts_type option" where
  "declared (Get_orders _ _ _) = Some OrderListPage_type"
| "declared (Get_order _) = Some OrderDetail_type"
| "declared Get_stats = Some Stats_type"
| "declared (Post_retry _) = Some Acted_type"
| "declared (Post_mark_shipped _) = Some Acted_type"
| "declared _ = None"

lemma status_typed: "has_type OrderStatus_type (W_str (status_text s))"
  by (cases s) (simp_all add: OrderStatus_type_def ALL_STATUSES_def)

lemma null_or_typed: "has_type (null_or T_string) (wire_opt (\<lambda>a. W_str (f a)) x)" "has_type (null_or T_string) (wire_opt W_str y)"
  by (cases x; simp add: null_or_def wire_opt_def) (cases y; simp add: null_or_def wire_opt_def)

lemma or_number_typed: "has_type (null_or T_number) (W_num n)"
  by (simp add: null_or_def)

lemma item_typed: "has_type OrderListItem_type (wire_item d i)"
  using status_typed by (simp add: OrderListItem_type_def wire_item_def)

lemma order_typed: "has_type OrderDetail_type (wire_detail d x)"
proof -
  have "has_type StepRow_type (wire_step d r)" for r
    by (cases "ss_kind r"; cases "ss_status r") (simp_all add: StepRow_type_def wire_step_def null_or_typed)
  moreover have "has_type AttemptRow_type (wire_attempt d r)" for r
    by (cases "at_outcome r") (simp_all add: AttemptRow_type_def wire_attempt_def null_or_typed or_number_typed)
  ultimately show ?thesis
    by (simp add: OrderDetail_type_def wire_detail_def wire_order_def list_all_iff null_or_typed status_typed)
qed

lemma stats_typed: "has_type Stats_type (wire_body d (B_stats counts))"
proof -
  have "map_of (map (\<lambda>(s, n). (status_text s, W_num (of_nat n))) counts) k = Some j \<Longrightarrow> \<exists>n. j = W_num n" for k j
    by (auto dest!: map_of_SomeD)
  then show ?thesis by (fastforce simp: Stats_type_def wire_body_def list_all_iff split: option.splits)
qed

lemma page_typed:
  assumes "listOrders status page psize count_db rows_db = Inr p"
  shows "has_type OrderListPage_type (wire_page d p)" "has_type OrderListResponse_type (wire_page d p)"
proof -
  obtain limit offset where "sql_count psize = Some limit" "sql_count (page_offset page psize) = Some offset"
    and p: "lp_page p = page" "lp_pageSize p = psize"
    using assms by (auto simp: listOrders_def split: option.splits)
  then obtain q r where n: "psize = Finite q" "page = Finite r"
    by (cases psize; cases page) (auto simp: sql_count_def page_offset_def)
  show "has_type OrderListPage_type (wire_page d p)"
    by (simp add: OrderListPage_type_def wire_page_def wire_number_def p n list_all_iff item_typed)
  show "has_type OrderListResponse_type (wire_page d p)"
    by (simp add: OrderListResponse_type_def wire_page_def wire_item_def wire_number_def p n list_all_iff)
qed

text \<open>A reply with a good status has a body of the declared type, any other one is an error.\<close>

definition kept_contract :: "wire_dates \<Rightarrow> api_request \<Rightarrow> api_reply \<Rightarrow> bool" where
  "kept_contract d req rep \<longleftrightarrow>
     (if 200 \<le> rep_status rep \<and> rep_status rep \<le> 299
      then (case declared req of None \<Rightarrow> True | Some t \<Rightarrow> has_type t (wire_body d (rep_body rep)))
      else has_type Failed_type (wire_body d (rep_body rep)))"

lemma kept_json: "declared req = Some t \<Longrightarrow> has_type t (wire_body d b) \<Longrightarrow> kept_contract d req (json_reply b)"
  by (simp add: kept_contract_def json_reply_def)

lemma failed_typed: "has_type Failed_type (wire_body d (B_error m))"
  by (simp add: Failed_type_def wire_body_def)

lemma kept_error: "\<not> (200 \<le> st \<and> st \<le> 299) \<Longrightarrow> kept_contract d req (error_reply st m)"
  by (auto simp: kept_contract_def error_reply_def failed_typed)

lemma acted_typed: "has_type Acted_type (wire_body d (B_status oid st))"
  using status_typed [of st] by (simp add: Acted_type_def wire_body_def)

lemma kept_acted: "declared req = Some Acted_type \<Longrightarrow> kept_contract d req (json_reply (B_status oid st))"
  by (rule kept_json [OF _ acted_typed])

lemma bind_returns:
  "bind_act m k s = (Inr a, s') \<longleftrightarrow> (\<exists>b s1. m s = (Inr b, s1) \<and> k b s1 = (Inr a, s'))"
  by (auto simp: bind_act_def split: prod.splits sum.splits)

lemma sum_returns:
  "(case x of Inl e \<Rightarrow> throw_act e | Inr p \<Rightarrow> ret_act (f p)) s = (Inr r, s') \<longleftrightarrow> (\<exists>p. x = Inr p \<and> r = f p \<and> s' = s)"
  "map_sum id g y = Inr z \<longleftrightarrow> (\<exists>u. y = Inr u \<and> z = g u)"
  by (cases x; auto simp: throw_act_def ret_act_def) (cases y; auto)

lemma ingest_returns: "ingest_route ad path s = (Inr rep, s') \<Longrightarrow> \<exists>res. rep = json_reply (B_ingest res)"
  by (auto simp: ingest_route_def sum_returns split: sum.splits prod.splits)

lemma route_contract:
  assumes "route ad req s = (Inr rep, s')"
  shows "kept_contract d req rep"
proof (cases req)
  case (Get_orders status page psize)
  with assms obtain d1 d2 p where "listOrders (status_param status) (page_param page) (size_param psize) d1 d2 = Inr p"
    "rep = json_reply (B_page p)"
    by (auto simp: route_def list_route_def Let_def bind_returns sum_returns)
  with page_typed(1) Get_orders show ?thesis by (simp add: kept_json wire_body_def)
next
  case (Get_order oid)
  with assms show ?thesis
    by (auto simp: route_def detail_route_def Let_def bind_returns ret_act_def kept_json kept_error wire_body_def order_typed
      split: option.splits)
next
  case Get_stats
  with assms stats_typed show ?thesis
    by (auto simp: route_def stats_route_def Let_def bind_returns ret_act_def kept_json)
next
  case (Post_retry oid)
  with assms show ?thesis
    by (auto simp: route_def retry_route_def Let_def bind_returns ret_act_def kept_acted kept_error split: option.splits)
next
  case (Post_mark_shipped oid)
  with assms show ?thesis
    by (auto simp: route_def shipped_route_def Let_def bind_returns ret_act_def kept_acted kept_error split: if_splits)
next
  case Get_health
  with assms show ?thesis
    by (auto simp: route_def health_route_def Let_def bind_returns ret_act_def json_reply_def kept_contract_def)
next
  case (Post_ingest path)
  with assms show ?thesis
    by (auto simp: route_def Let_def json_reply_def kept_contract_def dest!: ingest_returns)
qed (use assms in \<open>auto simp: route_def Let_def ret_act_def kept_contract_def\<close>)


definition sample_dates :: wire_dates where
  "sample_dates = \<lparr>wd_text = (\<lambda>_. ''1970-01-01T00:00:00.000Z''), wd_created = (\<lambda>_. ''1970-01-01T00:00:00.000Z''),
     wd_updated = (\<lambda>_. ''1970-01-01T00:00:00.000Z''), wd_item_updated = (\<lambda>_. ''1970-01-01T00:00:00.000Z'')\<rparr>"


end
