(* ===== verification/WebApp.thy ===== *)
theory WebApp
  imports WebDetail
begin

text \<open>
  The web UI as one page: the route table of app.routes.ts, and what a change of the URL does to the
  components of theories WebList and WebDetail. Angular's router is modelled by what it documents: the first route
  that matches is taken, a redirect is followed once, navigating to the URL one is at does nothing, and a
  component is kept when its route stays.
\<close>

section \<open>The route table\<close>

datatype component = Order_list_page | Order_detail_page

datatype segment = Is string | Param string

datatype route_path = Path "segment list" | Anything

datatype route_target = Load_component component | Redirect_to "string list"

definition routes :: "(route_path \<times> route_target) list" where
  "routes =
     [(Path [], Load_component Order_list_page),
      (Path [Is ''orders'', Param ''orderId''], Load_component Order_detail_page),
      (Anything, Redirect_to [])]"

text \<open>A path matches the segments of a URL one by one and binds its parameters.\<close>

fun bind_path :: "segment list \<Rightarrow> string list \<Rightarrow> (string \<times> string) list option" where
  "bind_path [] [] = Some []"
| "bind_path (Is x # ps) (u # us) = (if u = x then bind_path ps us else None)"
| "bind_path (Param x # ps) (u # us) = map_option (Cons (x, u)) (bind_path ps us)"
| "bind_path _ _ = None"

fun bind_route :: "route_path \<Rightarrow> string list \<Rightarrow> (string \<times> string) list option" where
  "bind_route (Path ps) url = bind_path ps url"
| "bind_route Anything url = Some []"

fun first_match :: "(route_path \<times> route_target) list \<Rightarrow> string list \<Rightarrow> (route_target \<times> (string \<times> string) list) option" where
  "first_match [] url = None"
| "first_match ((path, target) # rs) url =
     (case bind_route path url of Some params \<Rightarrow> Some (target, params) | None \<Rightarrow> first_match rs url)"

text \<open>The URL one arrives at, the component that is shown and its \<open>paramMap\<close>.\<close>

definition follow :: "string list \<Rightarrow> (string list \<times> component \<times> (string \<rightharpoonup> string)) option" where
  "follow url =
    (case first_match routes url of
       Some (Load_component c, params) \<Rightarrow> Some (url, c, map_of params)
     | Some (Redirect_to url', _) \<Rightarrow>
         (case first_match routes url' of
            Some (Load_component c, params) \<Rightarrow> Some (url', c, map_of params)
          | _ \<Rightarrow> None)
     | None \<Rightarrow> None)"

section \<open>The page\<close>

datatype outlet = List_shown order_list | Detail_shown order_detail

record web_page =
  wp_url :: "string list"
  wp_outlet :: outlet

text \<open>
  A component that stays gets the new parameters, another one is made from scratch; what the old one
  was waiting for reaches nobody.
\<close>

definition navigate :: "string list \<Rightarrow> web_page \<Rightarrow> web_page" where
  "navigate url p =
    (case follow url of
       None \<Rightarrow> p
     | Some (url', c, params) \<Rightarrow>
         if url' = wp_url p then p
         else \<lparr>wp_url = url', wp_outlet =
           (case c of
              Order_list_page \<Rightarrow> List_shown new_list
            | Order_detail_page \<Rightarrow> Detail_shown (route_changed (params ''orderId'')
                (case wp_outlet p of Detail_shown v \<Rightarrow> v | List_shown _ \<Rightarrow> new_detail)))\<rparr>)"

text \<open>The page as it is opened at a URL.\<close>

definition open_app :: "string list \<Rightarrow> web_page option" where
  "open_app url =
    (case follow url of
       None \<Rightarrow> None
     | Some (url', Order_list_page, _) \<Rightarrow> Some \<lparr>wp_url = url', wp_outlet = List_shown new_list\<rparr>
     | Some (url', Order_detail_page, params) \<Rightarrow>
         Some \<lparr>wp_url = url', wp_outlet = Detail_shown (route_changed (params ''orderId'') new_detail)\<rparr>)"

text \<open>\<open>[routerLink]="['/orders', o.orderId]"\<close> and \<open>routerLink="/"\<close>.\<close>

definition order_link :: "string \<Rightarrow> string list" where
  "order_link oid = [''orders'', oid]"

definition list_link :: "string list" where
  "list_link = []"

section \<open>What is shown where\<close>

lemma follow_routes:
  "follow url = Some
    (if \<exists>oid. url = order_link oid then (url, Order_detail_page, [''orderId'' \<mapsto> url ! 1])
     else (list_link, Order_list_page, Map.empty))"
proof (cases url)
  case (Cons u us)
  show ?thesis
  proof (cases us)
    case (Cons v vs)
    then show ?thesis using \<open>url = u # us\<close>
      by (cases vs) (auto simp: follow_def routes_def order_link_def list_link_def)
  qed (simp add: \<open>url = u # us\<close> follow_def routes_def order_link_def list_link_def)
qed (simp add: follow_def routes_def order_link_def list_link_def)

lemma link_opens: "follow (order_link oid) = Some (order_link oid, Order_detail_page, [''orderId'' \<mapsto> oid])"
  by (auto simp: follow_routes order_link_def)

lemma order_link_inj: "order_link a = order_link b \<longleftrightarrow> a = b"
  by (simp add: order_link_def)

text \<open>
  Whatever URL is opened, a component is shown at a URL of the table, and the order page asks for the
  order of its URL; an unknown URL ends at the list.
\<close>

theorem every_url_opens:
  "\<exists>p. open_app url = Some p \<and>
    (case wp_outlet p of
       List_shown v \<Rightarrow> v = new_list \<and> wp_url p = list_link \<and> (\<forall>oid. url \<noteq> order_link oid)
     | Detail_shown v \<Rightarrow> \<exists>oid. url = order_link oid \<and> wp_url p = url \<and>
         dv_sent v = (if oid = [] then [] else [D_load oid]))"
proof (cases "\<exists>oid. url = order_link oid")
  case True
  then obtain oid where "url = order_link oid" by blast
  then show ?thesis
    by (simp add: open_app_def link_opens route_changed_def detail_load_def new_detail_def order_link_inj)
qed (simp add: open_app_def follow_routes)

text \<open>
  From one order to another: the component and its signals stay, the new order is asked for, and until
  the answer comes the old one is still there.
\<close>

lemma detail_reused:
  assumes "wp_url p = order_link a" and "wp_outlet p = Detail_shown v" and "a \<noteq> b" and "b \<noteq> []"
  shows "\<exists>v'. navigate (order_link b) p = \<lparr>wp_url = order_link b, wp_outlet = Detail_shown v'\<rparr> \<and>
    dv_detail v' = dv_detail v \<and> dv_loading v' \<and> dv_sent v' = dv_sent v @ [D_load b]"
  using assms by (simp add: navigate_def link_opens order_link_inj route_changed_def detail_load_def)

text \<open>
  The link of an order in the list and back: the order page asks for that order, and the list
  that comes back starts again on its first page without a filter.
\<close>

theorem to_order_and_back:
  assumes "wp_outlet p = List_shown v" and "wp_url p = list_link" and "oid \<noteq> []"
  shows "\<exists>d. navigate (order_link oid) p = \<lparr>wp_url = order_link oid, wp_outlet = Detail_shown d\<rparr> \<and>
    dv_sent d = [D_load oid] \<and>
    navigate list_link (navigate (order_link oid) p) = \<lparr>wp_url = list_link, wp_outlet = List_shown new_list\<rparr>"
  using assms
  by (auto simp: navigate_def link_opens follow_routes route_changed_def detail_load_def new_detail_def
      order_link_def list_link_def)

theorem to_order_and_back_witness:
  "\<exists>d. navigate (order_link ''A'') \<lparr>wp_url = [], wp_outlet = List_shown new_list\<rparr> =
    \<lparr>wp_url = [''orders'', ''A''], wp_outlet = Detail_shown d\<rparr> \<and> dv_sent d = [D_load ''A'']"
  using to_order_and_back [of "\<lparr>wp_url = [], wp_outlet = List_shown new_list\<rparr>" new_list "''A''"]
  by (auto simp: list_link_def order_link_def)

text \<open>
  A flaw: answers are not checked against the order of the URL. When the load of the order one has left
  is answered after that of the order one went to, the page at the URL of \<open>b\<close> shows \<open>a\<close>.
\<close>

definition answered_last :: "detail_request \<Rightarrow> js_value + api_body \<Rightarrow> web_page \<Rightarrow> web_page" where
  "answered_last req ans p =
    (case wp_outlet p of
       Detail_shown v \<Rightarrow> p\<lparr>wp_outlet := Detail_shown (detail_answered req ans v)\<rparr>
     | List_shown _ \<Rightarrow> p)"

theorem late_load_shows_other_order:
  assumes "a \<noteq> b" and "b \<noteq> []" and "wp_url p = order_link a" and "wp_outlet p = Detail_shown v"
  shows "\<exists>v'. answered_last (D_load a) (Inr (B_detail da)) (answered_last (D_load b) (Inr (B_detail db)) (navigate (order_link b) p)) =
    \<lparr>wp_url = order_link b, wp_outlet = Detail_shown v'\<rparr> \<and> dv_detail v' = Some da \<and> \<not> dv_loading v'"
proof -
  obtain v' where "navigate (order_link b) p = \<lparr>wp_url = order_link b, wp_outlet = Detail_shown v'\<rparr>"
    using detail_reused [OF assms(3,4,1,2)] by blast
  then show ?thesis by (simp add: answered_last_def loaded_def)
qed

end
