(* ===== verification/Startup.thy ===== *)
theory Startup
  imports Env Ingest InventorySvc ServiceApp
begin

text \<open>
  The entry points: createPool of packages/shared/src/db.ts, what the services, the coordinator and
  the notification service read from the environment when they start, and the two command line
  programs services/coordinator/src/cli/ingest.ts and services/inventory/src/seed.ts.
\<close>

section \<open>Connection pools\<close>

record pool_options =
  po_host :: string
  po_port :: rat
  po_user :: string
  po_password :: string
  po_database :: string
  po_connectionLimit :: rat
  po_waitForConnections :: bool
  po_queueLimit :: nat
  po_enableKeepAlive :: bool
  po_timezone :: string
  po_decimalNumbers :: bool
  po_supportBigNumbers :: bool
  po_bigNumberStrings :: bool

definition createPool :: "environment \<Rightarrow> string \<Rightarrow> js_value + pool_options" where
  "createPool env database =
    and_then (envStr env ''DB_HOST'' (Some ''127.0.0.1'')) (\<lambda>host.
    and_then (envInt env ''DB_PORT'' (Some 3306)) (\<lambda>port.
    and_then (envStr env ''DB_USER'' (Some ''saga'')) (\<lambda>user.
    and_then (envStr env ''DB_PASSWORD'' (Some ''saga'')) (\<lambda>password.
    and_then (envInt env ''DB_POOL_SIZE'' (Some 10)) (\<lambda>connectionLimit.
      Inr \<lparr>po_host = host, po_port = port, po_user = user, po_password = password, po_database = database,
        po_connectionLimit = connectionLimit, po_waitForConnections = True, po_queueLimit = 0,
        po_enableKeepAlive = True, po_timezone = ''Z'', po_decimalNumbers = False,
        po_supportBigNumbers = True, po_bigNumberStrings = False\<rparr>)))))"

lemma createPool_database: "createPool env database = Inr p \<Longrightarrow> po_database p = database"
  by (auto simp: createPool_def and_then_def split: sum.splits)

lemma createPool_total:
  "(\<exists>p. createPool env database = Inr p) \<longleftrightarrow> number_ok env ''DB_PORT'' \<and> number_ok env ''DB_POOL_SIZE''"
proof -
  have str: "(\<exists>a. envStr env name (Some d) = Inr a) = True" for name d using envStr_fallback by blast
  show ?thesis by (simp add: createPool_def and_then_Inr str envInt_fallback)
qed

section \<open>The services\<close>

record 'd started_service =
  sv_pool :: pool_options
  sv_redis :: string
  sv_app :: "'d layer list"
  sv_port :: rat

definition start_service ::
  "environment \<Rightarrow> string \<Rightarrow> 'd layer list \<Rightarrow> string \<Rightarrow> rat \<Rightarrow> js_value + 'd started_service" where
  "start_service env database app port_name default_port =
    and_then (createPool env database) (\<lambda>pool.
    and_then (envStr env ''REDIS_URL'' (Some ''redis://127.0.0.1:6379'')) (\<lambda>redis.
    and_then (envInt env port_name (Some default_port)) (\<lambda>port.
      Inr \<lparr>sv_pool = pool, sv_redis = redis, sv_app = app, sv_port = port\<rparr>)))"

definition order_service :: "environment \<Rightarrow> js_value + orders_table started_service" where
  "order_service env = start_service env ''svc_order'' order_app ''ORDER_PORT'' 3001"

definition inventory_service :: "environment \<Rightarrow> js_value + inventory_tables started_service" where
  "inventory_service env = start_service env ''svc_inventory'' inventory_app ''INVENTORY_PORT'' 3002"

definition payment_service :: "environment \<Rightarrow> js_value + payments_table started_service" where
  "payment_service env = start_service env ''svc_payment'' payment_app ''PAYMENT_PORT'' 3003"

definition shipping_service :: "environment \<Rightarrow> js_value + shipments_table started_service" where
  "shipping_service env = start_service env ''svc_shipping'' shipping_app ''SHIPPING_PORT'' 3004"

lemma start_service_total:
  "(\<exists>s. start_service env database app name d = Inr s) \<longleftrightarrow>
    list_all (number_ok env) [''DB_PORT'', ''DB_POOL_SIZE'', name]"
proof -
  have str: "(\<exists>a. envStr env n (Some d) = Inr a) = True" for n d using envStr_fallback by blast
  show ?thesis by (simp add: start_service_def and_then_Inr str envInt_fallback createPool_total)
qed

lemma start_service_parts:
  assumes "start_service env database app name d = Inr s"
  shows "po_database (sv_pool s) = database" "sv_app s = app" "unset env name \<Longrightarrow> sv_port s = d"
  using assms createPool_database [of env database]
  by (auto simp: start_service_def and_then_def envInt_def fall_back_def split: sum.splits)

section \<open>The notification service\<close>

record notifier_config =
  nc_pool :: pool_options
  nc_coordinatorUrl :: string
  nc_batchSize :: rat
  nc_staleMs :: rat
  nc_schedule :: string
  nc_port :: rat

definition notification_service :: "environment \<Rightarrow> js_value + notifier_config" where
  "notification_service env =
    and_then (createPool env ''svc_notification'') (\<lambda>pool.
    and_then (envStr env ''COORDINATOR_URL'' (Some ''http://127.0.0.1:3000'')) (\<lambda>url.
    and_then (envInt env ''NOTIFICATION_BATCH_SIZE'' (Some 100)) (\<lambda>batchSize.
    and_then (envInt env ''NOTIFICATION_STALE_MS'' (Some 120000)) (\<lambda>staleMs.
    and_then (envStr env ''NOTIFICATION_CRON'' (Some ''*/15 * * * *'')) (\<lambda>schedule.
    and_then (envInt env ''NOTIFICATION_PORT'' (Some 3005)) (\<lambda>port.
      Inr \<lparr>nc_pool = pool, nc_coordinatorUrl = url, nc_batchSize = batchSize, nc_staleMs = staleMs,
        nc_schedule = schedule, nc_port = port\<rparr>))))))"

text \<open>
  Started with nothing said about addresses, the processes find each other: the URLs the coordinator
  and the notification service call are the ports the others listen on, and each has a schema of its own.
\<close>

definition address_variables :: "string list" where
  "address_variables = [''ORDER_URL'', ''INVENTORY_URL'', ''PAYMENT_URL'', ''SHIPPING_URL'', ''COORDINATOR_URL'',
     ''ORDER_PORT'', ''INVENTORY_PORT'', ''PAYMENT_PORT'', ''SHIPPING_PORT'', ''COORDINATOR_PORT'']"

definition local_url :: "rat \<Rightarrow> string" where
  "local_url port = ''http://127.0.0.1:'' @ show_int \<lfloor>port\<rfloor>"

lemma config_unset:
  assumes "config env = Inr c" and "list_all (unset env) address_variables"
  shows "cfg_port c = 3000"
    "cfg_serviceUrls c = (\<lambda>s. case s of order_svc \<Rightarrow> ''http://127.0.0.1:3001'' | inventory_svc \<Rightarrow> ''http://127.0.0.1:3002''
       | payment_svc \<Rightarrow> ''http://127.0.0.1:3003'' | shipping_svc \<Rightarrow> ''http://127.0.0.1:3004'')"
proof -
  have s: "envStr env name (Some d) = Inr d" if "unset env name" for name d
    using that by (simp add: envStr_def fall_back_def)
  have i: "envInt env name (Some d) = Inr d" if "unset env name" for name d
    using that by (simp add: envInt_def fall_back_def)
  have u: "unset env ''COORDINATOR_PORT''" "unset env ''ORDER_URL''" "unset env ''INVENTORY_URL''"
    "unset env ''PAYMENT_URL''" "unset env ''SHIPPING_URL''"
    using assms(2) by (simp_all add: address_variables_def)
  show "cfg_port c = 3000"
    "cfg_serviceUrls c = (\<lambda>s. case s of order_svc \<Rightarrow> ''http://127.0.0.1:3001'' | inventory_svc \<Rightarrow> ''http://127.0.0.1:3002''
       | payment_svc \<Rightarrow> ''http://127.0.0.1:3003'' | shipping_svc \<Rightarrow> ''http://127.0.0.1:3004'')"
    using assms(1) by (auto simp: config_def s [OF u(2)] s [OF u(3)] s [OF u(4)] s [OF u(5)] i [OF u(1)] and_then_def
      split: sum.splits)
qed

lemma notification_parts:
  assumes "notification_service env = Inr n"
  shows "po_database (nc_pool n) = ''svc_notification''"
    "unset env ''COORDINATOR_URL'' \<Longrightarrow> nc_coordinatorUrl n = ''http://127.0.0.1:3000''"
  using assms createPool_database [of env "''svc_notification''"]
  by (auto simp: notification_service_def and_then_def envStr_def fall_back_def split: sum.splits)

lemma deployment_connects:
  assumes c: "config env = Inr c" and o: "order_service env = Inr so" and i: "inventory_service env = Inr si"
    and p: "payment_service env = Inr sp" and s: "shipping_service env = Inr ss"
    and n: "notification_service env = Inr nc" and u: "list_all (unset env) address_variables"
  shows "cfg_serviceUrls c = (\<lambda>x. case x of order_svc \<Rightarrow> local_url (sv_port so) | inventory_svc \<Rightarrow> local_url (sv_port si)
      | payment_svc \<Rightarrow> local_url (sv_port sp) | shipping_svc \<Rightarrow> local_url (sv_port ss))"
    and "nc_coordinatorUrl nc = local_url (cfg_port c)"
    and "distinct [po_database (sv_pool so), po_database (sv_pool si), po_database (sv_pool sp),
      po_database (sv_pool ss), po_database (nc_pool nc)]"
proof -
  have ports: "sv_port so = 3001" "sv_port si = 3002" "sv_port sp = 3003" "sv_port ss = 3004"
    using u start_service_parts(3) [OF o [unfolded order_service_def]]
      start_service_parts(3) [OF i [unfolded inventory_service_def]]
      start_service_parts(3) [OF p [unfolded payment_service_def]]
      start_service_parts(3) [OF s [unfolded shipping_service_def]]
    by (simp_all add: address_variables_def)
  have url: "local_url 3000 = ''http://127.0.0.1:3000''" "local_url 3001 = ''http://127.0.0.1:3001''"
    "local_url 3002 = ''http://127.0.0.1:3002''" "local_url 3003 = ''http://127.0.0.1:3003''"
    "local_url 3004 = ''http://127.0.0.1:3004''"
    by (simp_all add: local_url_def show_int_def show_digits.simps char_of_def bit_0 bit_Suc)
  show "cfg_serviceUrls c = (\<lambda>x. case x of order_svc \<Rightarrow> local_url (sv_port so) | inventory_svc \<Rightarrow> local_url (sv_port si)
      | payment_svc \<Rightarrow> local_url (sv_port sp) | shipping_svc \<Rightarrow> local_url (sv_port ss))"
    by (simp only: config_unset(2) [OF c u] ports url)
  have "unset env ''COORDINATOR_URL''" using u by (simp add: address_variables_def)
  then show "nc_coordinatorUrl nc = local_url (cfg_port c)"
    by (simp only: notification_parts(2) [OF n] config_unset(1) [OF c u] url)
  show "distinct [po_database (sv_pool so), po_database (sv_pool si), po_database (sv_pool sp),
      po_database (sv_pool ss), po_database (nc_pool nc)]"
    by (simp add: notification_parts(1) [OF n] start_service_parts(1) [OF o [unfolded order_service_def]]
      start_service_parts(1) [OF i [unfolded inventory_service_def]]
      start_service_parts(1) [OF p [unfolded payment_service_def]]
      start_service_parts(1) [OF s [unfolded shipping_service_def]])
qed

section \<open>Loading orders from the command line\<close>

text \<open>How a run ends; \<open>Loaded\<close> says whether the message that nothing was new is written.\<close>

datatype ingest_end = Loaded IngestResult bool | Load_failed js_value | Not_started js_value

fun exit_code :: "ingest_end \<Rightarrow> int" where
  "exit_code (Loaded _ _) = 0"
| "exit_code _ = 1"

text \<open>A length is at least the configured batch size, a number, exactly when it is at least its ceiling.\<close>

definition ingest_main ::
  "environment \<Rightarrow> (nat \<Rightarrow> flush_fate) \<Rightarrow> string \<Rightarrow> OrderRow list \<Rightarrow> order_row list \<Rightarrow> ingest_end \<times> order_row list" where
  "ingest_main env fates batchId csv rows =
    (case and_then (config env) (\<lambda>c. and_then (createPool env ''saga'') (\<lambda>p. Inr c)) of
       Inl e \<Rightarrow> (Not_started e, rows)
     | Inr c \<Rightarrow>
        (case ingestOrders fates (nat \<lceil>cfg_ingestBatchSize c\<rceil>) batchId csv rows of
           (Inl e, rows') \<Rightarrow> (Load_failed e, rows')
         | (Inr result, rows') \<Rightarrow> (Loaded result (rowsSkipped result > 0 \<and> rowsInserted result = 0), rows')))"

lemma ingest_main_run:
  assumes "ingest_main env fates batchId csv rows = (end, rows')"
  obtains (stopped) e where "end = Not_started e" "rows' = rows"
  | (failed) bsize e where "ingestOrders fates bsize batchId csv rows = (Inl e, rows')" "end = Load_failed e"
  | (loaded) bsize res where "ingestOrders fates bsize batchId csv rows = (Inr res, rows')"
      "end = Loaded res (rowsSkipped res > 0 \<and> rowsInserted res = 0)"
proof (cases "and_then (config env) (\<lambda>c. and_then (createPool env ''saga'') (\<lambda>p. Inr c))")
  case (Inl e)
  with assms stopped [of e] show ?thesis by (simp add: ingest_main_def)
next
  case (Inr c)
  obtain r rows1 where run: "ingestOrders fates (nat \<lceil>cfg_ingestBatchSize c\<rceil>) batchId csv rows = (r, rows1)" by fastforce
  with assms Inr have "rows1 = rows'" by (auto simp: ingest_main_def split: sum.splits)
  with run assms Inr failed loaded show ?thesis by (cases r) (auto simp: ingest_main_def)
qed

lemma ingestOrders_keys:
  assumes "ingestOrders fates bsize batchId csv rows = (r, rows')"
  shows "o_order_id ` set rows' \<subseteq> csv_order_id ` set csv \<union> o_order_id ` set rows"
    and "o_order_id ` set rows \<subseteq> o_order_id ` set rows'"
    and "r = Inr res \<Longrightarrow> o_order_id ` set rows' = csv_order_id ` set csv \<union> o_order_id ` set rows"
proof -
  note S = ingestOrders_spec [OF assms]
  then obtain us ws where us: "rows' = fold add_order us rows" "us @ ws = map (row_values batchId) csv"
    by (auto simp: partly_loaded_def)
  have "v_order_id ` set us \<subseteq> v_order_id ` set (us @ ws)" by auto
  also have "\<dots> = csv_order_id ` set csv" unfolding us(2) by (auto simp: row_values_def image_image)
  finally show "o_order_id ` set rows' \<subseteq> csv_order_id ` set csv \<union> o_order_id ` set rows"
    by (auto simp: us(1) add_orders_keys)
  show "o_order_id ` set rows \<subseteq> o_order_id ` set rows'" by (auto simp: us(1) add_orders_keys)
  show "r = Inr res \<Longrightarrow> o_order_id ` set rows' = csv_order_id ` set csv \<union> o_order_id ` set rows"
    using S by (auto simp: add_orders_keys row_values_def image_image)
qed

lemma ingest_main_loaded:
  assumes "ingest_main env fates batchId csv rows = (Loaded res new, rows')"
  shows "\<exists>bsize. ingestOrders fates bsize batchId csv rows = (Inr res, rows') \<and>
    (new \<longleftrightarrow> rowsSkipped res > 0 \<and> rowsInserted res = 0)"
  using assms
proof (cases rule: ingest_main_run)
  case (loaded bsize r)
  then have "res = r" "new \<longleftrightarrow> rowsSkipped r > 0 \<and> rowsInserted r = 0" by simp_all
  with loaded(1) show ?thesis by (intro exI [of _ bsize]) simp
qed simp_all

lemma exit_zero: "exit_code e = 0 \<Longrightarrow> \<exists>res new. e = Loaded res new"
  by (cases e) simp_all

lemma ingest_main_keys:
  assumes "ingest_main env fates batchId csv rows = (e, rows')"
  shows "o_order_id ` set rows' \<subseteq> csv_order_id ` set csv \<union> o_order_id ` set rows \<and>
    o_order_id ` set rows \<subseteq> o_order_id ` set rows'"
  using assms
proof (cases rule: ingest_main_run)
  case (failed bsize e)
  from ingestOrders_keys(1,2) [OF failed(1)] show ?thesis by (rule conjI)
next
  case (loaded bsize res1)
  from ingestOrders_keys(1,2) [OF loaded(1)] show ?thesis by (rule conjI)
qed simp

text \<open>
  The loader may be run again: after a complete run another one changes nothing, skips every row and
  says so; after a run that failed, with exit code 1, another one that ends well completes the file.
\<close>

lemma second_load:
  assumes first: "ingest_main env1 fates1 batch1 csv rows0 = (end1, rows1)"
    and second: "ingest_main env2 fates2 batch2 csv rows1 = (Loaded res new, rows2)"
  shows "o_order_id ` set rows2 = csv_order_id ` set csv \<union> o_order_id ` set rows0"
    and "exit_code end1 = 0 \<Longrightarrow> rows2 = rows1 \<and> rowsSkipped res = int (length csv) \<and> (new \<longleftrightarrow> csv \<noteq> [])"
proof -
  from ingest_main_loaded [OF second] obtain size2 where
    s: "ingestOrders fates2 size2 batch2 csv rows1 = (Inr res, rows2)"
    and new: "new \<longleftrightarrow> rowsSkipped res > 0 \<and> rowsInserted res = 0" by blast
  note K = ingestOrders_keys(3) [OF s refl] and sub = ingest_main_keys [OF first]
  have join: "X \<subseteq> A \<union> Y \<and> Y \<subseteq> X \<Longrightarrow> A \<union> X = A \<union> Y" for A X Y :: "string set" by blast
  show "o_order_id ` set rows2 = csv_order_id ` set csv \<union> o_order_id ` set rows0" by (simp only: K join [OF sub])
  assume "exit_code end1 = 0"
  then obtain res1 new1 where "end1 = Loaded res1 new1" using exit_zero by blast
  with first obtain size1 where f: "ingestOrders fates1 size1 batch1 csv rows0 = (Inr res1, rows1)"
    using ingest_main_loaded [of env1 fates1 batch1 csv rows0 res1 new1 rows1] by blast
  have "v_order_id ` set (map (row_values batch2) csv) = csv_order_id ` set csv"
    by (simp add: row_values_def image_image)
  with ingestOrders_keys(3) [OF f refl]
  have known: "v_order_id ` set (map (row_values batch2) csv) \<subseteq> o_order_id ` set rows1" by (simp only: Un_upper1)
  note S = ingestOrders_spec [OF s, THEN conjunct2, rule_format, OF refl]
  have "rows2 = rows1" using S add_orders_known [OF known] by simp
  with S have "rowsInserted res = 0" "rowsSkipped res = int (length csv)" by simp_all
  with new \<open>rows2 = rows1\<close> show "rows2 = rows1 \<and> rowsSkipped res = int (length csv) \<and> (new \<longleftrightarrow> csv \<noteq> [])" by simp
qed

section \<open>Seeding the stock from the command line\<close>

text \<open>
  One upsert after the other; a quantity that is no number is refused by the server, and the first
  statement that fails ends the run with exit code 1.
\<close>

fun seed_loop ::
  "(nat \<Rightarrow> flush_fate) \<Rightarrow> nat \<Rightarrow> (string \<times> string) list \<Rightarrow> (inventory_row list, js_value, nat) act" where
  "seed_loop fates count [] st = (Inr count, st)"
| "seed_loop fates count ((sk, text) # rows) st =
    (let qty = js_Number text; st' = seed_row (sk, sql_int qty) st
     in if \<not> is_finite qty then (Inl nan_error, st)
        else (case fates count of
                Flush_ok \<Rightarrow> seed_loop fates (Suc count) rows st'
              | Flush_fails e \<Rightarrow> (Inl e, st)
              | Flush_ack_lost e \<Rightarrow> (Inl e, st')))"

definition seed_main ::
  "environment \<Rightarrow> (nat \<Rightarrow> flush_fate) \<Rightarrow> (string \<times> string) list \<Rightarrow> inventory_row list \<Rightarrow> int \<times> inventory_row list" where
  "seed_main env fates csv st =
    (case createPool env ''svc_inventory'' of
       Inl e \<Rightarrow> (1, st)
     | Inr p \<Rightarrow> (case seed_loop fates 0 csv st of (Inr count, st') \<Rightarrow> (0, st') | (Inl e, st') \<Rightarrow> (1, st')))"

definition seed_values :: "(string \<times> string) list \<Rightarrow> (string \<times> int) list" where
  "seed_values = map (\<lambda>(sk, text). (sk, sql_int (js_Number text)))"

lemma seed_loop_prefix:
  "seed_loop fates n csv st = (r, st') \<Longrightarrow>
    \<exists>us ws. csv = us @ ws \<and> st' = seed (seed_values us) st \<and> ((\<exists>k. r = Inr k) \<longrightarrow> ws = [] \<and> r = Inr (n + length csv))"
proof (induction fates n csv st rule: seed_loop.induct)
  case (2 fates n sk t rows st)
  let ?p = "(sk, sql_int (js_Number t))"
  show ?case
  proof (cases "is_finite (js_Number t) \<and> fates n = Flush_ok")
    case True
    with 2(2) have "seed_loop fates (Suc n) rows (seed_row ?p st) = (r, st')" by (simp add: Let_def)
    from 2(1) [OF refl refl _ _ this] True obtain us ws where "rows = us @ ws" "st' = seed (seed_values us) (seed_row ?p st)"
      "(\<exists>k. r = Inr k) \<longrightarrow> ws = [] \<and> r = Inr (Suc n + length rows)" by auto
    then show ?thesis by (intro exI [of _ "(sk, t) # us"] exI [of _ ws]) (auto simp: seed_Cons seed_values_def)
  next
    case False
    have one: "st' = seed (seed_values [(sk, t)]) st" if "st' = seed_row ?p st"
      using that by (simp add: seed_values_def seed_def)
    from False 2(2) have "(st' = st \<or> st' = seed_row ?p st) \<and> (\<exists>e. r = Inl e)"
      by (auto simp: Let_def split: if_splits flush_fate.splits)
    then show ?thesis
    proof (elim conjE disjE)
      assume "st' = st" "\<exists>e. r = Inl e"
      then show ?thesis by (intro exI [of _ "[]"] exI [of _ "(sk, t) # rows"]) (auto simp: seed_def seed_values_def)
    next
      assume "st' = seed_row ?p st" "\<exists>e. r = Inl e"
      with one show ?thesis by (intro exI [of _ "[(sk, t)]"] exI [of _ rows]) auto
    qed
  qed
qed (auto simp: seed_def seed_values_def)

text \<open>A run that ends well leaves what one clean run leaves, whatever earlier runs did and where they failed.\<close>

lemma seed_again:
  assumes "seed_main env1 fates1 csv st0 = (code1, st1)" and "seed_main env2 fates2 csv st1 = (0, st2)"
  shows "row_at inv_sku x st2 = row_at inv_sku x (seed (seed_values csv) st0)"
proof -
  obtain us ws where us: "csv = us @ ws" "st1 = seed (seed_values us) st0"
  proof (cases "createPool env1 ''svc_inventory''")
    case Inl
    with assms(1) that [of "[]" csv] show ?thesis by (simp add: seed_main_def seed_def seed_values_def)
  next
    case Inr
    obtain r where "seed_loop fates1 0 csv st0 = (r, st1)"
      using assms(1) Inr by (auto simp: seed_main_def split: prod.splits sum.splits)
    from seed_loop_prefix [OF this] that show ?thesis by blast
  qed
  from assms(2) obtain k where "seed_loop fates2 0 csv st1 = (Inr k, st2)"
    by (auto simp: seed_main_def split: sum.splits prod.splits)
  from seed_loop_prefix [OF this] have st2: "st2 = seed (seed_values csv) st1" by auto
  have "map_of (rev (seed_values csv)) x = None \<Longrightarrow> map_of (rev (seed_values us)) x = None"
    by (simp add: us(1) seed_values_def map_add_None)
  then show ?thesis by (auto simp: st2 us(2) seed_at split: option.splits)
qed

end
