(* ===== verification/Spec2Isabelle.thy ===== *)
theory Spec2Isabelle
  imports IdemRace Env NotifierEnd CoordProcess ServiceApp Recovery WebContract WebApp Startup Logger
begin

text \<open>
  A model of the order saga, a system that places orders without a distributed transaction.

  \<^bold>\<open>The program.\<close> A coordinator (services/coordinator) loads orders from a CSV file into
  \<open>saga.saga_orders\<close>, claims them in batches under a lease, and runs the saga of each: the four
  forward steps CREATE_ORDER, RESERVE_INVENTORY, CHARGE_PAYMENT and CREATE_SHIPMENT in parallel,
  each a POST to one of four worker services (services/order, inventory, payment, shipping), and, when
  one of them fails, the undo steps of those recorded SUCCEEDED. Every service runs its handlers through
  the shared library (packages/shared): validation, an idempotency record per (order, step), a
  transaction with a retry on deadlock, a Redis cache in front of the records, and a mapping of errors to
  status codes that the coordinator's retry policy reads back. The coordinator's HTTP API feeds a web UI
  (web/) and the notification service (services/notification), which sends one notification per
  shipped order.

  \<^bold>\<open>Theories and code.\<close> A name in a theory is the name of the function it models, with its own prefix
  where several components use it.

  \<^item> Prelude: actions that may throw over a state (\<open>act\<close>), SQL statements on tables, the collections
    \<open>sql_key\<close>, \<open>sql_simps\<close>, \<open>act_simps\<close> and \<open>preserves_intro\<close>.
  \<^item> JsNumber: \<open>Number(text)\<close>, \<open>||\<close>, \<open>Math.min\<close>, \<open>Math.max\<close>. Types: shared/src/types.ts. Errors: errors.ts
    and the error tests of db.ts. Env: env.ts and the coordinator's config.ts.
  \<^item> Db: \<open>withTransaction\<close> of db.ts. Retry: retry.ts. Cache: cache.ts, with the locale \<open>cache_contract\<close> that both
    caches interpret. Http: \<open>callStep\<close> of http.ts.
  \<^item> Idempotency: \<open>runIdempotent\<close> of idempotency.ts as a program, with faults. IdemRace: its statements as
    steps of any number of processes, with crashes and stale takeovers.
  \<^item> Service: \<open>registerStep\<close>, \<open>validateBody\<close>, the error middleware and /health of service.ts. ServiceApp: the
    applications of the four services, as layers in their order of registration. Logger: logger.ts.
  \<^item> OrderSvc, InventorySvc (with seed.ts), PaymentSvc, ShippingSvc: the eight handlers over their tables.
    StepContract: the locale \<open>step_contract\<close> each service interprets; ServiceCalm extends it to faultless requests.
  \<^item> Repository, Claim: repository.ts, the statements on the schema \<open>saga\<close> and the claim transaction.
    Ingest: ingest.ts. Queries: queries.ts. Lifecycle: the rows of \<open>saga_orders\<close> under every statement
    anyone sends, as the step relation \<open>life_step\<close>. The locales \<open>fenced_write\<close> (Repository) and
    \<open>guarded_transition\<close> (Lifecycle) are the contracts of the guarded statements.
  \<^item> Saga: saga.ts. SagaFrame (what a run can touch), SagaSpec and SagaRun (what it guarantees for any
    services and any failures), SagaVerdict (a specification it equals when nothing fails in the
    database), SagaLife (it implements \<open>life_step\<close>). Branches: the parallel branches statement by
    statement, every interleaving of which is one of the runs of Saga; BranchWorld: the same in front of the services.
    SagaSteps: the whole of saga.ts as a machine whose events are its awaits; SagaUnfold: the runs of Saga are runs of it.
  \<^item> Worker: worker.ts, the pool \<open>mapWithConcurrency\<close> and the claim loop with \<open>stop()\<close>. CoordProcess: the
    coordinator's index.ts, from the start to the exit after a signal. Api: api.ts.
  \<^item> Notifier, NotifierJob, NotifierProcess, NotifierEnd: notifier.ts and index.ts of the notification service,
    whose shutdown cuts a job between any two of its statements.
  \<^item> StepServices: the locale \<open>step_services\<close>, what the engine relies on behind its step URLs, and what a saga
    then guarantees. Shop: the four services, the network and the fetch of the coordinator put together, the
    interpretation of that locale. The network delays, loses and duplicates: any request that was sent may
    arrive (again) at any later time. ShopRuns: whole orders, from the claim to the tables of the services.
  \<^item> Fleet: any number of coordinators over the same tables and services, one event of one of them at a time,
    with claims, manual retries, ingests and late requests in between. LostLease: a run of Fleet in which a coordinator
    that has lost its lease undoes a placed order. LeaseHeld: what holds when none goes on after losing it. Recovery: from any state of Fleet one coordinator
    with a working database brings an unfinished order to its end.
  \<^item> WebList, WebDetail: core/api.ts, core/models.ts, order-list.ts and order-detail.ts of the web UI.
    WebApp: app.routes.ts and what navigating does to the two pages. WebContract: the JSON of the coordinator's API and the interfaces its clients declare for it.
  \<^item> Startup: createPool of db.ts, what each process reads from the environment, and the two command line
    programs cli/ingest.ts and seed.ts.

  \<^bold>\<open>State.\<close> A table is the list of its rows in insertion order, a row a record of the columns the code
  reads. A coordinator (\<open>coord\<close>) is its database, its clock, the world behind its fetch, a counter
  of statements and its heartbeat timer; a service (\<open>step_service\<close>) is its tables, idempotency records,
  cache and clock. A thrown value is a \<open>js_value\<close>; a fallible operation returns \<open>js_value + 'a\<close>. What the
  code does not decide is an argument: the fate of each statement (done, failed, or done with the
  acknowledgement lost), the jitter, the outcome of each BEGIN and COMMIT, what the network does to each
  request, the order in which parallel branches take effect, what other instances do meanwhile.

  \<^bold>\<open>What the lemmas show.\<close> Per component: single execution of an operation, sequentially and under
  concurrency; atomicity of transactions; the audit and bounds of retries; the ledger, stock, order
  and shipment invariants of the services over any faulty sequence of requests; exclusive claims; the
  bounded memory and the completeness of a repeated ingest; bounded pages that list everything; what the web
  UI shows. For the engine: the status it returns fits the step rows, recovery only undoes, recorded
  steps are not repeated, its decision equals \<open>saga_verdict\<close>, its statements stay within the life
  cycle, and every unfinished order becomes claimable again. For the system: one working coordinator ends every
  unfinished order; a placed order is live in all four services, a cancelled one is undone wherever a step was recorded, and what remains when the
  answers of a step are lost; for any number of coordinators, interleaved at their awaits, the step rows never
  lie, and the order rows do not either while leases are respected. For the notifier: at most one
  notification over any interleaving of instances, and at least one by an undisturbed job.

  \<^bold>\<open>Loops.\<close> The loop of withRetry and that of withTransaction count up to a limit and terminate by that
  measure; the pool and the loop of the worker are machines, with the number of steps proved for the pool.
  The notifier's endless loop over pages is a \<open>partial_function\<close>: against the list route of Api it is proved
  to return, for any page size the configuration can hold (below \<open>2 ^ 64\<close>). There is no fuel anywhere.

  \<^bold>\<open>Numbers.\<close> Quantities and counters are unbounded integers, JavaScript numbers are rationals with NaN and
  the infinities; where a text is read as a number or a number reaches LIMIT, the bound \<open>2 ^ 64\<close> of the
  server is written out. A statement that leaves the range of INT is one of the failing statements.

  \<^bold>\<open>Not modelled.\<close> The driver; Express itself (body parser, path matching, CORS, listening,
  connections kept alive after \<open>server.close\<close>), a second signal during a shutdown, a GET in the middle of a
  notification job; csv-parse (the parsed rows are an argument); Angular itself (of its router, what it documents of matching, redirects and reuse) and the templates;
  collations and column widths of MySQL (texts compare by equality); timestamps nothing reads; rounding of
  53-bit numbers and Unicode white space in \<open>Number\<close>. Parallel branches of one \<open>allSettled\<close> take effect one
  after another in Saga, which Branches justifies for one \<open>runConcurrently\<close> (up to dates and the order of audit rows)
  and SagaSteps does without; in Fleet the claim transaction is one step;
  the UPDATE of claimForRetry and the SELECT after
  it are one statement, which may fail before, or after it took effect. JSON survives stringify and parse unchanged. The UI
  puts order ids into URLs without encoding them; the model takes the id as the route parameter.
\<close>

end
